(* ===== verification/Prelude.thy ===== *)
theory Prelude
  imports Main "HOL-Library.Word" "HOL-Library.Monad_Syntax" "HOL-Library.Code_Target_Numeral"
begin

text \<open>
  Shared vocabulary of the development: the machine types of the MIPS port, the error
  codes of \<^verbatim>\<open>kern/include/kern/errno.h\<close>, how a halting kernel is represented, checked
  array accesses, and the generic lemmas on lists, words and the option monad that the
  component theories use.

  Conventions.
  \<^item> A C function that may reach a failed \<^verbatim>\<open>KASSERT\<close>, a \<^verbatim>\<open>panic\<close> or an access outside the
    object it addresses returns an \<open>option\<close>: \<open>None\<close> is the halted (or undefined) kernel.
    The \<open>do\<close> notation of the option monad sequences such calls.
  \<^item> A C function that returns an error code or 0 returns \<open>errno + 'a\<close>: \<open>Inl e\<close> is the
    code, \<open>Inr\<close> carries what the function hands back through its out-parameters.
  \<^item> State is passed explicitly and returned updated.
\<close>

unbundle bit_operations_syntax

named_theorems kernel_defs \<open>definitions of small kernel helpers that proofs unfold\<close>
named_theorems kernel_simps \<open>derived equations of the component operations\<close>

section \<open>Machine types\<close>

type_synonym u8 = "8 word"
type_synonym u16 = "16 word"
type_synonym u32 = "32 word"
type_synonym u64 = "64 word"

text \<open>\<^verbatim>\<open>paddr_t\<close> and \<^verbatim>\<open>vaddr_t\<close> are 32-bit; where an operation cannot leave the 32-bit
  range under its invariant the models use \<open>nat\<close>, and \<open>u32\<close> where it can.\<close>

type_synonym paddr = nat
type_synonym vaddr = u32

abbreviation PAGE_SIZE :: nat where "PAGE_SIZE \<equiv> 4096"
abbreviation PAGE_FRAME :: u32 where "PAGE_FRAME \<equiv> 0xfffff000"

section \<open>Error codes\<close>

datatype errno =
    ENOSYS | ENOMEM | EFAULT | ENAMETOOLONG | EINVAL | ENPROC | ENOEXEC | E2BIG | ESRCH
  | ECHILD | ENOTDIR | EISDIR | ENOENT | EEXIST | ENODEV | EBUSY | EMFILE | EBADF | EIO
  | ESPIPE | ENOSPC | EFBIG

primrec errno_code :: "errno \<Rightarrow> u32" where
  "errno_code ENOSYS = 1"
| "errno_code ENOMEM = 3"
| "errno_code EFAULT = 6"
| "errno_code ENAMETOOLONG = 7"
| "errno_code EINVAL = 8"
| "errno_code ENPROC = 12"
| "errno_code ENOEXEC = 13"
| "errno_code E2BIG = 14"
| "errno_code ESRCH = 15"
| "errno_code ECHILD = 16"
| "errno_code ENOTDIR = 17"
| "errno_code EISDIR = 18"
| "errno_code ENOENT = 19"
| "errno_code EEXIST = 22"
| "errno_code ENODEV = 25"
| "errno_code EBUSY = 27"
| "errno_code EMFILE = 28"
| "errno_code EBADF = 30"
| "errno_code EIO = 32"
| "errno_code ESPIPE = 33"
| "errno_code ENOSPC = 36"
| "errno_code EFBIG = 38"

lemma errno_code_nonzero [simp]: "errno_code e \<noteq> 0"
  by (cases e) simp_all

section \<open>Assertions and checked accesses\<close>

definition kassert :: "bool \<Rightarrow> unit option" where
  "kassert b = (if b then Some () else None)"

lemma kassert_simps [simp]:
  "kassert True = Some ()" "kassert False = None"
  "b \<Longrightarrow> kassert b = Some ()" "\<not> b \<Longrightarrow> kassert b = None"
  by (simp_all add: kassert_def)

lemma kassert_Some [simp]: "kassert b = Some u \<longleftrightarrow> b"
  by (simp add: kassert_def)

lemma kassert_bind: "(kassert b \<bind> f) = (if b then f () else None)"
  by (simp add: kassert_def)

definition rd :: "'a list \<Rightarrow> nat \<Rightarrow> 'a option" where
  "rd xs i = (if i < length xs then Some (xs ! i) else None)"

definition wr :: "'a list \<Rightarrow> nat \<Rightarrow> 'a \<Rightarrow> 'a list option" where
  "wr xs i v = (if i < length xs then Some (xs[i := v]) else None)"

lemma rd_in [simp]: "i < length xs \<Longrightarrow> rd xs i = Some (xs ! i)"
  by (simp add: rd_def)

lemma rd_out [simp]: "length xs \<le> i \<Longrightarrow> rd xs i = None"
  by (simp add: rd_def)

lemma rd_Some_iff: "rd xs i = Some v \<longleftrightarrow> i < length xs \<and> v = xs ! i"
  by (auto simp: rd_def)

lemma wr_in [simp]: "i < length xs \<Longrightarrow> wr xs i v = Some (xs[i := v])"
  by (simp add: wr_def)

lemma wr_out [simp]: "length xs \<le> i \<Longrightarrow> wr xs i v = None"
  by (simp add: wr_def)

lemma wr_Some_iff: "wr xs i v = Some ys \<longleftrightarrow> i < length xs \<and> ys = xs[i := v]"
  by (auto simp: wr_def)

section \<open>Outcomes of the kernel heap\<close>

text \<open>Where a component only needs to know whether an allocation succeeded, the outcomes of
  its future calls of \<^verbatim>\<open>kmalloc\<close> are an input: a list of booleans, one per call, after which
  every call succeeds. Every pattern of failures is such a list.\<close>

type_synonym heap_oracle = "bool list"

fun kmalloc_ok :: "heap_oracle \<Rightarrow> bool \<times> heap_oracle" where
  "kmalloc_ok [] = (True, [])"
| "kmalloc_ok (b # bs) = (b, bs)"

section \<open>Generic lemmas\<close>

lemma div_mod_bound: "(i :: nat) < 8 * n \<Longrightarrow> i div 8 < n"
  by (simp add: less_mult_imp_div_less mult.commute)

lemma divroundup_bound: "(i :: nat) < n \<Longrightarrow> i div 8 < (n + 7) div 8"
  using div_le_mono [of "i + 8" "n + 7" 8] by simp

lemma map_upt_id: "(\<And>i. i < length xs \<Longrightarrow> f i = xs ! i) \<Longrightarrow> map f [0..<length xs] = xs"
  by (rule nth_equalityI) simp_all

lemma All_less_2: "(\<forall>i<(2::nat). P i) \<longleftrightarrow> P 0 \<and> P 1"
  by (auto simp: less_2_cases_iff)

lemma All_less_3: "(\<forall>i<(3::nat). P i) \<longleftrightarrow> P 0 \<and> P 1 \<and> P 2"
  by (metis All_less_2 less_Suc_eq numeral_2_eq_2 numeral_3_eq_3)

lemma unat_of_nat_u32: "n < 4294967296 \<Longrightarrow> unat (of_nat n :: u32) = n"
  by (simp add: unat_of_nat)

lemma unat_minus_1_u32 [simp]: "unat (- 1 :: u32) = 4294967295"
  by transfer (simp add: take_bit_minus_one_eq_mask mask_eq_exp_minus_1)

lemma unat_u32_less: "unat (w :: u32) < 4294967296"
proof -
  have "unat w < 2 ^ LENGTH(32)" by (rule unsigned_less)
  then show ?thesis by simp
qed

lemma word_eqI_u8: "(\<And>n. n < 8 \<Longrightarrow> bit x n = bit y n) \<Longrightarrow> x = (y :: u8)"
  by (rule bit_word_eqI) simp

lemma and_push_bit_eq_0:
  "(x :: 'a::len word) AND push_bit n 1 = 0 \<longleftrightarrow> \<not> bit x n"
  "(x :: 'a::len word) AND 2 ^ n = 0 \<longleftrightarrow> \<not> bit x n"
  by (simp_all add: push_bit_of_1 and_exp_eq_0_iff_not_bit)

lemma find_upt_Some:
  assumes "find P [m..<n] = Some i"
  shows "m \<le> i" "i < n" "P i" "\<And>j. m \<le> j \<Longrightarrow> j < i \<Longrightarrow> \<not> P j"
proof -
  from assms obtain k where k: "k < length [m..<n]" "P ([m..<n] ! k)" "i = [m..<n] ! k"
    and before: "\<forall>j<k. \<not> P ([m..<n] ! j)"
    by (auto simp: find_Some_iff)
  then have i: "i = m + k" and kn: "k < n - m" by simp_all
  show "m \<le> i" "i < n" "P i" using k i kn by simp_all
  fix j assume j: "m \<le> j" "j < i"
  then have "j - m < k" using i by linarith
  with before have "\<not> P ([m..<n] ! (j - m))" by blast
  with j i kn show "\<not> P j" by simp
qed

lemma find_upt_None: "find P [m..<n] = None \<longleftrightarrow> (\<forall>j. m \<le> j \<longrightarrow> j < n \<longrightarrow> \<not> P j)"
  by (auto simp: find_None_iff)

lemma find_upt_eq:
  assumes "m \<le> i" "i < n" "P i" "\<And>j. m \<le> j \<Longrightarrow> j < i \<Longrightarrow> \<not> P j"
  shows "find P [m..<n] = Some i"
proof -
  have "i - m < length [m..<n]" "[m..<n] ! (i - m) = i" using assms(1,2) by simp_all
  moreover have "\<not> P ([m..<n] ! j)" if "j < i - m" for j
    using that assms(2,4) by simp
  ultimately show ?thesis using assms(3) unfolding find_Some_iff by metis
qed

text \<open>A 32-bit word read as a signed integer.\<close>

lemma signed_take_bit_int:
  fixes k :: int
  assumes "0 \<le> k" "k < 4294967296"
  shows "signed_take_bit 31 k = (if k < 2147483648 then k else k - 4294967296)"
proof -
  have "bit k 31 \<longleftrightarrow> 2147483648 \<le> k"
  proof -
    have "k div 2147483648 = 1" if "\<not> k < 2147483648"
      using that assms by (intro int_div_pos_eq [of _ _ _ "k - 2147483648"]) simp_all
    then have "k div 2147483648 = (if k < 2147483648 then 0 else 1)" using assms by simp
    then show ?thesis by (simp add: bit_iff_odd)
  qed
  moreover have "signed_take_bit 31 k = take_bit 32 k - 4294967296 * of_bool (bit k 31)"
    using signed_take_bit_eq_take_bit_minus [of 31 k] by simp
  moreover have "take_bit 32 k = k" using assms by (simp add: take_bit_eq_mod)
  ultimately show ?thesis by simp
qed

lemma sint_u32: "sint (w :: u32) = (if unat w < 2147483648 then int (unat w) else int (unat w) - 4294967296)"
proof -
  define k where "k = unat w"
  have u: "uint w = int k" by (simp add: k_def)
  have "k < 4294967296" using uint_lt2p [of w] unfolding u by simp
  then have "signed_take_bit 31 (int k) = (if int k < 2147483648 then int k else int k - 4294967296)"
    by (intro signed_take_bit_int) linarith+
  moreover have "sint w = signed_take_bit 31 (int k)" by (simp add: sint_uint u)
  ultimately have "sint w = (if k < 2147483648 then int k else int k - 4294967296)" by (cases "k < 2147483648") simp_all
  then show ?thesis unfolding k_def .
qed

end
