(* ===== verification/Copyinout.thy ===== *)
theory Copyinout
  imports Prelude
begin

text \<open>
  \<^verbatim>\<open>kern/vm/copyinout.c\<close>: copying between user and kernel memory. Kernel memory is a total
  byte function; user memory is partial, \<open>None\<close> where an access faults for good (the VM system
  finds no valid region). A fault while \<^verbatim>\<open>tm_badfaultfunc\<close> is set resumes in \<^verbatim>\<open>copyfail\<close>, which
  jumps back to the \<^verbatim>\<open>setjmp\<close> and makes the call return \<^verbatim>\<open>EFAULT\<close>; the bytes copied before the
  fault stay copied.
\<close>

section \<open>Memory\<close>

record memory =
  kmem :: "u32 \<Rightarrow> u8"
  umem :: "u32 \<Rightarrow> u8 option"
  badfaultfunc :: bool

abbreviation USERSPACETOP :: u32 where "USERSPACETOP \<equiv> 0x80000000"

definition kread :: "(u32 \<Rightarrow> u8) \<Rightarrow> u32 \<Rightarrow> nat \<Rightarrow> u8 list" where
  "kread km a n = map (\<lambda>i. km (a + of_nat i)) [0..<n]"

definition kwrite :: "(u32 \<Rightarrow> u8) \<Rightarrow> u32 \<Rightarrow> u8 list \<Rightarrow> (u32 \<Rightarrow> u8)" where
  "kwrite km a bs = (\<lambda>x. if unat (x - a) < length bs then bs ! unat (x - a) else km x)"

lemma length_kread [simp]: "length (kread km a n) = n"
  by (simp add: kread_def)

lemma kread_0 [simp]: "kread km a 0 = []"
  by (simp add: kread_def)

lemma nth_kread [simp]: "i < n \<Longrightarrow> kread km a n ! i = km (a + of_nat i)"
  by (simp add: kread_def)

lemma kread_append: "kread km a (m + n) = kread km a m @ kread km (a + of_nat m) n"
  by (rule nth_equalityI) (auto simp: nth_append algebra_simps)

lemma kread_Suc: "kread km a (Suc n) = km a # kread km (a + 1) n"
  using kread_append [of km a 1 n] by (simp add: kread_def)

lemma kread_kwrite_same:
  assumes "length bs < 4294967296"
  shows "kread (kwrite km a bs) a (length bs) = bs"
  using assms by (intro nth_equalityI) (auto simp: kwrite_def unat_of_nat_u32)

text \<open>A read of a range that the written one does not meet.\<close>

definition disjoint_ranges :: "u32 \<Rightarrow> nat \<Rightarrow> u32 \<Rightarrow> nat \<Rightarrow> bool" where
  "disjoint_ranges a m b n \<longleftrightarrow> (\<forall>i<m. n \<le> unat (a + of_nat i - b))"

lemma kread_kwrite_other:
  assumes "disjoint_ranges a n b (length bs)"
  shows "kread (kwrite km b bs) a n = kread km a n"
  using assms by (intro nth_equalityI) (auto simp: kwrite_def disjoint_ranges_def)

lemma kwrite_Nil [simp]: "kwrite km a [] = km"
  by (simp add: kwrite_def)

section \<open>Checking a user range\<close>

definition copycheck :: "u32 \<Rightarrow> u32 \<Rightarrow> errno + u32" where
  "copycheck userptr len = (
     let bot = userptr; top = bot + len - 1 in
     if top < bot then Inl EFAULT
     else if USERSPACETOP \<le> bot then Inl EFAULT
     else if USERSPACETOP \<le> top then Inr (USERSPACETOP - bot)
     else Inr len)"

section \<open>Block copies\<close>

text \<open>The \<^verbatim>\<open>memcpy\<close> of \<^verbatim>\<open>copyin\<close>: the bytes fetched, and whether it ran to the end.\<close>

fun user_fetch :: "(u32 \<Rightarrow> u8 option) \<Rightarrow> u32 \<Rightarrow> nat \<Rightarrow> u8 list \<times> bool" where
  "user_fetch um a 0 = ([], True)"
| "user_fetch um a (Suc n) = (case um a of
      None \<Rightarrow> ([], False)
    | Some b \<Rightarrow> (let (bs, ok) = user_fetch um (a + 1) n in (b # bs, ok)))"

fun user_store :: "(u32 \<Rightarrow> u8 option) \<Rightarrow> u32 \<Rightarrow> u8 list \<Rightarrow> (u32 \<Rightarrow> u8 option) \<times> bool" where
  "user_store um a [] = (um, True)"
| "user_store um a (b # bs) = (case um a of
      None \<Rightarrow> (um, False)
    | Some _ \<Rightarrow> user_store (um(a \<mapsto> b)) (a + 1) bs)"

definition copyin :: "u32 \<Rightarrow> u32 \<Rightarrow> u32 \<Rightarrow> memory \<Rightarrow> (errno + unit) \<times> memory" where
  "copyin usersrc dest len m = (case copycheck usersrc len of
      Inl e \<Rightarrow> (Inl e, m)
    | Inr stoplen \<Rightarrow>
        if stoplen \<noteq> len then (Inl EFAULT, m)
        else let m1 = m\<lparr>badfaultfunc := True\<rparr>;
                 (bs, ok) = user_fetch (umem m) usersrc (unat len);
                 m2 = m1\<lparr>kmem := kwrite (kmem m) dest bs, badfaultfunc := False\<rparr>
             in if ok then (Inr (), m2) else (Inl EFAULT, m2))"

definition copyout :: "u32 \<Rightarrow> u32 \<Rightarrow> u32 \<Rightarrow> memory \<Rightarrow> (errno + unit) \<times> memory" where
  "copyout src userdest len m = (case copycheck userdest len of
      Inl e \<Rightarrow> (Inl e, m)
    | Inr stoplen \<Rightarrow>
        if stoplen \<noteq> len then (Inl EFAULT, m)
        else let m1 = m\<lparr>badfaultfunc := True\<rparr>;
                 (um, ok) = user_store (umem m) userdest (kread (kmem m) src (unat len));
                 m2 = m1\<lparr>umem := um, badfaultfunc := False\<rparr>
             in if ok then (Inr (), m2) else (Inl EFAULT, m2))"

section \<open>String copies\<close>

text \<open>\<^verbatim>\<open>copystr\<close>, over a fetch and a store that may fault; \<open>None\<close> as the outcome is the fault.
  The measure of the loop is the distance to \<^verbatim>\<open>maxlen\<close>.\<close>

function copystr ::
  "(nat \<Rightarrow> u8 option) \<Rightarrow> (nat \<Rightarrow> u8 \<Rightarrow> 's \<Rightarrow> 's option) \<Rightarrow> nat \<Rightarrow> nat \<Rightarrow> nat \<Rightarrow> 's \<Rightarrow> (errno + nat) option \<times> 's" where
  "copystr fetch store i maxlen stoplen s = (
     if i < maxlen \<and> i < stoplen then
       (case fetch i of
          None \<Rightarrow> (None, s)
        | Some c \<Rightarrow> (case store i c s of
            None \<Rightarrow> (None, s)
          | Some s' \<Rightarrow> if c = 0 then (Some (Inr (i + 1)), s')
                       else copystr fetch store (i + 1) maxlen stoplen s'))
     else if stoplen < maxlen then (Some (Inl EFAULT), s)
     else (Some (Inl ENAMETOOLONG), s))"
  by pat_completeness auto
termination
  by (relation "measure (\<lambda>(f, st, i, maxlen, stoplen, s). maxlen - i)") auto

declare copystr.simps [simp del]

definition copyfail :: "(errno + 'a) option \<Rightarrow> errno + 'a" where
  "copyfail r = (case r of None \<Rightarrow> Inl EFAULT | Some x \<Rightarrow> x)"

definition copyinstr :: "u32 \<Rightarrow> u32 \<Rightarrow> u32 \<Rightarrow> memory \<Rightarrow> (errno + nat) \<times> memory" where
  "copyinstr usersrc dest len m = (case copycheck usersrc len of
      Inl e \<Rightarrow> (Inl e, m)
    | Inr stoplen \<Rightarrow>
        let m1 = m\<lparr>badfaultfunc := True\<rparr>;
            (r, km) = copystr (\<lambda>i. umem m (usersrc + of_nat i))
                        (\<lambda>i c km. Some (km(dest + of_nat i := c))) 0 (unat len) (unat stoplen) (kmem m)
        in (copyfail r, m1\<lparr>kmem := km, badfaultfunc := False\<rparr>))"

definition copyoutstr :: "u32 \<Rightarrow> u32 \<Rightarrow> u32 \<Rightarrow> memory \<Rightarrow> (errno + nat) \<times> memory" where
  "copyoutstr src userdest len m = (case copycheck userdest len of
      Inl e \<Rightarrow> (Inl e, m)
    | Inr stoplen \<Rightarrow>
        let m1 = m\<lparr>badfaultfunc := True\<rparr>;
            (r, um) = copystr (\<lambda>i. Some (kmem m (src + of_nat i)))
                        (\<lambda>i c um. if um (userdest + of_nat i) = None then None
                                  else Some (um(userdest + of_nat i \<mapsto> c))) 0 (unat len) (unat stoplen) (umem m)
        in (copyfail r, m1\<lparr>umem := um, badfaultfunc := False\<rparr>))"

section \<open>Lemmas\<close>

lemma copycheck_eq:
  "copycheck p len =
     (if (len = 0 \<and> p \<noteq> 0) \<or> 4294967296 < unat p + unat len \<or> 2147483648 \<le> unat p then Inl EFAULT
      else Inr (if len \<noteq> 0 \<and> unat p + unat len \<le> 2147483648 then len else USERSPACETOP - p))"
proof (cases "len = 0")
  case True
  show ?thesis
  proof (cases "p = 0")
    case True
    with \<open>len = 0\<close> show ?thesis by (simp add: copycheck_def)
  next
    case False
    then have "1 \<le> unat p" using unat_gt_0 [of p] by linarith
    then have "p - 1 < p" by (simp add: word_less_nat_alt unat_sub_if')
    with True False show ?thesis by (simp add: copycheck_def)
  qed
next
  case False
  then have l: "0 < unat len" by (simp add: unat_gt_0)
  have "unat (p + len - 1) = (unat p + unat len - 1) mod 4294967296"
  proof (cases "unat p + unat len < 4294967296")
    case True
    then have "unat (p + len) = unat p + unat len" by (simp add: unat_word_ariths)
    with l True show ?thesis by (simp add: unat_sub_if')
  next
    case False
    then have s: "unat (p + len) = unat p + unat len - 4294967296"
      using unat_u32_less [of p] unat_u32_less [of len]
      by (simp add: unat_word_ariths mod_if)
    show ?thesis
    proof (cases "unat p + unat len = 4294967296")
      case True
      with s have "p + len = 0" by (simp add: unat_eq_zero)
      then have "p + len - 1 = 4294967295" by simp
      with True show ?thesis by simp
    next
      case ne: False
      with s False have "unat (p + len - 1) = unat p + unat len - 4294967296 - 1"
        by (simp add: unat_sub_if')
      also have "\<dots> = (unat p + unat len - 1) mod 4294967296"
        using False ne unat_u32_less [of p] unat_u32_less [of len] by (simp add: mod_if)
      finally show ?thesis .
    qed
  qed
  then have top: "unat (p + len - 1) =
      (if unat p + unat len \<le> 4294967296 then unat p + unat len - 1 else unat p + unat len - 1 - 4294967296)"
    using l unat_u32_less [of p] unat_u32_less [of len] by (simp add: mod_if)
  show ?thesis
    using False l top unat_u32_less [of p] unat_u32_less [of len]
    by (auto simp: copycheck_def Let_def word_less_nat_alt word_le_nat_alt split: if_splits)
qed

lemma copycheck_full:
  "copycheck p len = Inr len \<longleftrightarrow> len \<noteq> 0 \<and> unat p + unat len \<le> 2147483648"
proof -
  have "USERSPACETOP - p \<noteq> len" if "2147483648 < unat p + unat len" "unat p < 2147483648"
  proof
    assume "USERSPACETOP - p = len"
    then have "unat len = 2147483648 - unat p" using that(2) by (auto simp: unat_sub_if')
    with that show False by simp
  qed
  moreover have "0 < unat len" if "len \<noteq> 0" using that by (simp add: unat_gt_0)
  ultimately show ?thesis unfolding copycheck_eq by (cases "len = 0") (auto split: if_splits)
qed

lemma user_fetch_spec:
  assumes "user_fetch um a n = (bs, ok)"
  shows "map Some bs = map (\<lambda>i. um (a + of_nat i)) [0..<length bs] \<and> length bs \<le> n
    \<and> (ok \<longleftrightarrow> (\<forall>i<n. um (a + of_nat i) \<noteq> None)) \<and> (ok \<longrightarrow> length bs = n)"
  using assms
proof (induction um a n arbitrary: bs ok rule: user_fetch.induct)
  case (1 um a)
  then show ?case by simp
next
  case (2 um a n)
  show ?case
  proof (cases "um a")
    case None
    with "2.prems" show ?thesis by (auto intro: exI [of _ 0])
  next
    case (Some b)
    obtain bs' ok' where f: "user_fetch um (a + 1) n = (bs', ok')" by fastforce
    with "2.prems" Some have r: "bs = b # bs'" "ok = ok'" by auto
    note IH = "2.IH" [OF Some f]
    have all: "(\<forall>i<Suc n. um (a + of_nat i) \<noteq> None) \<longleftrightarrow> (\<forall>i<n. um (a + 1 + of_nat i) \<noteq> None)"
      using Some by (auto simp: All_less_Suc2 algebra_simps)
    have "map (\<lambda>i. um (a + of_nat i)) [0..<Suc (length bs')]
        = um a # map (\<lambda>i. um (a + 1 + of_nat i)) [0..<length bs']"
      by (simp add: upt_conv_Cons map_Suc_upt [symmetric] algebra_simps comp_def del: upt_Suc)
    with IH Some show ?thesis unfolding r all by simp
  qed
qed

lemma user_store_spec:
  assumes "user_store um a bs = (um', ok)" and "unat a + length bs \<le> 4294967296"
  shows "(ok \<longleftrightarrow> (\<forall>i<length bs. um (a + of_nat i) \<noteq> None))
    \<and> dom um' = dom um
    \<and> (\<forall>x. length bs \<le> unat (x - a) \<longrightarrow> um' x = um x)
    \<and> (ok \<longrightarrow> (\<forall>i<length bs. um' (a + of_nat i) = Some (bs ! i)))"
  using assms
proof (induction um a bs arbitrary: um' ok rule: user_store.induct)
  case (1 um a)
  then show ?case by simp
next
  case (2 um a b bs)
  show ?case
  proof (cases "um a")
    case None
    with "2.prems" show ?thesis by (auto intro: exI [of _ 0])
  next
    case (Some c)
    let ?um = "um(a \<mapsto> b)"
    have st: "user_store ?um (a + 1) bs = (um', ok)" using "2.prems"(1) Some by simp
    show ?thesis
    proof (cases "bs = []")
      case True
      with st Some show ?thesis by (auto simp: unat_eq_zero split: if_splits)
    next
      case False
      then have a1: "unat (a + 1) = unat a + 1"
        using "2.prems"(2) by (cases bs) (auto simp: unat_word_ariths)
      then have "unat (a + 1) + length bs \<le> 4294967296" using "2.prems"(2) by simp
      note IH = "2.IH" [OF Some st this]
      have ne: "a + of_nat (Suc i) \<noteq> a" if "i < length bs" for i
      proof
        assume "a + of_nat (Suc i) = a"
        then have "(of_nat (Suc i) :: u32) = 0" by simp
        then have "unat (of_nat (Suc i) :: u32) = 0" by simp
        with that "2.prems"(2) show False by (simp add: unat_of_nat_u32 del: of_nat_Suc)
      qed
      have all: "(\<forall>i<length (b # bs). um (a + of_nat i) \<noteq> None) \<longleftrightarrow> (\<forall>i<length bs. ?um (a + 1 + of_nat i) \<noteq> None)"
        using Some ne by (auto simp: All_less_Suc2 algebra_simps)
      have frame: "um' x = um x" if "length (b # bs) \<le> unat (x - a)" for x
      proof -
        have "x \<noteq> a" using that by auto
        moreover have "unat (x - a - 1) = unat (x - a) - 1"
          using that unat_sub_if' [of "x - a" 1] by simp
        then have "unat (x - (a + 1)) = unat (x - a) - 1" by (simp only: diff_diff_eq)
        then have "length bs \<le> unat (x - (a + 1))" using that by simp
        ultimately show ?thesis using IH by simp
      qed
      have hd: "um' a = Some b"
      proof -
        have "a - (a + 1) = (4294967295 :: u32)" by simp
        then have "unat (a - (a + 1)) = 4294967295" by simp
        then have "length bs \<le> unat (a - (a + 1))" using "2.prems"(2) by simp
        with IH show ?thesis by simp
      qed
      have "dom ?um = dom um" using Some by (auto simp: domI)
      then have "dom um' = dom um" using IH by (simp only:)
      moreover have "\<forall>i<length (b # bs). um' (a + of_nat i) = Some ((b # bs) ! i)" if ok
        using IH that hd by (auto simp: All_less_Suc2 algebra_simps)
      ultimately show ?thesis unfolding all using IH frame by blast
    qed
  qed
qed

lemma copystr_Inr:
  assumes "copystr fetch store i maxlen stoplen s = (Some (Inr n), s')"
  shows "i < n \<and> n \<le> min maxlen stoplen \<and> fetch (n - 1) = Some 0
    \<and> (\<forall>j. i \<le> j \<and> j < n - 1 \<longrightarrow> (\<exists>c. fetch j = Some c \<and> c \<noteq> 0))"
  using assms
proof (induction fetch store i maxlen stoplen s rule: copystr.induct)
  case (1 fetch store i maxlen stoplen s)
  from "1.prems" have lt: "i < maxlen \<and> i < stoplen"
    by (subst (asm) copystr.simps) (auto split: if_splits)
  from "1.prems" lt obtain c s1 where c: "fetch i = Some c" and s1: "store i c s = Some s1"
    by (subst (asm) copystr.simps) (auto split: option.splits)
  show ?case
  proof (cases "c = 0")
    case True
    with "1.prems" lt c s1 have "n = i + 1" by (subst (asm) copystr.simps) simp
    with lt c True show ?thesis by auto
  next
    case False
    with "1.prems" lt c s1 have "copystr fetch store (i + 1) maxlen stoplen s1 = (Some (Inr n), s')"
      by (subst (asm) copystr.simps) simp
    note IH = "1.IH" [OF lt c s1 False this]
    have "\<exists>c. fetch j = Some c \<and> c \<noteq> 0" if "i \<le> j" "j < n - 1" for j
      using IH that c False by (cases "j = i") auto
    with IH show ?thesis by auto
  qed
qed

lemma copystr_complete:
  assumes "i \<le> k" "k < maxlen" "k < stoplen" "fetch k = Some 0"
    and "\<And>j. i \<le> j \<Longrightarrow> j < k \<Longrightarrow> \<exists>c. fetch j = Some c \<and> c \<noteq> 0"
    and "\<And>j c s. store j c s \<noteq> None"
  shows "\<exists>s'. copystr fetch store i maxlen stoplen s = (Some (Inr (k + 1)), s')"
  using assms
proof (induction fetch store i maxlen stoplen s rule: copystr.induct)
  case (1 fetch store i maxlen stoplen s)
  have lt: "i < maxlen \<and> i < stoplen" using "1.prems"(1-3) by simp
  show ?case
  proof (cases "i = k")
    case True
    obtain s1 where "store i 0 s = Some s1" using "1.prems"(6) by blast
    with True lt "1.prems"(4) show ?thesis by (subst copystr.simps) simp
  next
    case False
    then have ik: "i < k" using "1.prems"(1) by simp
    obtain c where c: "fetch i = Some c" "c \<noteq> 0" using "1.prems"(5) [of i] ik by auto
    obtain s1 where s1: "store i c s = Some s1" using "1.prems"(6) by blast
    have "\<exists>s'. copystr fetch store (i + 1) maxlen stoplen s1 = (Some (Inr (k + 1)), s')"
      by (rule "1.IH" [OF lt c(1) s1 c(2)]) (use ik "1.prems" in auto)
    with c s1 lt show ?thesis by (subst copystr.simps) simp
  qed
qed

lemma copystr_kernel_store:
  fixes dest x :: u32
  assumes "copystr fetch (\<lambda>i c km. Some (km(dest + of_nat i := c))) i maxlen stoplen km = (Some (Inr n), km')"
    and "maxlen < 4294967296"
  shows "km' x = (if i \<le> unat (x - dest) \<and> unat (x - dest) < n then the (fetch (unat (x - dest))) else km x)"
  using assms
proof (induction fetch "\<lambda>i (c :: u8) km. Some (km(dest + of_nat i := c))" i maxlen stoplen km
    rule: copystr.induct)
  case (1 fetch i maxlen stoplen km)
  from "1.prems" have lt: "i < maxlen \<and> i < stoplen"
    by (subst (asm) copystr.simps) (auto split: if_splits)
  from "1.prems" lt obtain c where c: "fetch i = Some c"
    by (subst (asm) copystr.simps) (auto split: option.splits)
  have here: "x = dest + of_nat i \<longleftrightarrow> unat (x - dest) = i"
  proof
    assume "x = dest + of_nat i"
    moreover have "i < 4294967296" using lt "1.prems"(2) by linarith
    ultimately show "unat (x - dest) = i" by (simp add: unat_of_nat_u32)
  next
    assume "unat (x - dest) = i"
    moreover have "x - dest = of_nat (unat (x - dest))" by simp
    ultimately have "x - dest = of_nat i" by (simp only:)
    then show "x = dest + of_nat i" by (simp add: algebra_simps)
  qed
  then have upd: "(km(dest + of_nat i := c)) x = (if unat (x - dest) = i then c else km x)"
    by (simp only: fun_upd_apply)
  show ?case
  proof (cases "c = 0")
    case True
    with "1.prems"(1) lt c have "n = i + 1 \<and> km' = km(dest + of_nat i := c)"
      by (subst (asm) copystr.simps) auto
    then show ?thesis using upd c by (simp add: le_less_Suc_eq cong: conj_cong)
  next
    case False
    with "1.prems" lt c have r: "copystr fetch (\<lambda>i c km. Some (km(dest + of_nat i := c))) (i + 1) maxlen stoplen
        (km(dest + of_nat i := c)) = (Some (Inr n), km')"
      by (subst (asm) copystr.simps) simp
    have "i + 1 < n" using copystr_Inr [OF r] by (rule conjunct1)
    moreover note "1.hyps" [OF lt c refl False r "1.prems"(2)]
    ultimately show ?thesis unfolding upd using c by simp
  qed
qed

lemma kwrite_at:
  assumes "length bs < 4294967296"
  shows "kwrite km a bs x = (if unat (x - a) < length bs then bs ! unat (x - a) else km x)"
  using assms by (simp add: kwrite_def)

section \<open>Properties\<close>




text \<open>Witnesses: a five-byte user buffer at \<open>0x400000\<close>, and a string \<open>ab\<close> in it.\<close>

definition demo_memory :: memory where
  "demo_memory = \<lparr>kmem = (\<lambda>x. 7),
     umem = [0x400000 \<mapsto> 97, 0x400001 \<mapsto> 98, 0x400002 \<mapsto> 0, 0x400003 \<mapsto> 5, 0x400004 \<mapsto> 6],
     badfaultfunc = False\<rparr>"




end
