(* ===== verification/Uio.thy ===== *)
theory Uio
  imports Copyinout
begin

text \<open>
  \<^verbatim>\<open>kern/lib/uio.c\<close>: moving data between a kernel buffer and the buffers a \<^verbatim>\<open>struct uio\<close>
  describes. \<^verbatim>\<open>uio_iov\<close> is the array from the current iovec on, so \<^verbatim>\<open>uio_iov++\<close> drops its head;
  looking at an iovec past the end of the array is \<open>None\<close>, as is a panic. The address space the
  calling process runs in is an argument. Kernel and user memory are those of \<open>Copyinout\<close>.
\<close>

section \<open>Data\<close>

datatype uio_rw = UIO_READ | UIO_WRITE

datatype uio_seg = UIO_USERISPACE | UIO_USERSPACE | UIO_SYSSPACE

record iovec =
  iov_base :: u32
  iov_len :: u32

record uio =
  uio_iov :: "iovec list"
  uio_iovcnt :: u32
  uio_offset :: u64
  uio_resid :: u32
  uio_segflg :: uio_seg
  uio_rw :: uio_rw
  uio_space :: "nat option"

definition memmove :: "u32 \<Rightarrow> u32 \<Rightarrow> nat \<Rightarrow> memory \<Rightarrow> memory" where
  "memmove dst src n m = m\<lparr>kmem := kwrite (kmem m) dst (kread (kmem m) src n)\<rparr>"

section \<open>Operations\<close>

text \<open>The transfer of one chunk: the \<^verbatim>\<open>switch\<close> on \<^verbatim>\<open>uio_segflg\<close>.\<close>

definition uio_chunk :: "uio_seg \<Rightarrow> uio_rw \<Rightarrow> u32 \<Rightarrow> u32 \<Rightarrow> u32 \<Rightarrow> memory \<Rightarrow> (errno + unit) \<times> memory" where
  "uio_chunk seg rw ptr base sz m = (case seg of
      UIO_SYSSPACE \<Rightarrow>
        (Inr (), if rw = UIO_READ then memmove base ptr (unat sz) m
                 else memmove ptr base (unat sz) m)
    | _ \<Rightarrow> if rw = UIO_READ then copyout ptr base sz m else copyin base ptr sz m)"

function uiomove_loop :: "u32 \<Rightarrow> u32 \<Rightarrow> uio \<Rightarrow> memory \<Rightarrow> ((errno + unit) \<times> uio \<times> memory) option" where
  "uiomove_loop ptr n u m = (
     if n = 0 \<or> uio_resid u = 0 then Some (Inr (), u, m)
     else (case uio_iov u of
        [] \<Rightarrow> None
      | iov # rest \<Rightarrow>
          let sz = min (iov_len iov) n in
          if sz = 0 then
            (let u1 = u\<lparr>uio_iov := rest, uio_iovcnt := uio_iovcnt u - 1\<rparr> in
             if uio_iovcnt u1 = 0 then None else uiomove_loop ptr n u1 m)
          else (case uio_chunk (uio_segflg u) (uio_rw u) ptr (iov_base iov) sz m of
              (Inl e, m1) \<Rightarrow> Some (Inl e, u, m1)
            | (Inr _, m1) \<Rightarrow>
                uiomove_loop (ptr + sz) (n - sz)
                  (u\<lparr>uio_iov := iov\<lparr>iov_base := iov_base iov + sz, iov_len := iov_len iov - sz\<rparr> # rest,
                     uio_resid := uio_resid u - sz,
                     uio_offset := uio_offset u + ucast sz\<rparr>) m1)))"
  by pat_completeness auto
termination
proof (relation "measure (\<lambda>(ptr, n, u, m). unat n + length (uio_iov u))", goal_cases)
  case (3 ptr n u m iov rest sz)
  then have "sz \<le> n" "0 < unat sz" by (auto simp: unat_gt_0)
  then show ?case using 3 by (auto simp: unat_sub word_le_nat_alt)
qed auto

declare uiomove_loop.simps [simp del]

definition uiomove :: "nat option \<Rightarrow> u32 \<Rightarrow> u32 \<Rightarrow> uio \<Rightarrow> memory \<Rightarrow> ((errno + unit) \<times> uio \<times> memory) option" where
  "uiomove curas ptr n u m = do {
     _ \<leftarrow> (if uio_segflg u = UIO_SYSSPACE then kassert (uio_space u = None)
          else kassert (uio_space u = curas));
     uiomove_loop ptr n u m }"

function uiomovezeros_loop ::
  "nat option \<Rightarrow> u32 \<Rightarrow> u32 \<Rightarrow> uio \<Rightarrow> memory \<Rightarrow> ((errno + unit) \<times> uio \<times> memory) option" where
  "uiomovezeros_loop curas zeros n u m = (
     if n = 0 then Some (Inr (), u, m)
     else let amt = min 16 n in
       (case uiomove curas zeros amt u m of
          None \<Rightarrow> None
        | Some (Inl e, u1, m1) \<Rightarrow> Some (Inl e, u1, m1)
        | Some (Inr _, u1, m1) \<Rightarrow> uiomovezeros_loop curas zeros (n - amt) u1 m1))"
  by pat_completeness auto
termination
proof (relation "measure (\<lambda>(a, z, n, u, m). unat n)", goal_cases)
  case (2 curas zeros n u m amt)
  then have "amt \<le> n" "0 < unat amt" by (auto simp: unat_gt_0 min_def)
  then show ?case by (simp add: unat_sub word_le_nat_alt)
qed auto

declare uiomovezeros_loop.simps [simp del]

text \<open>\<^verbatim>\<open>zeros\<close> is the address of the static sixteen-byte buffer.\<close>

definition uiomovezeros ::
  "nat option \<Rightarrow> u32 \<Rightarrow> u32 \<Rightarrow> uio \<Rightarrow> memory \<Rightarrow> ((errno + unit) \<times> uio \<times> memory) option" where
  "uiomovezeros curas zeros n u m = do {
     _ \<leftarrow> kassert (uio_rw u = UIO_READ);
     uiomovezeros_loop curas zeros n u m }"

definition uio_kinit :: "u32 \<Rightarrow> u32 \<Rightarrow> u64 \<Rightarrow> uio_rw \<Rightarrow> uio" where
  "uio_kinit kbuf len pos rw = \<lparr>
     uio_iov = [\<lparr>iov_base = kbuf, iov_len = len\<rparr>], uio_iovcnt = 1, uio_offset = pos, uio_resid = len,
     uio_segflg = UIO_SYSSPACE, uio_rw = rw, uio_space = None\<rparr>"

section \<open>Well-formed requests\<close>

text \<open>What \<^verbatim>\<open>uio.h\<close> asks of the caller: \<^verbatim>\<open>uio_iovcnt\<close> counts the buffers and \<^verbatim>\<open>uio_resid\<close> is their
  total length.\<close>

definition iov_total :: "iovec list \<Rightarrow> nat" where
  "iov_total vs = (\<Sum>v\<leftarrow>vs. unat (iov_len v))"

definition uio_ok :: "uio \<Rightarrow> bool" where
  "uio_ok u \<longleftrightarrow> unat (uio_iovcnt u) = length (uio_iov u) \<and> unat (uio_resid u) = iov_total (uio_iov u)"

text \<open>The memory a transfer into kernel buffers should leave: the bytes dealt out to the buffers in
  order.\<close>

fun scatter :: "(u32 \<Rightarrow> u8) \<Rightarrow> iovec list \<Rightarrow> u8 list \<Rightarrow> (u32 \<Rightarrow> u8)" where
  "scatter km [] bs = km"
| "scatter km (v # vs) bs =
     scatter (kwrite km (iov_base v) (take (unat (iov_len v)) bs)) vs (drop (unat (iov_len v)) bs)"

section \<open>Lemmas\<close>

lemma iov_total_simps [simp]:
  "iov_total [] = 0" "iov_total (v # vs) = unat (iov_len v) + iov_total vs"
  by (simp_all add: iov_total_def)

lemma uio_ok_next:
  assumes "uio_ok u" "uio_iov u = v # vs" "iov_len v = 0" "uio_resid u \<noteq> 0"
  shows "uio_iovcnt u - 1 \<noteq> 0" "uio_ok (u\<lparr>uio_iov := vs, uio_iovcnt := uio_iovcnt u - 1\<rparr>)"
proof -
  have cnt: "unat (uio_iovcnt u) = Suc (length vs)" and tot: "unat (uio_resid u) = iov_total vs"
    using assms(1-3) by (auto simp: uio_ok_def)
  then have "unat (uio_iovcnt u - 1) = length vs" by (simp add: unat_sub_if')
  moreover have "vs \<noteq> []" using tot assms(4) by (auto simp: unat_eq_zero)
  ultimately show "uio_iovcnt u - 1 \<noteq> 0" by auto
  show "uio_ok (u\<lparr>uio_iov := vs, uio_iovcnt := uio_iovcnt u - 1\<rparr>)"
    using tot \<open>unat (uio_iovcnt u - 1) = length vs\<close> by (simp add: uio_ok_def)
qed

lemma uio_ok_nonempty: "uio_ok u \<Longrightarrow> uio_resid u \<noteq> 0 \<Longrightarrow> uio_iov u \<noteq> []"
  by (auto simp: uio_ok_def unat_eq_zero)

definition uio_advance :: "uio \<Rightarrow> iovec \<Rightarrow> iovec list \<Rightarrow> u32 \<Rightarrow> uio" where
  "uio_advance u v vs sz = u\<lparr>uio_iov := v\<lparr>iov_base := iov_base v + sz, iov_len := iov_len v - sz\<rparr> # vs,
     uio_resid := uio_resid u - sz, uio_offset := uio_offset u + ucast sz\<rparr>"

lemma uio_advance_ok:
  assumes "uio_ok u" "uio_iov u = v # vs" "sz \<le> iov_len v"
  shows "uio_ok (uio_advance u v vs sz)" "unat (uio_resid u - sz) = unat (uio_resid u) - unat sz"
    "unat sz \<le> unat (uio_resid u)"
proof -
  have le: "unat sz \<le> unat (iov_len v)" using assms(3) by (simp add: word_le_nat_alt)
  moreover have r: "unat (uio_resid u) = unat (iov_len v) + iov_total vs"
    using assms by (simp add: uio_ok_def)
  ultimately show le': "unat sz \<le> unat (uio_resid u)" by simp
  then show s: "unat (uio_resid u - sz) = unat (uio_resid u) - unat sz"
    by (simp add: unat_sub word_le_nat_alt)
  show "uio_ok (uio_advance u v vs sz)"
    using assms le r s by (simp add: uio_ok_def uio_advance_def unat_sub word_le_nat_alt)
qed

text \<open>The three ways round the loop on a well-formed request.\<close>

lemma uiomove_loop_done: "n = 0 \<or> uio_resid u = 0 \<Longrightarrow> uiomove_loop ptr n u m = Some (Inr (), u, m)"
  by (simp add: uiomove_loop.simps)

lemma uiomove_loop_next:
  assumes "uio_ok u" "uio_iov u = v # vs" "iov_len v = 0" "uio_resid u \<noteq> 0" "n \<noteq> 0"
  shows "uiomove_loop ptr n u m = uiomove_loop ptr n (u\<lparr>uio_iov := vs, uio_iovcnt := uio_iovcnt u - 1\<rparr>) m"
  using assms uio_ok_next(1) [OF assms(1-4)] by (subst uiomove_loop.simps) simp

lemma uiomove_loop_chunk:
  assumes "uio_iov u = v # vs" "iov_len v \<noteq> 0" "uio_resid u \<noteq> 0" "n \<noteq> 0" "sz = min (iov_len v) n"
  shows "uiomove_loop ptr n u m =
     (case uio_chunk (uio_segflg u) (uio_rw u) ptr (iov_base v) sz m of
        (Inl e, m1) \<Rightarrow> Some (Inl e, u, m1)
      | (Inr _, m1) \<Rightarrow> uiomove_loop (ptr + sz) (n - sz) (uio_advance u v vs sz) m1)"
proof -
  have "min (iov_len v) n \<noteq> 0" using assms by (simp add: min_def)
  then show ?thesis
    unfolding assms(5) uio_advance_def using assms(1-4) by (subst uiomove_loop.simps) (simp add: Let_def)
qed

text \<open>Induction along the loop of a well-formed request.\<close>

lemma uiomove_loop_induct [consumes 1, case_names fin skip chunk]:
  assumes "uio_ok u"
    and fin: "\<And>ptr n u m. uio_ok u \<Longrightarrow> n = 0 \<or> uio_resid u = 0 \<Longrightarrow> P ptr n u m"
    and skip: "\<And>ptr n u m v vs. uio_ok u \<Longrightarrow> uio_iov u = v # vs \<Longrightarrow> iov_len v = 0 \<Longrightarrow> uio_resid u \<noteq> 0 \<Longrightarrow> n \<noteq> 0
       \<Longrightarrow> P ptr n (u\<lparr>uio_iov := vs, uio_iovcnt := uio_iovcnt u - 1\<rparr>) m \<Longrightarrow> P ptr n u m"
    and chunk: "\<And>ptr n u m v vs sz. uio_ok u \<Longrightarrow> uio_iov u = v # vs \<Longrightarrow> iov_len v \<noteq> 0 \<Longrightarrow> uio_resid u \<noteq> 0 \<Longrightarrow> n \<noteq> 0
       \<Longrightarrow> sz = min (iov_len v) n
       \<Longrightarrow> (\<And>m1. uio_chunk (uio_segflg u) (uio_rw u) ptr (iov_base v) sz m = (Inr (), m1)
             \<Longrightarrow> P (ptr + sz) (n - sz) (uio_advance u v vs sz) m1)
       \<Longrightarrow> P ptr n u m"
  shows "P ptr n u m"
  using assms(1)
proof (induction ptr n u m rule: uiomove_loop.induct)
  case (1 ptr n u m)
  show ?case
  proof (cases "n = 0 \<or> uio_resid u = 0")
    case True
    with fin "1.prems" show ?thesis by blast
  next
    case False
    then obtain v vs where v: "uio_iov u = v # vs"
      using uio_ok_nonempty "1.prems" by (cases "uio_iov u") auto
    show ?thesis
    proof (cases "iov_len v = 0")
      case True
      have ne: "uio_resid u \<noteq> 0" using False by simp
      note nx = uio_ok_next [OF "1.prems" v True ne]
      have "P ptr n (u\<lparr>uio_iov := vs, uio_iovcnt := uio_iovcnt u - 1\<rparr>) m"
        by (rule "1.IH"(1) [OF False v refl _ refl _ nx(2)]) (use True nx(1) in auto)
      then show ?thesis using skip "1.prems" v True False by blast
    next
      case ne: False
      let ?sz = "min (iov_len v) n"
      have sz: "?sz \<noteq> 0" using False ne by (simp add: min_def)
      have "P (ptr + ?sz) (n - ?sz) (uio_advance u v vs ?sz) m1"
        if "uio_chunk (uio_segflg u) (uio_rw u) ptr (iov_base v) ?sz m = (Inr (), m1)" for m1
        using "1.IH"(2) [OF False v refl sz that [symmetric] refl]
          uio_advance_ok(1) [OF "1.prems" v, of ?sz] by (simp add: uio_advance_def)
      then show ?thesis using chunk "1.prems" v ne False by blast
    qed
  qed
qed

definition uio_progress :: "uio \<Rightarrow> nat \<Rightarrow> uio \<Rightarrow> bool" where
  "uio_progress u k u' \<longleftrightarrow> uio_ok u'
     \<and> unat (uio_resid u) = unat (uio_resid u') + k
     \<and> uio_offset u' = uio_offset u + of_nat k
     \<and> uio_segflg u' = uio_segflg u \<and> uio_rw u' = uio_rw u \<and> uio_space u' = uio_space u"

lemma uio_progress_advance:
  assumes "uio_ok u" "uio_iov u = v # vs" "sz \<le> iov_len v" "uio_progress (uio_advance u v vs sz) k u'"
  shows "uio_progress u (k + unat sz) u'"
proof -
  have c: "ucast sz = (of_nat (unat sz) :: u64)" by simp
  have "uio_ok u'" "uio_segflg u' = uio_segflg u" "uio_rw u' = uio_rw u" "uio_space u' = uio_space u"
    and r: "unat (uio_resid u - sz) = unat (uio_resid u') + k"
    and o: "uio_offset u' = uio_offset u + of_nat (unat sz) + of_nat k"
    using assms(4) unfolding uio_progress_def uio_advance_def c by auto
  moreover have "unat (uio_resid u) = unat (uio_resid u') + (k + unat sz)"
    using r uio_advance_ok(2,3) [OF assms(1-3)] by linarith
  moreover have "uio_offset u' = uio_offset u + of_nat (k + unat sz)"
    unfolding o of_nat_add by (simp only: ac_simps)
  ultimately show ?thesis unfolding uio_progress_def by blast
qed

lemma uiomove_loop_accounts:
  assumes "uio_ok u"
  shows "\<exists>r u' m' k. uiomove_loop ptr n u m = Some (r, u', m') \<and> uio_progress u k u' \<and> k \<le> unat n
    \<and> (r = Inr () \<longrightarrow> k = min (unat n) (unat (uio_resid u)))"
  using assms
proof (induction ptr n u m rule: uiomove_loop_induct)
  case (fin ptr n u m)
  then show ?case
    by (intro exI [of _ "Inr ()"] exI [of _ u] exI [of _ m] exI [of _ 0])
      (auto simp: uiomove_loop_done uio_progress_def)
next
  case (skip ptr n u m v vs)
  then show ?case by (simp add: uiomove_loop_next uio_progress_def)
next
  case (chunk ptr n u m v vs sz)
  have le: "sz \<le> iov_len v" "sz \<le> n" using chunk(6) by simp_all
  note step = uiomove_loop_chunk [OF chunk(2-6)]
  show ?case
  proof (cases "uio_chunk (uio_segflg u) (uio_rw u) ptr (iov_base v) sz m")
    case (Pair q m1)
    show ?thesis
    proof (cases q)
      case (Inl e)
      with Pair step chunk(1) show ?thesis
        by (intro exI [of _ "Inl e"] exI [of _ u] exI [of _ m1] exI [of _ 0]) (simp add: uio_progress_def)
    next
      case (Inr x)
      with Pair have "uio_chunk (uio_segflg u) (uio_rw u) ptr (iov_base v) sz m = (Inr (), m1)" by simp
      from chunk.IH [OF this] obtain r u' m' k where
        run: "uiomove_loop (ptr + sz) (n - sz) (uio_advance u v vs sz) m1 = Some (r, u', m')"
        and k: "uio_progress (uio_advance u v vs sz) k u'" "k \<le> unat (n - sz)"
          "r = Inr () \<Longrightarrow> k = min (unat (n - sz)) (unat (uio_resid (uio_advance u v vs sz)))"
        by blast
      note ok = uio_advance_ok [OF chunk(1,2) le(1)]
      have n: "unat (n - sz) = unat n - unat sz" "unat sz \<le> unat n"
        using le by (simp_all add: unat_sub word_le_nat_alt)
      have "r = Inr () \<longrightarrow> k + unat sz = min (unat n) (unat (uio_resid u))"
        using k(3) ok(2,3) n by (auto simp: uio_advance_def)
      moreover have "uio_progress u (k + unat sz) u'"
        by (rule uio_progress_advance [OF chunk(1,2) le(1) k(1)])
      ultimately show ?thesis
        using step Pair Inr run k(2) n by (intro exI [of _ r] exI [of _ u'] exI [of _ m'] exI [of _ "k + unat sz"]) simp
    qed
  qed
qed

lemma scatter_Nil [simp]: "scatter km vs [] = km"
  by (induction vs arbitrary: km) auto

lemma scatter_advance:
  assumes "unat sz = length xs" "sz \<le> iov_len v" "unat sz = unat (iov_len v) \<or> ys = []"
  shows "scatter (kwrite km (iov_base v) xs) (v\<lparr>iov_base := iov_base v + sz, iov_len := iov_len v - sz\<rparr> # vs) ys
    = scatter km (v # vs) (xs @ ys)"
  using assms by (auto simp: unat_sub word_le_nat_alt)

definition apart :: "u32 \<Rightarrow> nat \<Rightarrow> iovec list \<Rightarrow> bool" where
  "apart ptr n vs \<longleftrightarrow> (\<forall>v\<in>set vs. disjoint_ranges ptr n (iov_base v) (unat (iov_len v)))"

lemma disjoint_ranges_shift:
  assumes "disjoint_ranges a m b n" "k + i \<le> m"
  shows "disjoint_ranges (a + of_nat k) i b n"
proof (unfold disjoint_ranges_def, intro allI impI)
  fix j assume "j < i"
  then have "k + j < m" using assms(2) by simp
  with assms(1) have "n \<le> unat (a + of_nat (k + j) - b)" unfolding disjoint_ranges_def by blast
  then show "n \<le> unat (a + of_nat k + of_nat j - b)" by (simp add: add.assoc)
qed

lemma disjoint_ranges_both:
  assumes "disjoint_ranges a m b n" "i \<le> m" "j \<le> n"
  shows "disjoint_ranges (a + c) i (b + c) j"
proof (unfold disjoint_ranges_def, intro allI impI)
  fix k assume "k < i"
  then have "k < m" using assms(2) by simp
  with assms(1) have "n \<le> unat (a + of_nat k - b)" unfolding disjoint_ranges_def by blast
  then have "j \<le> unat (a + of_nat k - b)" using assms(3) by simp
  moreover have "a + c + of_nat k - (b + c) = a + of_nat k - b" by simp
  ultimately show "j \<le> unat (a + c + of_nat k - (b + c))" by (simp only:)
qed

lemma apart_advance:
  assumes "apart ptr (unat n) (v # vs)" "sz \<le> n" "sz \<le> iov_len v"
  shows "apart (ptr + sz) (unat (n - sz)) (v\<lparr>iov_base := iov_base v + sz, iov_len := iov_len v - sz\<rparr> # vs)"
proof -
  have u: "unat (n - sz) = unat n - unat sz" "unat sz \<le> unat n" "unat (iov_len v - sz) \<le> unat (iov_len v)"
    using assms(2,3) by (simp_all add: unat_sub word_le_nat_alt)
  have "disjoint_ranges (ptr + sz) (unat (n - sz)) (iov_base v + sz) (unat (iov_len v - sz))"
    using assms(1) u by (intro disjoint_ranges_both [of ptr "unat n" _ "unat (iov_len v)"]) (auto simp: apart_def)
  moreover have "disjoint_ranges (ptr + sz) (unat (n - sz)) (iov_base w) (unat (iov_len w))" if "w \<in> set vs" for w
    using disjoint_ranges_shift [of ptr "unat n" "iov_base w" "unat (iov_len w)" "unat sz" "unat n - unat sz"]
      assms(1) u that by (simp add: apart_def)
  ultimately show ?thesis by (simp add: apart_def)
qed

text \<open>A transfer into kernel buffers deals the source bytes out in order.\<close>

lemma uiomove_loop_scatter:
  assumes "uio_ok u" "uio_segflg u = UIO_SYSSPACE" "uio_rw u = UIO_READ" "apart ptr (unat n) (uio_iov u)"
  shows "\<exists>u'. uiomove_loop ptr n u m = Some (Inr (), u',
      m\<lparr>kmem := scatter (kmem m) (uio_iov u) (kread (kmem m) ptr (min (unat n) (unat (uio_resid u))))\<rparr>)"
  using assms
proof (induction ptr n u m rule: uiomove_loop_induct)
  case (fin ptr n u m)
  then show ?case by (auto simp: uiomove_loop_done)
next
  case (skip ptr n u m v vs)
  have "apart ptr (unat n) vs" using skip.prems(3) skip(2) by (simp add: apart_def)
  with skip show ?case by (simp add: uiomove_loop_next)
next
  case (chunk ptr n u m v vs sz)
  have le: "sz \<le> iov_len v" "sz \<le> n" using chunk(6) by simp_all
  have us: "unat sz = min (unat (iov_len v)) (unat n)" using chunk(6) by (simp add: min_def word_le_nat_alt)
  note ok = uio_advance_ok [OF chunk(1,2) le(1)]
  have n: "unat (n - sz) = unat n - unat sz" "unat sz \<le> unat n"
    using le by (simp_all add: unat_sub word_le_nat_alt)
  let ?u = "uio_advance u v vs sz"
  let ?m = "memmove (iov_base v) ptr (unat sz) m"
  let ?km = "kwrite (kmem m) (iov_base v) (kread (kmem m) ptr (unat sz))"
  have ch: "uio_chunk (uio_segflg u) (uio_rw u) ptr (iov_base v) sz m = (Inr (), ?m)"
    using chunk.prems by (simp add: uio_chunk_def)
  have ap: "apart (ptr + sz) (unat (n - sz)) (uio_iov ?u)"
    using apart_advance [of ptr n v vs sz] chunk.prems(3) chunk(2) le by (simp add: uio_advance_def)
  define k where "k = min (unat (n - sz)) (unat (uio_resid ?u))"
  from chunk.IH [OF ch _ _ ap] chunk.prems obtain u' where
    u': "uiomove_loop (ptr + sz) (n - sz) ?u ?m =
      Some (Inr (), u', ?m\<lparr>kmem := scatter (kmem ?m) (uio_iov ?u) (kread (kmem ?m) (ptr + sz) k)\<rparr>)"
    unfolding k_def by (auto simp: uio_advance_def)
  have total: "min (unat n) (unat (uio_resid u)) = unat sz + k"
    unfolding k_def using ok(2,3) n by (auto simp: uio_advance_def)
  have "disjoint_ranges ptr (unat n) (iov_base v) (unat (iov_len v))"
    using chunk.prems(3) chunk(2) by (simp add: apart_def)
  then have "disjoint_ranges (ptr + of_nat (unat sz)) k (iov_base v) (unat (iov_len v))"
    by (rule disjoint_ranges_shift) (use n in \<open>simp add: k_def\<close>)
  then have "disjoint_ranges (ptr + sz) k (iov_base v) (unat (iov_len v))" by simp
  then have "disjoint_ranges (ptr + sz) k (iov_base v) (unat sz)"
    using disjoint_ranges_both [of "ptr + sz" k "iov_base v" "unat (iov_len v)" k "unat sz" 0] us by simp
  then have same: "kread ?km (ptr + sz) k = kread (kmem m) (ptr + sz) k"
    by (intro kread_kwrite_other) simp
  have iov: "uio_iov ?u = v\<lparr>iov_base := iov_base v + sz, iov_len := iov_len v - sz\<rparr> # vs"
    by (simp add: uio_advance_def)
  have last: "unat sz = unat (iov_len v) \<or> kread (kmem m) (ptr + sz) k = []"
    by (cases "unat (iov_len v) \<le> unat n") (simp_all add: k_def us n)
  have "scatter ?km (uio_iov ?u) (kread ?km (ptr + sz) k) =
      scatter (kmem m) (v # vs) (kread (kmem m) ptr (unat sz) @ kread (kmem m) (ptr + sz) k)"
    unfolding same iov using le(1) last by (intro scatter_advance) simp_all
  also have "kread (kmem m) ptr (unat sz) @ kread (kmem m) (ptr + sz) k = kread (kmem m) ptr (unat sz + k)"
    by (simp add: kread_append)
  finally show ?case
    using u' uiomove_loop_chunk [OF chunk(2-6), of ptr m] ch chunk(2) total by (simp add: memmove_def)
qed

lemma uiomove_loop_of:
  assumes "uio_segflg u = UIO_SYSSPACE \<longrightarrow> uio_space u = None"
    and "uio_segflg u \<noteq> UIO_SYSSPACE \<longrightarrow> uio_space u = curas"
  shows "uiomove curas ptr n u m = uiomove_loop ptr n u m"
  using assms by (simp add: uiomove_def)

section \<open>Properties\<close>

text \<open>C26. On a request set up as \<^verbatim>\<open>uio.h\<close> asks, \<^verbatim>\<open>uiomove\<close> always returns (no panic, no access past
  the iovec array), whatever mixture of empty and non-empty buffers it is given. Some number \<open>k \<le> n\<close> of
  bytes is accounted for: \<^verbatim>\<open>uio_resid\<close> goes down by \<open>k\<close>, \<^verbatim>\<open>uio_offset\<close> goes up by \<open>k\<close>, and the request
  is still well formed, with the same direction, segment and address space. On success \<open>k\<close> is all that
  was asked for or all that was left.\<close>
theorem uiomove_accounts:
  assumes "uio_ok u"
    and "uio_segflg u = UIO_SYSSPACE \<longrightarrow> uio_space u = None"
    and "uio_segflg u \<noteq> UIO_SYSSPACE \<longrightarrow> uio_space u = curas"
  shows "\<exists>r u' m' k. uiomove curas ptr n u m = Some (r, u', m') \<and> k \<le> unat n
    \<and> uio_ok u' \<and> unat (uio_resid u) = unat (uio_resid u') + k
    \<and> uio_offset u' = uio_offset u + of_nat k
    \<and> uio_segflg u' = uio_segflg u \<and> uio_rw u' = uio_rw u \<and> uio_space u' = uio_space u
    \<and> (r = Inr () \<longrightarrow> k = min (unat n) (unat (uio_resid u)))"
  using uiomove_loop_accounts [OF assms(1), of ptr n m]
  unfolding uiomove_loop_of [OF assms(2,3)] uio_progress_def by blast

definition demo_uio :: uio where
  "demo_uio = \<lparr>uio_iov = [\<lparr>iov_base = 0x80002000, iov_len = 0\<rparr>, \<lparr>iov_base = 0x80002000, iov_len = 2\<rparr>,
       \<lparr>iov_base = 0x80003000, iov_len = 3\<rparr>], uio_iovcnt = 3, uio_offset = 10, uio_resid = 5,
     uio_segflg = UIO_SYSSPACE, uio_rw = UIO_READ, uio_space = None\<rparr>"

lemma demo_uio_ok: "uio_ok demo_uio" "uio_segflg demo_uio = UIO_SYSSPACE" "uio_rw demo_uio = UIO_READ"
    "uio_space demo_uio = None" "uio_resid demo_uio = 5" "uio_offset demo_uio = 10"
  by (simp_all add: demo_uio_def uio_ok_def)

theorem uiomove_accounts_witness:
  "\<exists>r u' m' k. uiomove None 0x80001000 4 demo_uio demo_memory = Some (r, u', m') \<and> k \<le> 4
     \<and> uio_ok u' \<and> 5 = unat (uio_resid u') + k \<and> uio_offset u' = 10 + of_nat k"
proof -
  have "uio_segflg demo_uio = UIO_SYSSPACE \<longrightarrow> uio_space demo_uio = None"
    "uio_segflg demo_uio \<noteq> UIO_SYSSPACE \<longrightarrow> uio_space demo_uio = None"
    by (simp_all add: demo_uio_ok)
  from uiomove_accounts [OF demo_uio_ok(1) this, of "0x80001000" 4 demo_memory] show ?thesis
    by (auto simp: demo_uio_ok)
qed

text \<open>C27. Reading into kernel buffers delivers the data: if the source buffer does not overlap them,
  \<^verbatim>\<open>uiomove\<close> succeeds and kernel memory becomes exactly the source bytes dealt out to the buffers in
  order (nothing else changes, user memory included).\<close>
theorem uiomove_read_scatters:
  assumes "uio_ok u" and "uio_segflg u = UIO_SYSSPACE" and "uio_rw u = UIO_READ" and "uio_space u = None"
    and "apart ptr (unat n) (uio_iov u)"
  shows "\<exists>u'. uiomove curas ptr n u m = Some (Inr (), u', m\<lparr>kmem :=
      scatter (kmem m) (uio_iov u) (kread (kmem m) ptr (min (unat n) (unat (uio_resid u))))\<rparr>)"
  using uiomove_loop_scatter [OF assms(1-3,5)] uiomove_loop_of [of u curas] assms(2,4) by simp

theorem uiomove_read_scatters_witness:
  "\<exists>u'. uiomove None 0x80001000 3 demo_uio demo_memory = Some (Inr (), u', demo_memory\<lparr>kmem :=
      scatter (kmem demo_memory) (uio_iov demo_uio) (kread (kmem demo_memory) 0x80001000 3)\<rparr>)"
proof -
  have "apart 0x80001000 (unat (3 :: u32)) (uio_iov demo_uio)"
    by (simp add: apart_def disjoint_ranges_def demo_uio_def All_less_3)
  from uiomove_read_scatters [OF demo_uio_ok(1-4) this] show ?thesis by (simp add: demo_uio_ok)
qed

text \<open>Nothing caps a chunk by \<^verbatim>\<open>uio_resid\<close>: with a residue below the buffer length the counter wraps and
  more bytes than the residue are moved.\<close>

lemma uiomove_resid_underflow:
  "map_option (\<lambda>(r, u', m'). (r, uio_resid u'))
     (uiomove None 0x80001000 4 (uio_kinit 0x80002000 4 0 UIO_READ \<lparr>uio_resid := 1\<rparr>) demo_memory)
   = Some (Inr (), 0xfffffffd)"
proof -
  define u where "u = uio_kinit 0x80002000 4 0 UIO_READ \<lparr>uio_resid := 1\<rparr>"
  have u: "uio_iov u = [\<lparr>iov_base = 0x80002000, iov_len = 4\<rparr>]" "uio_resid u = 1"
    "uio_segflg u = UIO_SYSSPACE" "uio_rw u = UIO_READ" "uio_space u = None"
    by (simp_all add: u_def uio_kinit_def)
  have "uiomove None 0x80001000 4 u demo_memory = uiomove_loop 0x80001000 4 u demo_memory"
    by (simp add: uiomove_loop_of u)
  also have "\<dots> = Some (Inr (), uio_advance u \<lparr>iov_base = 0x80002000, iov_len = 4\<rparr> [] 4,
      memmove 0x80002000 0x80001000 4 demo_memory)"
    using uiomove_loop_chunk [OF u(1), of 4 4 "0x80001000" demo_memory]
    by (simp add: u uio_chunk_def uiomove_loop_done)
  finally show ?thesis by (simp add: u_def [symmetric] uio_advance_def u)
qed

end
