(* ===== verification/Bitmap.thy ===== *)
theory Bitmap
  imports Prelude
begin

text \<open>
  \<^verbatim>\<open>kern/lib/bitmap.c\<close>: the fixed-size bit array used for storage management. The swap
  code (\<^verbatim>\<open>kern/vm/vm.c\<close>) and the SFS block allocator (\<^verbatim>\<open>kern/fs/sfs/sfs_balloc.c\<close>) are its
  clients. The interface they rely on is the locale \<open>block_map\<close>; the bitmap is its
  implementation, and the laws of the clients are proved once in the locale.
\<close>

section \<open>The interface of a block allocator\<close>

text \<open>\<open>used b\<close> is the abstract state, the set of allocated block numbers below \<open>cap b\<close>.\<close>

locale block_map =
  fixes invar :: "'b \<Rightarrow> bool"
    and used :: "'b \<Rightarrow> nat set"
    and cap :: "'b \<Rightarrow> nat"
    and alloc :: "'b \<Rightarrow> ((errno + nat) \<times> 'b) option"
    and mark :: "'b \<Rightarrow> nat \<Rightarrow> 'b option"
    and unmark :: "'b \<Rightarrow> nat \<Rightarrow> 'b option"
    and isset :: "'b \<Rightarrow> nat \<Rightarrow> bool option"
  assumes used_cap: "invar b \<Longrightarrow> used b \<subseteq> {..<cap b}"
    and ext: "invar a \<Longrightarrow> invar b \<Longrightarrow> cap a = cap b \<Longrightarrow> used a = used b \<Longrightarrow> a = b"
    and alloc_ok: "invar b \<Longrightarrow> i < cap b \<Longrightarrow> i \<notin> used b \<Longrightarrow> \<forall>j<i. j \<in> used b \<Longrightarrow>
      \<exists>b'. alloc b = Some (Inr i, b') \<and> invar b' \<and> cap b' = cap b \<and> used b' = insert i (used b)"
    and alloc_full: "invar b \<Longrightarrow> {..<cap b} \<subseteq> used b \<Longrightarrow> alloc b = Some (Inl ENOSPC, b)"
    and mark_ok: "invar b \<Longrightarrow> i < cap b \<Longrightarrow> i \<notin> used b \<Longrightarrow>
      \<exists>b'. mark b i = Some b' \<and> invar b' \<and> cap b' = cap b \<and> used b' = insert i (used b)"
    and mark_bad: "invar b \<Longrightarrow> \<not> (i < cap b \<and> i \<notin> used b) \<Longrightarrow> mark b i = None"
    and unmark_ok: "invar b \<Longrightarrow> i \<in> used b \<Longrightarrow>
      \<exists>b'. unmark b i = Some b' \<and> invar b' \<and> cap b' = cap b \<and> used b' = used b - {i}"
    and unmark_bad: "invar b \<Longrightarrow> i \<notin> used b \<Longrightarrow> unmark b i = None"
    and isset_ok: "invar b \<Longrightarrow> i < cap b \<Longrightarrow> isset b i = Some (i \<in> used b)"

fun alloc_times :: "('b \<Rightarrow> ((errno + nat) \<times> 'b) option) \<Rightarrow> nat \<Rightarrow> 'b \<Rightarrow> (nat list \<times> 'b) option" where
  "alloc_times alloc 0 b = Some ([], b)"
| "alloc_times alloc (Suc n) b = (case alloc b of
      Some (Inr i, b') \<Rightarrow> (case alloc_times alloc n b' of Some (is, b'') \<Rightarrow> Some (i # is, b'') | None \<Rightarrow> None)
    | _ \<Rightarrow> None)"

context block_map
begin

lemma used_finite: "invar b \<Longrightarrow> finite (used b)"
  using used_cap finite_subset finite_lessThan by blast

lemma least_free:
  assumes "invar b" and "\<not> {..<cap b} \<subseteq> used b"
  obtains i where "i < cap b" "i \<notin> used b" "\<forall>j<i. j \<in> used b"
proof -
  from assms obtain k where k: "k < cap b" "k \<notin> used b" by auto
  define i where "i = (LEAST i. i \<notin> used b)"
  have "i \<notin> used b" unfolding i_def by (rule LeastI [of _ k]) (rule k(2))
  moreover have "\<forall>j<i. j \<in> used b" unfolding i_def using not_less_Least by blast
  moreover have "i \<le> k" unfolding i_def by (rule Least_le) (rule k(2))
  ultimately show ?thesis using k(1) that [of i] by simp
qed

lemma alloc_total: "invar b \<Longrightarrow> \<exists>r b'. alloc b = Some (r, b') \<and> invar b' \<and> cap b' = cap b"
proof (cases "{..<cap b} \<subseteq> used b")
  case True
  assume "invar b"
  with alloc_full [OF this True] show ?thesis by simp
next
  case False
  assume inv: "invar b"
  then obtain k where "k < cap b" "k \<notin> used b" "\<forall>j<k. j \<in> used b"
    using least_free [OF inv False] by blast
  from alloc_ok [OF inv this] show ?thesis by blast
qed

lemma alloc_Inr:
  assumes "invar b" and "alloc b = Some (Inr i, b')"
  shows "i < cap b" "i \<notin> used b" "\<forall>j<i. j \<in> used b" "invar b'" "cap b' = cap b"
    "used b' = insert i (used b)"
proof -
  have "\<not> {..<cap b} \<subseteq> used b"
    using alloc_full [OF assms(1)] assms(2) by auto
  from least_free [OF assms(1) this] obtain k
    where k: "k < cap b" "k \<notin> used b" "\<forall>j<k. j \<in> used b" by blast
  from alloc_ok [OF assms(1) k] assms(2)
  have eq: "k = i \<and> invar b' \<and> cap b' = cap b \<and> used b' = insert i (used b)" by auto
  with k show "i < cap b" "i \<notin> used b" "\<forall>j<i. j \<in> used b" "invar b'" "cap b' = cap b"
    "used b' = insert i (used b)" by auto
qed

lemma alloc_Inl:
  assumes "invar b" and "alloc b = Some (Inl e, b')"
  shows "e = ENOSPC" "b' = b" "used b = {..<cap b}"
proof -
  have full: "{..<cap b} \<subseteq> used b"
  proof (rule ccontr)
    assume "\<not> {..<cap b} \<subseteq> used b"
    then obtain k where "k < cap b" "k \<notin> used b" "\<forall>j<k. j \<in> used b"
      using least_free [OF assms(1)] by blast
    from alloc_ok [OF assms(1) this] assms(2) show False by auto
  qed
  with alloc_full [OF assms(1)] assms(2) show "e = ENOSPC" "b' = b" by auto
  from full used_cap [OF assms(1)] show "used b = {..<cap b}" by blast
qed

text \<open>Freeing what was just allocated gives the very same map back.\<close>

lemma alloc_unmark:
  assumes "invar b" and "alloc b = Some (Inr i, b')"
  shows "unmark b' i = Some b"
proof -
  note a = alloc_Inr [OF assms]
  from unmark_ok [OF a(4), of i] a obtain b'' where b'':
    "unmark b' i = Some b''" "invar b''" "cap b'' = cap b'" "used b'' = used b' - {i}" by auto
  with a have "b'' = b" by (intro ext) (auto simp: assms(1))
  with b'' show ?thesis by simp
qed

lemma alloc_times_ok:
  assumes "invar b" and "n \<le> cap b - card (used b)"
  shows "\<exists>is b'. alloc_times alloc n b = Some (is, b') \<and> length is = n \<and> distinct is
    \<and> set is \<inter> used b = {} \<and> used b' = used b \<union> set is \<and> invar b' \<and> cap b' = cap b"
  using assms
proof (induction n arbitrary: b)
  case 0
  then show ?case by simp
next
  case (Suc n)
  note inv = Suc.prems(1)
  have c: "card (used b) < cap b" using Suc.prems(2) by simp
  have "\<not> {..<cap b} \<subseteq> used b"
  proof
    assume "{..<cap b} \<subseteq> used b"
    then have "card {..<cap b} \<le> card (used b)" by (rule card_mono [OF used_finite [OF inv]])
    with c show False by simp
  qed
  then obtain k where "k < cap b" "k \<notin> used b" "\<forall>j<k. j \<in> used b"
    using least_free [OF inv] by blast
  from alloc_ok [OF inv this] obtain i b1 where a: "alloc b = Some (Inr i, b1)" by blast
  note i = alloc_Inr [OF inv a]
  have "card (used b1) = Suc (card (used b))" using i used_finite [OF inv] by simp
  then have "n \<le> cap b1 - card (used b1)" using Suc.prems(2) i(5) by simp
  from Suc.IH [OF i(4) this] obtain "is" b' where r:
    "alloc_times alloc n b1 = Some (is, b')" "length is = n" "distinct is"
    "set is \<inter> used b1 = {}" "used b' = used b1 \<union> set is" "invar b'" "cap b' = cap b1" by blast
  have run: "alloc_times alloc (Suc n) b = Some (i # is, b')" using a r(1) by simp
  have "set (i # is) \<inter> used b = {}" "i \<notin> set is" using r(4) i(2,6) by auto
  moreover have "used b' = used b \<union> set (i # is)" using r(5) i(6) by simp
  ultimately show ?case using run r(2,3,6,7) i(5) by simp
qed

end

section \<open>The bitmap\<close>

text \<open>\<^verbatim>\<open>nbits\<close> is an \<^verbatim>\<open>unsigned\<close>; \<^verbatim>\<open>v\<close> the byte vector \<^verbatim>\<open>kmalloc\<close> returned.\<close>

record bitmap =
  nbits :: nat
  bv :: "u8 list"

abbreviation BITS_PER_WORD :: nat where "BITS_PER_WORD \<equiv> 8"
abbreviation WORD_ALLBITS :: u8 where "WORD_ALLBITS \<equiv> 0xff"

definition divroundup8 :: "nat \<Rightarrow> nat" where
  "divroundup8 n = (n + 7) div 8"

text \<open>The loop that marks the leftover bits of the last byte.\<close>

definition set_bits :: "nat list \<Rightarrow> u8 \<Rightarrow> u8" where
  "set_bits js w = fold (\<lambda>j w. w OR push_bit j 1) js w"

definition bitmap_create :: "u32 \<Rightarrow> heap_oracle \<Rightarrow> (bitmap option \<times> heap_oracle) option" where
  "bitmap_create n ms = (
     let words = unat ((n + 7) div 8); (ok1, ms1) = kmalloc_ok ms in
     if \<not> ok1 then Some (None, ms1) else
     let (ok2, ms2) = kmalloc_ok ms1 in
     if \<not> ok2 then Some (None, ms2) else
     let v = replicate words 0 in
     if words > unat n div BITS_PER_WORD then do {
       let ix = words - 1;
       let overbits = unat n - ix * BITS_PER_WORD;
       kassert (unat n div BITS_PER_WORD = words - 1);
       kassert (overbits > 0 \<and> overbits < BITS_PER_WORD);
       Some (Some \<lparr>nbits = unat n, bv = v[ix := set_bits [overbits..<BITS_PER_WORD] (v ! ix)]\<rparr>, ms2)
     } else Some (Some \<lparr>nbits = unat n, bv = v\<rparr>, ms2))"

definition bitmap_getdata :: "bitmap \<Rightarrow> u8 list" where
  "bitmap_getdata b = bv b"

text \<open>The two nested loops of \<^verbatim>\<open>bitmap_alloc\<close>; \<open>bitmap_alloc_from\<close> is the outer one, at byte \<open>ix\<close>.\<close>

function bitmap_alloc_from :: "bitmap \<Rightarrow> nat \<Rightarrow> ((errno + nat) \<times> bitmap) option" where
  "bitmap_alloc_from b ix = (
     if ix < divroundup8 (nbits b) then do {
       w \<leftarrow> rd (bv b) ix;
       if w \<noteq> WORD_ALLBITS then
         (case find (\<lambda>offset. w AND push_bit offset 1 = 0) [0..<BITS_PER_WORD] of
            Some offset \<Rightarrow> do {
              v \<leftarrow> wr (bv b) ix (w OR push_bit offset 1);
              let index = ix * BITS_PER_WORD + offset;
              kassert (index < nbits b);
              Some (Inr index, b\<lparr>bv := v\<rparr>)
            }
          | None \<Rightarrow> None)
       else bitmap_alloc_from b (Suc ix)
     } else Some (Inl ENOSPC, b))"
  by pat_completeness auto
termination
  by (relation "measure (\<lambda>(b, ix). divroundup8 (nbits b) - ix)") simp_all

declare bitmap_alloc_from.simps [simp del]

definition bitmap_alloc :: "bitmap \<Rightarrow> ((errno + nat) \<times> bitmap) option" where
  "bitmap_alloc b = bitmap_alloc_from b 0"

definition bitmap_translate :: "nat \<Rightarrow> nat \<times> u8" where
  "bitmap_translate bitno = (bitno div BITS_PER_WORD, push_bit (bitno mod BITS_PER_WORD) 1)"

definition bitmap_mark :: "bitmap \<Rightarrow> nat \<Rightarrow> bitmap option" where
  "bitmap_mark b index = do {
     kassert (index < nbits b);
     let (ix, mask) = bitmap_translate index;
     w \<leftarrow> rd (bv b) ix;
     kassert (w AND mask = 0);
     v \<leftarrow> wr (bv b) ix (w OR mask);
     Some (b\<lparr>bv := v\<rparr>)
   }"

definition bitmap_unmark :: "bitmap \<Rightarrow> nat \<Rightarrow> bitmap option" where
  "bitmap_unmark b index = do {
     kassert (index < nbits b);
     let (ix, mask) = bitmap_translate index;
     w \<leftarrow> rd (bv b) ix;
     kassert (w AND mask \<noteq> 0);
     v \<leftarrow> wr (bv b) ix (w AND NOT mask);
     Some (b\<lparr>bv := v\<rparr>)
   }"

definition bitmap_isset :: "bitmap \<Rightarrow> nat \<Rightarrow> bool option" where
  "bitmap_isset b index = (
     let (ix, mask) = bitmap_translate index in
     do { w \<leftarrow> rd (bv b) ix; Some (w AND mask \<noteq> 0) })"

section \<open>Invariant and abstraction\<close>

definition bitmap_bit :: "bitmap \<Rightarrow> nat \<Rightarrow> bool" where
  "bitmap_bit b i = bit (bv b ! (i div 8)) (i mod 8)"

definition bitmap_used :: "bitmap \<Rightarrow> nat set" where
  "bitmap_used b = {i. i < nbits b \<and> bitmap_bit b i}"

definition bitmap_ok :: "bitmap \<Rightarrow> bool" where
  "bitmap_ok b \<longleftrightarrow> length (bv b) = divroundup8 (nbits b)
     \<and> (\<forall>i<8 * length (bv b). nbits b \<le> i \<longrightarrow> bitmap_bit b i)"

lemma bitmap_ok_index: "bitmap_ok b \<Longrightarrow> i < nbits b \<Longrightarrow> i div 8 < length (bv b)"
  by (simp add: bitmap_ok_def divroundup8_def divroundup_bound)

lemma bit_set_bits: "bit (set_bits js w) n \<longleftrightarrow> n < 8 \<and> (bit w n \<or> n \<in> set js)"
  unfolding set_bits_def
  by (induction js arbitrary: w) (auto simp: bit_simps dest: bit_imp_le_length)

text \<open>How one byte update changes the bits of the map.\<close>

lemma bitmap_bit_upd:
  assumes "ix < length (bv b)"
  shows "bitmap_bit (b\<lparr>bv := (bv b)[ix := w]\<rparr>) i = (if i div 8 = ix then bit w (i mod 8) else bitmap_bit b i)"
  using assms by (auto simp: bitmap_bit_def)

lemma bitmap_bit_set:
  assumes "i div 8 < length (bv b)"
  shows "bitmap_bit (b\<lparr>bv := (bv b)[i div 8 := bv b ! (i div 8) OR push_bit (i mod 8) 1]\<rparr>) j
    = (j = i \<or> bitmap_bit b j)"
proof -
  have "(j div 8 = i div 8 \<and> j mod 8 = i mod 8) = (j = i)" by (metis div_mult_mod_eq)
  then show ?thesis
    unfolding bitmap_bit_upd [OF assms] by (auto simp: bitmap_bit_def bit_simps)
qed

lemma bitmap_bit_clear:
  assumes "i div 8 < length (bv b)"
  shows "bitmap_bit (b\<lparr>bv := (bv b)[i div 8 := bv b ! (i div 8) AND NOT (push_bit (i mod 8) 1)]\<rparr>) j
    = (j \<noteq> i \<and> bitmap_bit b j)"
proof -
  have "(j div 8 = i div 8 \<and> j mod 8 = i mod 8) = (j = i)" by (metis div_mult_mod_eq)
  then show ?thesis
    unfolding bitmap_bit_upd [OF assms] by (auto simp: bitmap_bit_def bit_simps)
qed

lemma bitmap_eqI:
  assumes "bitmap_ok a" and "bitmap_ok b" and n: "nbits a = nbits b" and u: "bitmap_used a = bitmap_used b"
  shows "a = b"
proof -
  have len: "length (bv a) = length (bv b)" using assms by (simp add: bitmap_ok_def)
  have bits: "bitmap_bit a i = bitmap_bit b i" if "i < 8 * length (bv a)" for i
  proof (cases "i < nbits a")
    case True
    then show ?thesis using u n by (auto simp: bitmap_used_def set_eq_iff)
  next
    case False
    then show ?thesis using assms that len by (simp add: bitmap_ok_def)
  qed
  have "bv a ! k = bv b ! k" if "k < length (bv a)" for k
  proof (rule word_eqI_u8)
    fix m :: nat assume "m < 8"
    then have "8 * k + m < 8 * length (bv a)" "(8 * k + m) div 8 = k" "(8 * k + m) mod 8 = m"
      using that by auto
    with bits [of "8 * k + m"] show "bit (bv a ! k) m = bit (bv b ! k) m"
      by (simp add: bitmap_bit_def)
  qed
  then have "bv a = bv b" using len by (simp add: list_eq_iff_nth_eq)
  with n show ?thesis by simp
qed

section \<open>Correctness of the operations\<close>

lemma full_byte: "(w :: u8) = WORD_ALLBITS \<longleftrightarrow> (\<forall>n<8. bit w n)"
proof -
  have m: "WORD_ALLBITS = mask 8" by (simp add: mask_eq_exp_minus_1)
  show ?thesis unfolding m by (auto simp: bit_mask_iff intro: word_eqI_u8)
qed

lemma bitmap_alloc_from_full:
  assumes "bitmap_ok b" and "\<forall>k. ix \<le> k \<longrightarrow> k < length (bv b) \<longrightarrow> bv b ! k = WORD_ALLBITS"
  shows "bitmap_alloc_from b ix = Some (Inl ENOSPC, b)"
  using assms(2)
proof (induction "length (bv b) - ix" arbitrary: ix)
  case 0
  then show ?case
    using assms(1) by (subst bitmap_alloc_from.simps) (simp add: bitmap_ok_def)
next
  case (Suc n)
  then have lt: "ix < length (bv b)" by simp
  with Suc.prems have w: "rd (bv b) ix = Some WORD_ALLBITS" by simp
  have "bitmap_alloc_from b (Suc ix) = Some (Inl ENOSPC, b)"
    using Suc.hyps(2) Suc.prems by (intro Suc.hyps(1)) auto
  then show ?case
    using assms(1) lt w by (subst bitmap_alloc_from.simps) (simp add: bitmap_ok_def)
qed

lemma bitmap_alloc_from_first:
  assumes ok: "bitmap_ok b" and i: "i < nbits b" "\<not> bitmap_bit b i" "\<forall>j<i. bitmap_bit b j"
    and "ix \<le> i div 8"
  shows "bitmap_alloc_from b ix =
    Some (Inr i, b\<lparr>bv := (bv b)[i div 8 := bv b ! (i div 8) OR push_bit (i mod 8) 1]\<rparr>)"
  using assms(5)
proof (induction "i div 8 - ix" arbitrary: ix)
  case 0
  then have ix: "ix = i div 8" by simp
  have lt: "i div 8 < length (bv b)" by (rule bitmap_ok_index [OF ok i(1)])
  let ?w = "bv b ! (i div 8)"
  have clear: "\<not> bit ?w (i mod 8)" using i(2) by (simp add: bitmap_bit_def)
  moreover have "i mod 8 < 8" by simp
  ultimately have "?w \<noteq> WORD_ALLBITS" unfolding full_byte by blast
  moreover have "bit ?w m" if "m < i mod 8" for m
  proof -
    have "m < 8" using that by simp
    then have "(8 * (i div 8) + m) div 8 = i div 8" "(8 * (i div 8) + m) mod 8 = m" by simp_all
    moreover have "8 * (i div 8) + m < i" using that mult_div_mod_eq [of 8 i] by linarith
    ultimately have "8 * (i div 8) + m < i" "(8 * (i div 8) + m) div 8 = i div 8" "(8 * (i div 8) + m) mod 8 = m"
      by simp_all
    with i(3) show ?thesis by (auto simp: bitmap_bit_def)
  qed
  then have "find (\<lambda>offset. ?w AND push_bit offset 1 = 0) [0..<8] = Some (i mod 8)"
    using clear by (intro find_upt_eq) (auto simp: and_push_bit_eq_0)
  ultimately show ?case
    using ix lt i(1) ok by (subst bitmap_alloc_from.simps) (simp add: bitmap_ok_def)
next
  case (Suc n)
  then have lt: "ix < i div 8" by simp
  have len: "ix < length (bv b)" using lt bitmap_ok_index [OF ok i(1)] by simp
  have "bv b ! ix = WORD_ALLBITS" unfolding full_byte
  proof (intro allI impI)
    fix m :: nat assume "m < 8"
    then have "8 * ix + m < i" "(8 * ix + m) div 8 = ix" "(8 * ix + m) mod 8 = m"
      using lt by auto
    with i(3) show "bit (bv b ! ix) m" by (auto simp: bitmap_bit_def)
  qed
  moreover have "bitmap_alloc_from b (Suc ix) =
    Some (Inr i, b\<lparr>bv := (bv b)[i div 8 := bv b ! (i div 8) OR push_bit (i mod 8) 1]\<rparr>)"
    using Suc.hyps(2) lt by (intro Suc.hyps(1)) simp_all
  ultimately show ?case
    using len ok by (subst bitmap_alloc_from.simps) (simp add: bitmap_ok_def)
qed

text \<open>Setting a clear bit, or clearing a set one, below \<open>nbits\<close> keeps the invariant.\<close>

lemma bitmap_set_ok:
  assumes "bitmap_ok b" and "i < nbits b"
  defines "b' \<equiv> b\<lparr>bv := (bv b)[i div 8 := bv b ! (i div 8) OR push_bit (i mod 8) 1]\<rparr>"
  shows "bitmap_ok b'" "nbits b' = nbits b" "bitmap_used b' = insert i (bitmap_used b)"
proof -
  have bits: "bitmap_bit b' j = (j = i \<or> bitmap_bit b j)" for j
    unfolding b'_def by (rule bitmap_bit_set [OF bitmap_ok_index [OF assms(1,2)]])
  have len: "nbits b' = nbits b" "length (bv b') = length (bv b)" by (simp_all add: b'_def)
  then show "nbits b' = nbits b" by simp
  show "bitmap_ok b'" using assms(1) bits len by (simp add: bitmap_ok_def)
  from len(1) show "bitmap_used b' = insert i (bitmap_used b)"
    using bits assms(2) by (auto simp: bitmap_used_def)
qed

lemma bitmap_clear_ok:
  assumes "bitmap_ok b" and "i < nbits b"
  defines "b' \<equiv> b\<lparr>bv := (bv b)[i div 8 := bv b ! (i div 8) AND NOT (push_bit (i mod 8) 1)]\<rparr>"
  shows "bitmap_ok b'" "nbits b' = nbits b" "bitmap_used b' = bitmap_used b - {i}"
proof -
  have bits: "bitmap_bit b' j = (j \<noteq> i \<and> bitmap_bit b j)" for j
    unfolding b'_def by (rule bitmap_bit_clear [OF bitmap_ok_index [OF assms(1,2)]])
  have len: "nbits b' = nbits b" "length (bv b') = length (bv b)" by (simp_all add: b'_def)
  then show "nbits b' = nbits b" by simp
  show "bitmap_ok b'" using assms(1,2) bits len by (auto simp: bitmap_ok_def)
  from len(1) show "bitmap_used b' = bitmap_used b - {i}"
    using bits by (auto simp: bitmap_used_def)
qed

lemma bitmap_mark_eq:
  assumes "bitmap_ok b"
  shows "bitmap_mark b i = (if i < nbits b \<and> i \<notin> bitmap_used b
    then Some (b\<lparr>bv := (bv b)[i div 8 := bv b ! (i div 8) OR push_bit (i mod 8) 1]\<rparr>) else None)"
  using bitmap_ok_index [OF assms, of i]
  by (cases "i < nbits b"; cases "bitmap_bit b i")
    (simp_all add: bitmap_mark_def bitmap_translate_def and_push_bit_eq_0 bitmap_used_def bitmap_bit_def kassert_bind)

lemma bitmap_unmark_eq:
  assumes "bitmap_ok b"
  shows "bitmap_unmark b i = (if i \<in> bitmap_used b
    then Some (b\<lparr>bv := (bv b)[i div 8 := bv b ! (i div 8) AND NOT (push_bit (i mod 8) 1)]\<rparr>) else None)"
  using bitmap_ok_index [OF assms, of i]
  by (cases "i < nbits b"; cases "bitmap_bit b i")
    (simp_all add: bitmap_unmark_def bitmap_translate_def and_push_bit_eq_0 bitmap_used_def bitmap_bit_def kassert_bind)

interpretation bm: block_map bitmap_ok bitmap_used nbits bitmap_alloc bitmap_mark bitmap_unmark bitmap_isset
proof unfold_locales
  fix b i
  assume ok: "bitmap_ok b"
  show "bitmap_used b \<subseteq> {..<nbits b}" by (auto simp: bitmap_used_def)
  {
    assume i: "i < nbits b" "i \<notin> bitmap_used b" and "\<forall>j<i. j \<in> bitmap_used b"
    then have "\<not> bitmap_bit b i" "\<forall>j<i. bitmap_bit b j" by (auto simp: bitmap_used_def)
    from bitmap_alloc_from_first [OF ok i(1) this, of 0] bitmap_set_ok [OF ok i(1)]
    show "\<exists>b'. bitmap_alloc b = Some (Inr i, b') \<and> bitmap_ok b' \<and> nbits b' = nbits b
        \<and> bitmap_used b' = insert i (bitmap_used b)"
      by (simp add: bitmap_alloc_def)
  }
  {
    assume full: "{..<nbits b} \<subseteq> bitmap_used b"
    have "bv b ! k = WORD_ALLBITS" if "k < length (bv b)" for k unfolding full_byte
    proof (intro allI impI)
      fix m :: nat assume "m < 8"
      then have k: "8 * k + m < 8 * length (bv b)" "(8 * k + m) div 8 = k" "(8 * k + m) mod 8 = m"
        using that by auto
      have "bitmap_bit b (8 * k + m)"
      proof (cases "8 * k + m < nbits b")
        case True
        with full show ?thesis by (auto simp: bitmap_used_def)
      next
        case False
        with ok k(1) show ?thesis by (simp add: bitmap_ok_def)
      qed
      with k show "bit (bv b ! k) m" by (simp add: bitmap_bit_def)
    qed
    with bitmap_alloc_from_full [OF ok, of 0] show "bitmap_alloc b = Some (Inl ENOSPC, b)"
      by (simp add: bitmap_alloc_def)
  }
  {
    assume i: "i < nbits b" "i \<notin> bitmap_used b"
    then show "\<exists>b'. bitmap_mark b i = Some b' \<and> bitmap_ok b' \<and> nbits b' = nbits b
        \<and> bitmap_used b' = insert i (bitmap_used b)"
      using bitmap_set_ok [OF ok i(1)] by (simp add: bitmap_mark_eq [OF ok])
  }
  {
    assume "\<not> (i < nbits b \<and> i \<notin> bitmap_used b)"
    then show "bitmap_mark b i = None" by (simp add: bitmap_mark_eq [OF ok])
  }
  {
    assume i: "i \<in> bitmap_used b"
    then have "i < nbits b" by (simp add: bitmap_used_def)
    with i show "\<exists>b'. bitmap_unmark b i = Some b' \<and> bitmap_ok b' \<and> nbits b' = nbits b
        \<and> bitmap_used b' = bitmap_used b - {i}"
      using bitmap_clear_ok [OF ok] by (simp add: bitmap_unmark_eq [OF ok])
  }
  {
    assume "i \<notin> bitmap_used b"
    then show "bitmap_unmark b i = None" by (simp add: bitmap_unmark_eq [OF ok])
  }
  {
    assume "i < nbits b"
    with bitmap_ok_index [OF ok this] show "bitmap_isset b i = Some (i \<in> bitmap_used b)"
      by (simp add: bitmap_isset_def bitmap_translate_def and_push_bit_eq_0 bitmap_used_def bitmap_bit_def)
  }
qed (rule bitmap_eqI)

section \<open>Creation\<close>

lemma divroundup_word:
  assumes "unat (n :: u32) \<le> 2 ^ 32 - 8"
  shows "unat ((n + 7) div 8) = divroundup8 (unat n)"
proof -
  have "unat (n + 7) = unat n + 7"
    using assms by (simp add: unat_word_ariths)
  then show ?thesis by (simp add: unat_div divroundup8_def)
qed

lemma bitmap_create_eq:
  assumes "unat n \<le> 2 ^ 32 - 8" and "kmalloc_ok ms = (True, ms1)" and "kmalloc_ok ms1 = (True, ms2)"
  shows "\<exists>b. bitmap_create n ms = Some (Some b, ms2) \<and> bitmap_ok b \<and> nbits b = unat n \<and> bitmap_used b = {}"
proof -
  let ?w = "divroundup8 (unat n)"
  define m where "m = unat n"
  note create = bitmap_create_def divroundup_word [OF assms(1)] assms(2,3)
  show ?thesis
  proof (cases "?w > m div 8")
    case False
    then have "m = 8 * ?w" unfolding m_def divroundup8_def by linarith
    with False show ?thesis
      by (auto simp: create bitmap_ok_def bitmap_used_def bitmap_bit_def m_def)
  next
    case True
    define ix where "ix = ?w - 1"
    define over where "over = m - ix * 8"
    have ix: "?w = Suc ix" "m div 8 = ix" "m = 8 * ix + over" "0 < over" "over < 8"
      using True unfolding ix_def over_def m_def divroundup8_def by linarith+
    define b where "b = \<lparr>nbits = m, bv = (replicate ?w 0)[ix := set_bits [over..<8] 0]\<rparr>"
    have created: "bitmap_create n ms = Some (Some b, ms2)"
      using ix True by (simp add: create b_def m_def over_def Let_def del: replicate_Suc)
    have bits: "bitmap_bit b i \<longleftrightarrow> m \<le> i" if "i < 8 * ?w" for i
    proof -
      have "i div 8 < ?w" using that by (simp add: less_mult_imp_div_less mult.commute)
      moreover have "i div 8 = ix \<Longrightarrow> over \<le> i mod 8 \<longleftrightarrow> m \<le> i"
        using ix(3) mult_div_mod_eq [of 8 i] by linarith
      moreover have "i div 8 < ix \<Longrightarrow> i < m" using ix(3) by auto
      ultimately show ?thesis
        using ix(1) by (auto simp: b_def bitmap_bit_def bit_set_bits nth_list_update simp del: replicate_Suc)
    qed
    have "length (bv b) = ?w" "nbits b = m" "m \<le> 8 * ?w"
      using ix by (simp_all add: b_def del: replicate_Suc)
    with bits created show ?thesis by (auto simp: bitmap_ok_def bitmap_used_def m_def)
  qed
qed

section \<open>Properties\<close>

text \<open>C19. On a well-formed bitmap \<^verbatim>\<open>bitmap_alloc\<close> never asserts: if some bit is clear it returns
  the lowest clear bit and sets exactly that one; if none is clear it returns \<^verbatim>\<open>ENOSPC\<close> and
  leaves the map alone. Both outcomes keep the invariant.\<close>

theorem bitmap_alloc_lowest:
  assumes "bitmap_ok b"
  shows "\<exists>r b'. bitmap_alloc b = Some (r, b') \<and> bitmap_ok b' \<and> nbits b' = nbits b \<and>
    (case r of
       Inr i \<Rightarrow> i < nbits b \<and> i \<notin> bitmap_used b \<and> (\<forall>j<i. j \<in> bitmap_used b)
              \<and> bitmap_used b' = insert i (bitmap_used b)
     | Inl e \<Rightarrow> e = ENOSPC \<and> b' = b \<and> bitmap_used b = {..<nbits b})"
proof -
  from bm.alloc_total [OF assms] obtain r b' where
    a: "bitmap_alloc b = Some (r, b')" "bitmap_ok b'" "nbits b' = nbits b" by blast
  show ?thesis
  proof (cases r)
    case (Inl e)
    note full = bm.alloc_Inl [OF assms a(1) [unfolded Inl]]
    with a Inl show ?thesis by simp
  next
    case (Inr i)
    note got = bm.alloc_Inr [OF assms a(1) [unfolded Inr]]
    with a Inr show ?thesis by simp
  qed
qed

theorem bitmap_alloc_lowest_witness:
  "\<exists>r b'. bitmap_alloc \<lparr>nbits = 12, bv = [0xff, 0xf5]\<rparr> = Some (r, b') \<and> r = Inr 9 \<and> bitmap_ok b'"
proof -
  have ok: "bitmap_ok \<lparr>nbits = 12, bv = [0xff, 0xf5]\<rparr>" by code_simp
  have "bitmap_alloc \<lparr>nbits = 12, bv = [0xff, 0xf5]\<rparr> = Some (Inr 9, \<lparr>nbits = 12, bv = [0xff, 0xf7]\<rparr>)"
    by code_simp
  with bitmap_alloc_lowest [OF ok] show ?thesis by auto
qed

text \<open>C20. \<^verbatim>\<open>bitmap_create\<close> builds an empty, well-formed map of the requested size, with the bits
  past the end of the last byte marked so that they are never handed out. The size is bounded
  by \<open>2\<^sup>3\<^sup>2 - 8\<close>: above it the round-up \<^verbatim>\<open>DIVROUNDUP\<close> wraps. A failed allocation gives \<^verbatim>\<open>NULL\<close>.\<close>

theorem bitmap_create_empty:
  assumes "unat n \<le> 2 ^ 32 - 8"
  shows "case bitmap_create n ms of
      Some (Some b, _) \<Rightarrow> bitmap_ok b \<and> nbits b = unat n \<and> bitmap_used b = {}
    | Some (None, _) \<Rightarrow> \<not> (fst (kmalloc_ok ms) \<and> fst (kmalloc_ok (snd (kmalloc_ok ms))))
    | None \<Rightarrow> False"
proof -
  obtain ok1 ms1 where 1: "kmalloc_ok ms = (ok1, ms1)" by fastforce
  obtain ok2 ms2 where 2: "kmalloc_ok ms1 = (ok2, ms2)" by fastforce
  show ?thesis
  proof (cases "ok1 \<and> ok2")
    case True
    with bitmap_create_eq [OF assms] 1 2 show ?thesis by fastforce
  next
    case False
    with 1 2 show ?thesis by (cases ok1) (simp_all add: bitmap_create_def Let_def)
  qed
qed

theorem bitmap_create_empty_witness:
  "\<exists>b. bitmap_create 12 [] = Some (Some b, []) \<and> bitmap_ok b \<and> bv b = [0, 0xf0]"
proof -
  have "bitmap_create 12 [] = Some (Some \<lparr>nbits = 12, bv = [0, 0xf0]\<rparr>, [])"
    by code_simp
  with bitmap_create_empty [of 12 "[]"] show ?thesis by simp
qed

text \<open>C21. \<open>n\<close> allocations in a row, \<open>n\<close> at most the number of clear bits, all succeed and return
  \<open>n\<close> different bits that were clear; nothing else changes.\<close>

theorem bitmap_alloc_run_distinct:
  assumes "bitmap_ok b" and "n \<le> nbits b - card (bitmap_used b)"
  shows "\<exists>is b'. alloc_times bitmap_alloc n b = Some (is, b') \<and> length is = n \<and> distinct is
    \<and> set is \<inter> bitmap_used b = {} \<and> bitmap_used b' = bitmap_used b \<union> set is \<and> bitmap_ok b'"
  using bm.alloc_times_ok [OF assms] by blast

theorem bitmap_alloc_run_distinct_witness:
  "\<exists>is b'. alloc_times bitmap_alloc 2 \<lparr>nbits = 3, bv = [0xf8]\<rparr> = Some (is, b') \<and> is = [0, 1] \<and> distinct is"
proof -
  have ok: "bitmap_ok \<lparr>nbits = 3, bv = [0xf8]\<rparr>" by code_simp
  have "\<forall>i<3. \<not> bitmap_bit \<lparr>nbits = 3, bv = [0xf8]\<rparr> i" by code_simp
  then have "bitmap_used \<lparr>nbits = 3, bv = [0xf8]\<rparr> = {}" by (auto simp: bitmap_used_def)
  moreover have "alloc_times bitmap_alloc 2 \<lparr>nbits = 3, bv = [0xf8]\<rparr> =
      Some ([0, 1], \<lparr>nbits = 3, bv = [0xfb]\<rparr>)" by code_simp
  ultimately show ?thesis using bitmap_alloc_run_distinct [OF ok, of 2] by simp
qed

end
