(* ===== verification/Coremap.thy ===== *)
theory Coremap
  imports Bitmap
begin

text \<open>
  \<^verbatim>\<open>kern/arch/mips/vm/ram.c\<close> and the physical page allocator of \<^verbatim>\<open>kern/vm/vm.c\<close>: the coremap, one
  entry per physical page, and the operations that take pages from it and give them back.

  \<^verbatim>\<open>ram_bootstrap\<close> caps memory at 512 MB, so physical addresses and page numbers are naturals below
  \<open>2\<^sup>2\<^sup>9\<close> and the kernel's \<^verbatim>\<open>paddr_t\<close> arithmetic cannot wrap; kernel virtual addresses are 32-bit words.
  The contents of physical memory are kept as 32-bit words indexed by (word-aligned) physical address.
  An index past the end of the coremap is \<open>None\<close>.
\<close>

section \<open>RAM at boot\<close>

record ram_state =
  firstpaddr :: u32
  lastpaddr :: u32

abbreviation MIPS_KSEG0 :: u32 where "MIPS_KSEG0 \<equiv> 0x80000000"

definition ram_bootstrap :: "u32 \<Rightarrow> u32 \<Rightarrow> ram_state" where
  "ram_bootstrap ramsize firstfree =
     \<lparr>firstpaddr = firstfree - MIPS_KSEG0, lastpaddr = (if 0x20000000 < ramsize then 0x20000000 else ramsize)\<rparr>"

definition ram_stealmem :: "u32 \<Rightarrow> ram_state \<Rightarrow> u32 \<times> ram_state" where
  "ram_stealmem npages r = (
     let sz = npages * 4096 in
     if lastpaddr r < firstpaddr r + sz then (0, r)
     else (firstpaddr r, r\<lparr>firstpaddr := firstpaddr r + sz\<rparr>))"

definition ram_getsize :: "ram_state \<Rightarrow> u32" where
  "ram_getsize r = lastpaddr r"

definition ram_getfirstfree :: "ram_state \<Rightarrow> u32 \<times> ram_state" where
  "ram_getfirstfree r = (firstpaddr r, r\<lparr>firstpaddr := 0, lastpaddr := 0\<rparr>)"

section \<open>The coremap\<close>

datatype page_state = Free | Fixed | Used | In_eviction

record coremap_page =
  chunk_size :: nat
  state :: page_state
  owner_addrspace :: "nat option"
  owner_vaddr :: vaddr
  ref_bit :: bool

text \<open>The static variables of \<^verbatim>\<open>vm.c\<close>; \<open>ram\<close> is the contents of memory. The record is extended by the
  kernel heap and the address spaces.\<close>

record vm =
  memory_start :: nat
  memory_end :: nat
  coremap :: "coremap_page list"
  allocated_pages_count :: int
  eviction_pointer :: nat
  ram :: "nat \<Rightarrow> u32"

abbreviation blank_page :: coremap_page where
  "blank_page \<equiv> \<lparr>chunk_size = 0, state = Free, owner_addrspace = None, owner_vaddr = 0, ref_bit = False\<rparr>"

definition PADDR_TO_KVADDR :: "nat \<Rightarrow> vaddr" where
  "PADDR_TO_KVADDR p = of_nat p + MIPS_KSEG0"

definition bzero_words :: "nat \<Rightarrow> nat \<Rightarrow> (nat \<Rightarrow> u32) \<Rightarrow> (nat \<Rightarrow> u32)" where
  "bzero_words a len m = (\<lambda>x. if a \<le> x \<and> x < a + len then 0 else m x)"

definition as_zero_region :: "nat \<Rightarrow> nat \<Rightarrow> 'a vm_scheme \<Rightarrow> 'a vm_scheme" where
  "as_zero_region paddr npages s = s\<lparr>ram := bzero_words paddr (npages * PAGE_SIZE) (ram s)\<rparr>"

text \<open>The first managed page: the first free address, page-aligned, plus the pages of the coremap itself
  (twenty bytes per entry).\<close>

definition coremap_start :: "nat \<Rightarrow> nat \<Rightarrow> nat" where
  "coremap_start first total_pages = (
     let start = (if first mod PAGE_SIZE \<noteq> 0 then (first + PAGE_SIZE - 1) div PAGE_SIZE * PAGE_SIZE else first);
         coremap_pages = (20 * total_pages + PAGE_SIZE - 1) div PAGE_SIZE
     in start + coremap_pages * PAGE_SIZE)"

text \<open>\<open>init\<close> is what the memory the coremap is placed in held before: only two fields are written.\<close>

definition coremap_bootstrap :: "(nat \<Rightarrow> coremap_page) \<Rightarrow> ram_state \<Rightarrow> 'a vm_scheme \<Rightarrow> ('a vm_scheme \<times> ram_state) option" where
  "coremap_bootstrap init r s = (
     let mend = unat (ram_getsize r);
         (first, r') = ram_getfirstfree r;
         total_pages = mend div PAGE_SIZE;
         start = coremap_start (unat first) total_pages
     in do {
       _ \<leftarrow> kassert (start mod PAGE_SIZE = 0);
       let used_pages = start div PAGE_SIZE;
       Some (s\<lparr>memory_start := start, memory_end := mend,
           coremap := map (\<lambda>i. (init i)\<lparr>chunk_size := 0, state := (if i < used_pages then Fixed else Free)\<rparr>)
                        [0..<total_pages],
           eviction_pointer := used_pages, allocated_pages_count := 0\<rparr>, r') })"

section \<open>Kernel pages\<close>

text \<open>The search loop of \<^verbatim>\<open>allocate_kernel_pages\<close>: \<open>c\<close> counts the free pages just before \<open>i\<close>.\<close>

function find_chunk :: "coremap_page list \<Rightarrow> nat \<Rightarrow> nat \<Rightarrow> nat \<Rightarrow> nat \<Rightarrow> nat option" where
  "find_chunk cm npages i end_idx c = (
     if i < end_idx then do {
       p \<leftarrow> rd cm i;
       if state p = Free then
         if c + 1 = npages then Some ((i + 1 - npages) * PAGE_SIZE)
         else find_chunk cm npages (i + 1) end_idx (c + 1)
       else find_chunk cm npages (i + 1) end_idx 0 }
     else Some 0)"
  by pat_completeness auto
termination
  by (relation "measure (\<lambda>(cm, n, i, e, c). e - i)") auto

declare find_chunk.simps [simp del]

text \<open>The loop that takes the pages: \<open>k\<close> pages are left, of a chunk of \<open>n\<close> that starts at \<open>a\<close>.\<close>

fun take_chunk :: "nat \<Rightarrow> nat \<Rightarrow> nat \<Rightarrow> coremap_page list \<Rightarrow> coremap_page list option" where
  "take_chunk a n 0 cm = Some cm"
| "take_chunk a n (Suc k) cm = do {
     let i = n - Suc k;
     p \<leftarrow> rd cm (a + i);
     cm' \<leftarrow> wr cm (a + i) (p\<lparr>state := Fixed, chunk_size := (if i = 0 then n else 0)\<rparr>);
     take_chunk a n k cm' }"

definition allocate_kernel_pages :: "nat \<Rightarrow> 'a vm_scheme \<Rightarrow> (nat \<times> 'a vm_scheme) option" where
  "allocate_kernel_pages npages s = do {
     a \<leftarrow> find_chunk (coremap s) npages (memory_start s div PAGE_SIZE) (memory_end s div PAGE_SIZE) 0;
     if a = 0 then Some (0, s)
     else do {
       cm \<leftarrow> take_chunk (a div PAGE_SIZE) npages npages (coremap s);
       Some (a, as_zero_region a npages
         (s\<lparr>coremap := cm, allocated_pages_count := allocated_pages_count s + int npages\<rparr>)) } }"

definition alloc_kpages :: "nat \<Rightarrow> 'a vm_scheme \<Rightarrow> (vaddr \<times> 'a vm_scheme) option" where
  "alloc_kpages npages s = do {
     (kernel_pages, s') \<leftarrow> allocate_kernel_pages npages s;
     Some (if kernel_pages \<noteq> 0 then PADDR_TO_KVADDR kernel_pages else 0, s') }"

fun free_chunk :: "nat \<Rightarrow> nat \<Rightarrow> coremap_page list \<Rightarrow> coremap_page list option" where
  "free_chunk a 0 cm = Some cm"
| "free_chunk a (Suc k) cm = do { cm' \<leftarrow> wr cm a blank_page; free_chunk (a + 1) k cm' }"

definition free_kpages :: "vaddr \<Rightarrow> 'a vm_scheme \<Rightarrow> 'a vm_scheme option" where
  "free_kpages addr s = do {
     let physical_addr = unat (addr - MIPS_KSEG0);
     _ \<leftarrow> kassert (physical_addr mod PAGE_SIZE = 0);
     let start_index = physical_addr div PAGE_SIZE;
     p \<leftarrow> rd (coremap s) start_index;
     cm \<leftarrow> free_chunk start_index (chunk_size p) (coremap s);
     Some (s\<lparr>coremap := cm, allocated_pages_count := allocated_pages_count s - int (chunk_size p)\<rparr>) }"

section \<open>User pages\<close>

function find_free :: "coremap_page list \<Rightarrow> nat \<Rightarrow> nat \<Rightarrow> nat option" where
  "find_free cm i end_idx = (
     if i < end_idx then do {
       p \<leftarrow> rd cm i;
       if state p = Free then Some (i * PAGE_SIZE) else find_free cm (i + 1) end_idx }
     else Some 0)"
  by pat_completeness auto
termination
  by (relation "measure (\<lambda>(cm, i, e). e - i)") auto

declare find_free.simps [simp del]

definition allocate_user_page :: "nat \<Rightarrow> nat \<Rightarrow> vaddr \<Rightarrow> bool \<Rightarrow> 'a vm_scheme \<Rightarrow> (nat \<times> 'a vm_scheme) option" where
  "allocate_user_page pages as vpage_addr copy_call s = do {
     _ \<leftarrow> kassert (pages = 1);
     a \<leftarrow> find_free (coremap s) (memory_start s div PAGE_SIZE) (memory_end s div PAGE_SIZE);
     if a = 0 then Some (0, s)
     else do {
       cm \<leftarrow> wr (coremap s) (a div PAGE_SIZE)
         \<lparr>chunk_size = 1, state = Used, owner_addrspace = Some as, owner_vaddr = vpage_addr, ref_bit = (\<not> copy_call)\<rparr>;
       Some (a, as_zero_region a pages
         (s\<lparr>coremap := cm, allocated_pages_count := allocated_pages_count s + 1\<rparr>)) } }"

definition release_physical_page :: "nat \<Rightarrow> 'a vm_scheme \<Rightarrow> (nat \<times> 'a vm_scheme) option" where
  "release_physical_page page_paddr s = do {
     _ \<leftarrow> kassert (page_paddr mod PAGE_SIZE = 0);
     let page_idx = page_paddr div PAGE_SIZE;
     p \<leftarrow> rd (coremap s) page_idx;
     if state p = In_eviction then Some (1, s)
     else do {
       cm \<leftarrow> wr (coremap s) page_idx blank_page;
       Some (0, s\<lparr>coremap := cm, allocated_pages_count := allocated_pages_count s - 1\<rparr>) } }"

definition coremap_memory_usage :: "'a vm_scheme \<Rightarrow> u32" where
  "coremap_memory_usage s = of_int (allocated_pages_count s * 4096)"

section \<open>The invariant\<close>

definition page_ok :: "nat \<Rightarrow> coremap_page list \<Rightarrow> nat \<Rightarrow> bool" where
  "page_ok st cm i \<longleftrightarrow> (let p = cm ! i in
     if i < st then state p = Fixed \<and> chunk_size p = 0
     else (case state p of
        Free \<Rightarrow> chunk_size p = 0
      | Fixed \<Rightarrow>
          if chunk_size p = 0 then (\<exists>h<i. st \<le> h \<and> state (cm ! h) = Fixed \<and> i < h + chunk_size (cm ! h))
          else i + chunk_size p \<le> length cm
            \<and> (\<forall>j<chunk_size p. 0 < j \<longrightarrow> state (cm ! (i + j)) = Fixed \<and> chunk_size (cm ! (i + j)) = 0)
      | _ \<Rightarrow> chunk_size p = 1))"

definition cm_ok :: "nat \<Rightarrow> coremap_page list \<Rightarrow> bool" where
  "cm_ok st cm \<longleftrightarrow> (\<forall>i<length cm. page_ok st cm i)"

definition taken :: "nat \<Rightarrow> coremap_page list \<Rightarrow> nat set" where
  "taken st cm = {i. st \<le> i \<and> i < length cm \<and> state (cm ! i) \<noteq> Free}"

definition coremap_ok :: "'a vm_scheme \<Rightarrow> bool" where
  "coremap_ok s \<longleftrightarrow>
     memory_start s mod PAGE_SIZE = 0 \<and> 0 < memory_start s \<and> memory_end s \<le> 536870912
     \<and> length (coremap s) = memory_end s div PAGE_SIZE
     \<and> cm_ok (memory_start s div PAGE_SIZE) (coremap s)
     \<and> allocated_pages_count s = int (card (taken (memory_start s div PAGE_SIZE) (coremap s)))"

text \<open>A run of free pages, and the coremap after one is taken or returned.\<close>

definition free_run :: "coremap_page list \<Rightarrow> nat \<Rightarrow> nat \<Rightarrow> bool" where
  "free_run cm a n \<longleftrightarrow> (\<forall>j<n. state (cm ! (a + j)) = Free)"

definition claim :: "nat \<Rightarrow> nat \<Rightarrow> coremap_page list \<Rightarrow> coremap_page list" where
  "claim a n cm = map (\<lambda>i. if a \<le> i \<and> i < a + n
      then (cm ! i)\<lparr>state := Fixed, chunk_size := (if i = a then n else 0)\<rparr> else cm ! i) [0..<length cm]"

definition unclaim :: "nat \<Rightarrow> nat \<Rightarrow> coremap_page list \<Rightarrow> coremap_page list" where
  "unclaim a n cm = map (\<lambda>i. if a \<le> i \<and> i < a + n then blank_page else cm ! i) [0..<length cm]"

lemma length_claim [simp]: "length (claim a n cm) = length cm"
  and length_unclaim [simp]: "length (unclaim a n cm) = length cm"
  by (simp_all add: claim_def unclaim_def)

lemma nth_claim: "i < length cm \<Longrightarrow> claim a n cm ! i = (if a \<le> i \<and> i < a + n
    then (cm ! i)\<lparr>state := Fixed, chunk_size := (if i = a then n else 0)\<rparr> else cm ! i)"
  by (simp add: claim_def)

lemma nth_unclaim: "i < length cm \<Longrightarrow> unclaim a n cm ! i = (if a \<le> i \<and> i < a + n then blank_page else cm ! i)"
  by (simp add: unclaim_def)

lemma free_runD:
  assumes "free_run cm a n" "a \<le> k" "k < a + n"
  shows "state (cm ! k) = Free"
  using assms(1) [unfolded free_run_def, rule_format, of "k - a"] assms(2,3) by simp

section \<open>The loops\<close>

lemma find_chunk_spec:
  assumes "e \<le> length cm" "c < n" "st + c \<le> i"
    and "free_run cm (i - c) c" and "i = st + c \<or> state (cm ! (i - c - 1)) \<noteq> Free"
    and "\<And>b. st \<le> b \<Longrightarrow> b + n \<le> i \<Longrightarrow> \<not> free_run cm b n"
  shows "(find_chunk cm n i e c = Some 0 \<and> (\<forall>b. st \<le> b \<and> b + n \<le> max i e \<longrightarrow> \<not> free_run cm b n)) \<or>
    (\<exists>b. find_chunk cm n i e c = Some (b * PAGE_SIZE) \<and> st \<le> b \<and> b + n \<le> e \<and> free_run cm b n
        \<and> (\<forall>b'. st \<le> b' \<and> b' < b \<longrightarrow> \<not> free_run cm b' n))"
  using assms
proof (induction cm n i e c rule: find_chunk.induct)
  case (1 cm n i e c)
  show ?case
  proof (cases "i < e")
    case False
    with "1.prems"(6) show ?thesis by (simp add: find_chunk.simps max_def)
  next
    case True
    then have rd: "rd cm i = Some (cm ! i)" using "1.prems"(1) by simp
    have m: "max i e = e" "max (i + 1) e = e" using True by auto
    show ?thesis
    proof (cases "state (cm ! i) = Free")
      case free: True
      have run: "free_run cm (i - c) (Suc c)"
        using "1.prems"(3,4) free by (auto simp: free_run_def less_Suc_eq)
      show ?thesis
      proof (cases "c + 1 = n")
        case True
        then have b: "i + 1 - n = i - c" by simp
        have "\<not> free_run cm b' n" if "st \<le> b'" "b' < i - c" for b'
          using "1.prems"(6) [of b'] that True by simp
        with run rd free True \<open>i < e\<close> "1.prems"(3) show ?thesis
          by (intro disjI2 exI [of _ "i - c"]) (auto simp: find_chunk.simps [of cm n i] b)
      next
        case False
        have no: "\<not> free_run cm b n" if "st \<le> b" "b + n \<le> i + 1" for b
        proof (cases "b + n \<le> i")
          case True
          then show ?thesis using "1.prems"(6) that by simp
        next
          case ge: False
          then have bi: "b + n = i + 1" using that by simp
          then have "b \<le> i - c - 1" "i \<noteq> st + c" using False "1.prems"(2,3) that by auto
          then have "b + (i - c - 1 - b) = i - c - 1" "state (cm ! (i - c - 1)) \<noteq> Free"
            using "1.prems"(5) by auto
          then have "state (cm ! (b + (i - c - 1 - b))) \<noteq> Free" by (simp only: not_False_eq_True)
          moreover have "i - c - 1 - b < n" using bi "1.prems"(2) by simp
          ultimately show ?thesis by (auto simp: free_run_def)
        qed
        have step: "find_chunk cm n i e c = find_chunk cm n (i + 1) e (c + 1)"
          using rd free False \<open>i < e\<close> by (simp add: find_chunk.simps [of cm n i])
        show ?thesis unfolding step m(1)
          using "1.IH"(1) [OF True rd free False "1.prems"(1)] "1.prems"(2,3,5) False run no m by simp
      qed
    next
      case busy: False
      have no: "\<not> free_run cm b n" if "st \<le> b" "b + n \<le> i + 1" for b
      proof (cases "b + n \<le> i")
        case True
        then show ?thesis using "1.prems"(6) that by simp
      next
        case False
        then have "i - b < n" "b + (i - b) = i" using that "1.prems"(2) by auto
        then show ?thesis using busy by (metis free_run_def)
      qed
      have step: "find_chunk cm n i e c = find_chunk cm n (i + 1) e 0"
        using rd busy \<open>i < e\<close> by (simp add: find_chunk.simps [of cm n i])
      show ?thesis unfolding step m(1)
        using "1.IH"(2) [OF True rd busy "1.prems"(1)] "1.prems"(2,3) busy no m by (simp add: free_run_def)
    qed
  qed
qed

lemma take_chunk_spec:
  assumes "k \<le> n" "a + n \<le> length cm"
  shows "take_chunk a n k cm = Some (map (\<lambda>i. if a + (n - k) \<le> i \<and> i < a + n
      then (cm ! i)\<lparr>state := Fixed, chunk_size := (if i = a then n else 0)\<rparr> else cm ! i) [0..<length cm])"
  using assms
proof (induction a n k cm rule: take_chunk.induct)
  case (1 a n cm)
  then show ?case by (auto intro!: map_upt_id [symmetric])
next
  case (2 a n k cm)
  let ?i = "n - Suc k"
  let ?cm = "cm[a + ?i := (cm ! (a + ?i))\<lparr>state := Fixed, chunk_size := (if ?i = 0 then n else 0)\<rparr>]"
  have lt: "a + ?i < length cm" using "2.prems" by simp
  have "take_chunk a n (Suc k) cm = take_chunk a n k ?cm" using lt by simp
  also have "\<dots> = Some (map (\<lambda>i. if a + (n - k) \<le> i \<and> i < a + n
      then (?cm ! i)\<lparr>state := Fixed, chunk_size := (if i = a then n else 0)\<rparr> else ?cm ! i) [0..<length ?cm])"
    by (rule "2.IH" [OF refl]) (use lt "2.prems" in simp_all)
  also have "\<dots> = Some (map (\<lambda>i. if a + ?i \<le> i \<and> i < a + n
      then (cm ! i)\<lparr>state := Fixed, chunk_size := (if i = a then n else 0)\<rparr> else cm ! i) [0..<length cm])"
    using "2.prems" by (auto simp: nth_list_update)
  finally show ?case .
qed

lemma take_chunk_claim: "a + n \<le> length cm \<Longrightarrow> take_chunk a n n cm = Some (claim a n cm)"
  by (simp add: take_chunk_spec claim_def)

lemma free_chunk_unclaim: "a + k \<le> length cm \<Longrightarrow> free_chunk a k cm = Some (unclaim a k cm)"
proof (induction a k cm rule: free_chunk.induct)
  case (1 a cm)
  then show ?case by (auto simp: unclaim_def intro!: map_upt_id [symmetric])
next
  case (2 a k cm)
  then show ?case by (auto simp: unclaim_def nth_list_update)
qed

lemma find_free_spec:
  assumes "e \<le> length cm" "\<And>b. st \<le> b \<Longrightarrow> b < i \<Longrightarrow> state (cm ! b) \<noteq> Free" "st \<le> i"
  shows "(find_free cm i e = Some 0 \<and> (\<forall>b. st \<le> b \<and> b < e \<longrightarrow> state (cm ! b) \<noteq> Free)) \<or>
    (\<exists>b. find_free cm i e = Some (b * PAGE_SIZE) \<and> st \<le> b \<and> b < e \<and> state (cm ! b) = Free
        \<and> (\<forall>b'. st \<le> b' \<and> b' < b \<longrightarrow> state (cm ! b') \<noteq> Free))"
  using assms
proof (induction cm i e rule: find_free.induct)
  case (1 cm i e)
  show ?case
  proof (cases "i < e")
    case False
    with "1.prems"(2) show ?thesis by (simp add: find_free.simps)
  next
    case True
    then have rd: "rd cm i = Some (cm ! i)" using "1.prems"(1) by simp
    show ?thesis
    proof (cases "state (cm ! i) = Free")
      case free: True
      then show ?thesis using rd True "1.prems"(2,3)
        by (intro disjI2 exI [of _ i]) (auto simp: find_free.simps [of cm i])
    next
      case busy: False
      then have "state (cm ! b) \<noteq> Free" if "st \<le> b" "b < i + 1" for b
        using "1.prems"(2) that by (cases "b = i") auto
      with "1.IH" [OF True rd busy "1.prems"(1)] "1.prems"(3)
      show ?thesis using rd True busy by (simp add: find_free.simps [of cm i])
    qed
  qed
qed

section \<open>Preservation\<close>

text \<open>The invariant, one case at a time.\<close>

lemma cm_okD:
  assumes "cm_ok st cm" "i < length cm"
  shows low: "i < st \<Longrightarrow> state (cm ! i) = Fixed \<and> chunk_size (cm ! i) = 0"
    and free: "state (cm ! i) = Free \<Longrightarrow> chunk_size (cm ! i) = 0"
    and single: "state (cm ! i) = Used \<or> state (cm ! i) = In_eviction \<Longrightarrow> st \<le> i \<and> chunk_size (cm ! i) = 1"
    and member: "st \<le> i \<Longrightarrow> state (cm ! i) = Fixed \<Longrightarrow> chunk_size (cm ! i) = 0 \<Longrightarrow>
      \<exists>h<i. st \<le> h \<and> state (cm ! h) = Fixed \<and> i < h + chunk_size (cm ! h)"
    and head: "state (cm ! i) = Fixed \<Longrightarrow> 0 < chunk_size (cm ! i) \<Longrightarrow> st \<le> i \<and> i + chunk_size (cm ! i) \<le> length cm"
    and inner: "state (cm ! i) = Fixed \<Longrightarrow> i < k \<Longrightarrow> k < i + chunk_size (cm ! i) \<Longrightarrow>
      state (cm ! k) = Fixed \<and> chunk_size (cm ! k) = 0"
proof -
  have ok: "page_ok st cm i" using assms by (simp add: cm_ok_def)
  then show "i < st \<Longrightarrow> state (cm ! i) = Fixed \<and> chunk_size (cm ! i) = 0"
    "state (cm ! i) = Free \<Longrightarrow> chunk_size (cm ! i) = 0"
    "state (cm ! i) = Used \<or> state (cm ! i) = In_eviction \<Longrightarrow> st \<le> i \<and> chunk_size (cm ! i) = 1"
    "st \<le> i \<Longrightarrow> state (cm ! i) = Fixed \<Longrightarrow> chunk_size (cm ! i) = 0 \<Longrightarrow>
      \<exists>h<i. st \<le> h \<and> state (cm ! h) = Fixed \<and> i < h + chunk_size (cm ! h)"
    "state (cm ! i) = Fixed \<Longrightarrow> 0 < chunk_size (cm ! i) \<Longrightarrow> st \<le> i \<and> i + chunk_size (cm ! i) \<le> length cm"
    by (auto simp: page_ok_def Let_def split: if_splits)
  assume k: "state (cm ! i) = Fixed" "i < k" "k < i + chunk_size (cm ! i)"
  then have "\<forall>j<chunk_size (cm ! i). 0 < j \<longrightarrow> state (cm ! (i + j)) = Fixed \<and> chunk_size (cm ! (i + j)) = 0"
    using ok by (auto simp: page_ok_def Let_def split: if_splits)
  from this [rule_format, of "k - i"] k show "state (cm ! k) = Fixed \<and> chunk_size (cm ! k) = 0" by simp
qed

lemma page_okI:
  assumes "i < st \<Longrightarrow> state (cm ! i) = Fixed \<and> chunk_size (cm ! i) = 0"
    and "state (cm ! i) = Free \<Longrightarrow> chunk_size (cm ! i) = 0"
    and "state (cm ! i) = Used \<or> state (cm ! i) = In_eviction \<Longrightarrow> chunk_size (cm ! i) = 1"
    and "st \<le> i \<Longrightarrow> state (cm ! i) = Fixed \<Longrightarrow> chunk_size (cm ! i) = 0 \<Longrightarrow>
      \<exists>h<i. st \<le> h \<and> state (cm ! h) = Fixed \<and> i < h + chunk_size (cm ! h)"
    and "st \<le> i \<Longrightarrow> state (cm ! i) = Fixed \<Longrightarrow> 0 < chunk_size (cm ! i) \<Longrightarrow> i + chunk_size (cm ! i) \<le> length cm"
    and "\<And>k. st \<le> i \<Longrightarrow> state (cm ! i) = Fixed \<Longrightarrow> i < k \<Longrightarrow> k < i + chunk_size (cm ! i) \<Longrightarrow>
      state (cm ! k) = Fixed \<and> chunk_size (cm ! k) = 0"
  shows "page_ok st cm i"
  using assms by (cases "state (cm ! i)") (auto simp: page_ok_def Let_def)

lemma cm_ok_claim:
  assumes ok: "cm_ok st cm" and "st \<le> a" "0 < n" "a + n \<le> length cm" and run: "free_run cm a n"
  shows "cm_ok st (claim a n cm)"
proof (unfold cm_ok_def, intro allI impI)
  have fr: "state (cm ! k) = Free" if "a \<le> k" "k < a + n" for k
    using free_runD [OF run] that by blast
  fix i assume "i < length (claim a n cm)"
  then have i: "i < length cm" by simp
  show "page_ok st (claim a n cm) i"
  proof (cases "a \<le> i \<and> i < a + n")
    case True
    then have "state (claim a n cm ! i) = Fixed" "chunk_size (claim a n cm ! i) = (if i = a then n else 0)"
      using i by (simp_all add: nth_claim)
    with True assms(2-4) i show ?thesis
      by (intro page_okI) (auto simp: nth_claim intro!: exI [of _ a] split: if_splits)
  next
    case False
    note D = cm_okD [OF ok i]
    have same: "claim a n cm ! i = cm ! i" using False i by (auto simp: nth_claim)
    show ?thesis unfolding page_ok_def
    proof (rule page_okI [unfolded page_ok_def], unfold same)
      assume h: "st \<le> i" "state (cm ! i) = Fixed" "chunk_size (cm ! i) = 0"
      from D(4) [OF h] obtain h where "h < i" "st \<le> h" "state (cm ! h) = Fixed" "i < h + chunk_size (cm ! h)"
        by blast
      moreover have "\<not> (a \<le> h \<and> h < a + n)" using fr [of h] calculation(3) by auto
      ultimately show "\<exists>h<i. st \<le> h \<and> state (claim a n cm ! h) = Fixed \<and> i < h + chunk_size (claim a n cm ! h)"
        using i by (intro exI [of _ h]) (auto simp: nth_claim)
    next
      fix k assume k: "st \<le> i" "state (cm ! i) = Fixed" "i < k" "k < i + chunk_size (cm ! i)"
      then have "k < length cm" using D(5) by simp
      moreover have "state (cm ! k) = Fixed \<and> chunk_size (cm ! k) = 0" using D(6) k by blast
      moreover have "\<not> (a \<le> k \<and> k < a + n)" using fr [of k] calculation(2) by auto
      ultimately show "state (claim a n cm ! k) = Fixed \<and> chunk_size (claim a n cm ! k) = 0"
        by (auto simp: nth_claim)
    qed (use D in auto)
  qed
qed

text \<open>A chunk head: a page whose chunk can be freed.\<close>

lemma chunk_disjoint:
  assumes ok: "cm_ok st cm" and "a < length cm" "0 < chunk_size (cm ! a)"
    and "h < length cm" "state (cm ! h) = Fixed" "h \<noteq> a"
  shows "h + chunk_size (cm ! h) \<le> a \<or> a + chunk_size (cm ! a) \<le> h \<or> chunk_size (cm ! h) = 0"
proof (cases "state (cm ! a) = Fixed")
  case True
  then show ?thesis
    using cm_okD(6) [OF ok assms(4,5), of a] cm_okD(6) [OF ok assms(2) True, of h] assms(3,6)
    by (metis linorder_neqE_nat not_le nat_less_le not_gr_zero)
next
  case False
  then have "chunk_size (cm ! a) = 1"
    using cm_okD(2,3) [OF ok assms(2)] assms(3) by (cases "state (cm ! a)") auto
  then show ?thesis using cm_okD(6) [OF ok assms(4,5), of a] False assms(6) by force
qed

lemma cm_ok_unclaim:
  assumes ok: "cm_ok st cm" and a: "a < length cm" and n: "n = chunk_size (cm ! a)" "0 < n"
  shows "cm_ok st (unclaim a n cm)"
proof (unfold cm_ok_def, intro allI impI)
  have st: "st \<le> a" using cm_okD(1) [OF ok a] n by fastforce
  fix i assume "i < length (unclaim a n cm)"
  then have i: "i < length cm" by simp
  show "page_ok st (unclaim a n cm) i"
  proof (cases "a \<le> i \<and> i < a + n")
    case True
    then show ?thesis using st i by (intro page_okI) (auto simp: nth_unclaim)
  next
    case False
    note D = cm_okD [OF ok i]
    note disj = chunk_disjoint [OF ok a n(2) [unfolded n(1)], folded n(1)]
    have same: "unclaim a n cm ! i = cm ! i" using False i by (auto simp: nth_unclaim)
    show ?thesis unfolding page_ok_def
    proof (rule page_okI [unfolded page_ok_def], unfold same)
      assume h: "st \<le> i" "state (cm ! i) = Fixed" "chunk_size (cm ! i) = 0"
      from D(4) [OF h] obtain h where H: "h < i" "st \<le> h" "state (cm ! h) = Fixed" "i < h + chunk_size (cm ! h)"
        by blast
      have "h \<noteq> a" using False H n(1) by auto
      then have "\<not> (a \<le> h \<and> h < a + n)" using disj [of h] H i by auto
      with H show "\<exists>h<i. st \<le> h \<and> state (unclaim a n cm ! h) = Fixed \<and> i < h + chunk_size (unclaim a n cm ! h)"
        using i by (intro exI [of _ h]) (auto simp: nth_unclaim)
    next
      fix k assume k: "st \<le> i" "state (cm ! i) = Fixed" "i < k" "k < i + chunk_size (cm ! i)"
      then have "k < length cm" using D(5) by simp
      moreover have "state (cm ! k) = Fixed \<and> chunk_size (cm ! k) = 0" using D(6) k by blast
      moreover have "i \<noteq> a" using False n by auto
      then have "\<not> (a \<le> k \<and> k < a + n)" using disj [of i] k i False by auto
      ultimately show "state (unclaim a n cm ! k) = Fixed \<and> chunk_size (unclaim a n cm ! k) = 0"
        by (auto simp: nth_unclaim)
    qed (use D in auto)
  qed
qed

section \<open>The operations on a well-formed coremap\<close>

abbreviation first_page :: "'a vm_scheme \<Rightarrow> nat" where
  "first_page s \<equiv> memory_start s div PAGE_SIZE"

definition kpages_taken :: "nat \<Rightarrow> nat \<Rightarrow> 'a vm_scheme \<Rightarrow> 'a vm_scheme" where
  "kpages_taken b n s = as_zero_region (b * PAGE_SIZE) n
     (s\<lparr>coremap := claim b n (coremap s), allocated_pages_count := allocated_pages_count s + int n\<rparr>)"

definition kpages_freed :: "nat \<Rightarrow> nat \<Rightarrow> 'a vm_scheme \<Rightarrow> 'a vm_scheme" where
  "kpages_freed b n s =
     s\<lparr>coremap := unclaim b n (coremap s), allocated_pages_count := allocated_pages_count s - int n\<rparr>"

lemma finite_taken [simp]: "finite (taken st cm)"
  by (rule finite_subset [of _ "{..<length cm}"]) (auto simp: taken_def)

lemma kpages_taken_ok:
  assumes "coremap_ok s" "first_page s \<le> b" "0 < n" "b + n \<le> length (coremap s)" "free_run (coremap s) b n"
  shows "coremap_ok (kpages_taken b n s)"
proof -
  have fr: "state (coremap s ! k) = Free" if "b \<le> k" "k < b + n" for k
    using free_runD [OF assms(5)] that by blast
  have "taken (first_page s) (claim b n (coremap s)) = taken (first_page s) (coremap s) \<union> {b..<b + n}"
    using assms(2,4) by (auto simp: taken_def nth_claim split: if_splits)
  moreover have "taken (first_page s) (coremap s) \<inter> {b..<b + n} = {}" using fr by (auto simp: taken_def)
  ultimately have "card (taken (first_page s) (claim b n (coremap s))) = card (taken (first_page s) (coremap s)) + n"
    by (simp add: card_Un_disjoint)
  then show ?thesis
    using assms cm_ok_claim by (auto simp: coremap_ok_def kpages_taken_def as_zero_region_def)
qed

lemma chunk_in_range:
  assumes "cm_ok st cm" "b < length cm" "0 < chunk_size (cm ! b)"
  shows "st \<le> b \<and> b + chunk_size (cm ! b) \<le> length cm"
  using cm_okD [OF assms(1,2)] assms(2,3) by (cases "state (cm ! b)") auto

lemma chunk_taken:
  assumes "cm_ok st cm" "b < length cm" "b \<le> k" "k < b + chunk_size (cm ! b)"
  shows "k \<in> taken st cm"
proof -
  have "state (cm ! k) \<noteq> Free"
    using cm_okD(2,3,6) [OF assms(1,2)] assms(3,4) by (cases "k = b"; cases "state (cm ! b)") fastforce+
  then show ?thesis using chunk_in_range [OF assms(1,2)] assms by (auto simp: taken_def)
qed

lemma kpages_freed_ok:
  assumes "coremap_ok s" "b < length (coremap s)" "n = chunk_size (coremap s ! b)" "0 < n"
  shows "coremap_ok (kpages_freed b n s)"
proof -
  have cm: "cm_ok (first_page s) (coremap s)" using assms(1) by (simp add: coremap_ok_def)
  have sub: "{b..<b + n} \<subseteq> taken (first_page s) (coremap s)"
    using chunk_taken [OF cm assms(2)] assms(3) by auto
  have "taken (first_page s) (unclaim b n (coremap s)) = taken (first_page s) (coremap s) - {b..<b + n}"
    by (auto simp: taken_def nth_unclaim split: if_splits)
  then have "card (taken (first_page s) (unclaim b n (coremap s))) = card (taken (first_page s) (coremap s)) - n"
    using sub by (simp add: card_Diff_subset)
  moreover have "n \<le> card (taken (first_page s) (coremap s))"
    using card_mono [OF finite_taken sub] by simp
  ultimately show ?thesis
    using assms(1) cm_ok_unclaim [OF cm assms(2-4)] by (auto simp: coremap_ok_def kpages_freed_def)
qed

lemma alloc_kpages_cases:
  assumes "coremap_ok s" "0 < n"
  obtains (full) "alloc_kpages n s = Some (0, s)"
      "\<And>b. first_page s \<le> b \<Longrightarrow> b + n \<le> length (coremap s) \<Longrightarrow> \<not> free_run (coremap s) b n"
  | (got) b where "alloc_kpages n s = Some (PADDR_TO_KVADDR (b * PAGE_SIZE), kpages_taken b n s)"
      "first_page s \<le> b" "b + n \<le> length (coremap s)" "free_run (coremap s) b n" "0 < b"
      "\<And>b'. first_page s \<le> b' \<Longrightarrow> b' < b \<Longrightarrow> \<not> free_run (coremap s) b' n"
proof -
  let ?st = "first_page s" and ?e = "memory_end s div PAGE_SIZE"
  have e: "?e = length (coremap s)" using assms(1) by (simp add: coremap_ok_def)
  have "memory_start s mod PAGE_SIZE = 0" "0 < memory_start s" using assms(1) by (auto simp: coremap_ok_def)
  then have st: "0 < ?st" by (auto simp: div_greater_zero_iff dest: mod_eq_self_iff_div_eq_0 [THEN iffD2])
  from find_chunk_spec [of ?e "coremap s" 0 n ?st ?st] assms(2) e
  consider (a) "find_chunk (coremap s) n ?st ?e 0 = Some 0"
      "\<forall>b. ?st \<le> b \<and> b + n \<le> max ?st ?e \<longrightarrow> \<not> free_run (coremap s) b n"
    | (b) b where "find_chunk (coremap s) n ?st ?e 0 = Some (b * PAGE_SIZE)" "?st \<le> b" "b + n \<le> ?e"
      "free_run (coremap s) b n" "\<forall>b'. ?st \<le> b' \<and> b' < b \<longrightarrow> \<not> free_run (coremap s) b' n"
    by (auto simp: free_run_def)
  then show thesis
  proof cases
    case a
    then show ?thesis using full e by (simp add: alloc_kpages_def allocate_kernel_pages_def)
  next
    case (b b)
    then have "b + n \<le> length (coremap s)" using e by simp
    moreover have "0 < b" using st b(2) by simp
    ultimately have "alloc_kpages n s = Some (PADDR_TO_KVADDR (b * PAGE_SIZE), kpages_taken b n s)"
      using b(1) by (simp add: alloc_kpages_def allocate_kernel_pages_def take_chunk_claim kpages_taken_def)
    with b st e show ?thesis by (intro got [of b]) auto
  qed
qed

lemma KV_sub: "PADDR_TO_KVADDR p - MIPS_KSEG0 = of_nat p"
  by (simp add: PADDR_TO_KVADDR_def)

lemma unat_KV: "p < 2147483648 \<Longrightarrow> unat (PADDR_TO_KVADDR p) = p + 2147483648"
  unfolding PADDR_TO_KVADDR_def by (subst unat_add_lem [THEN iffD1]) (simp_all add: unat_of_nat_u32)

lemma page_addr_bound:
  assumes "coremap_ok s" "b < length (coremap s)"
  shows "b * PAGE_SIZE < 536870912"
proof -
  have "memory_end s \<le> 536870912" "b < memory_end s div PAGE_SIZE" using assms by (auto simp: coremap_ok_def)
  then show ?thesis using div_times_less_eq_dividend [of "memory_end s" PAGE_SIZE] by linarith
qed

lemma KV_page:
  assumes "coremap_ok s" "b < length (coremap s)"
  shows "unat (PADDR_TO_KVADDR (b * PAGE_SIZE) - MIPS_KSEG0) = b * PAGE_SIZE"
    "unat (PADDR_TO_KVADDR (b * PAGE_SIZE)) = b * PAGE_SIZE + 2147483648"
proof -
  have lt: "b * PAGE_SIZE < 536870912" by (rule page_addr_bound [OF assms])
  then show "unat (PADDR_TO_KVADDR (b * PAGE_SIZE) - MIPS_KSEG0) = b * PAGE_SIZE"
    unfolding KV_sub by (intro unat_of_nat_u32) linarith
  show "unat (PADDR_TO_KVADDR (b * PAGE_SIZE)) = b * PAGE_SIZE + 2147483648"
    using lt by (intro unat_KV) linarith
qed

lemma free_kpages_head:
  assumes "coremap_ok s" "b < length (coremap s)"
  shows "free_kpages (PADDR_TO_KVADDR (b * PAGE_SIZE)) s = Some (kpages_freed b (chunk_size (coremap s ! b)) s)"
proof -
  let ?n = "chunk_size (coremap s ! b)"
  have "b + ?n \<le> length (coremap s)"
    using chunk_in_range [of "first_page s" "coremap s" b] assms by (cases "?n = 0") (auto simp: coremap_ok_def)
  then show ?thesis
    using assms(2) by (simp add: free_kpages_def KV_page(1) [OF assms] free_chunk_unclaim kpages_freed_def)
qed

definition upage_taken :: "nat \<Rightarrow> nat \<Rightarrow> vaddr \<Rightarrow> bool \<Rightarrow> 'a vm_scheme \<Rightarrow> 'a vm_scheme" where
  "upage_taken b as va copy s = as_zero_region (b * PAGE_SIZE) 1
     (s\<lparr>coremap := (coremap s)[b := \<lparr>chunk_size = 1, state = Used, owner_addrspace = Some as, owner_vaddr = va,
          ref_bit = (\<not> copy)\<rparr>], allocated_pages_count := allocated_pages_count s + 1\<rparr>)"

lemma cm_ok_single:
  assumes ok: "cm_ok st cm" and "st \<le> b" and fr: "state (cm ! b) = Free" and p: "state p = Used" "chunk_size p = 1"
  shows "cm_ok st (cm[b := p])"
proof (unfold cm_ok_def, intro allI impI)
  fix i assume "i < length (cm[b := p])"
  then have i: "i < length cm" by simp
  show "page_ok st (cm[b := p]) i"
  proof (cases "i = b")
    case True
    with i assms(2) p show ?thesis by (intro page_okI) auto
  next
    case False
    note D = cm_okD [OF ok i]
    have same: "cm[b := p] ! i = cm ! i" using False by simp
    show ?thesis unfolding page_ok_def
    proof (rule page_okI [unfolded page_ok_def], unfold same)
      assume h: "st \<le> i" "state (cm ! i) = Fixed" "chunk_size (cm ! i) = 0"
      from D(4) [OF h] obtain h where "h < i" "st \<le> h" "state (cm ! h) = Fixed" "i < h + chunk_size (cm ! h)"
        by blast
      moreover have "h \<noteq> b" using fr calculation(3) by auto
      ultimately show "\<exists>h<i. st \<le> h \<and> state (cm[b := p] ! h) = Fixed \<and> i < h + chunk_size (cm[b := p] ! h)"
        by (intro exI [of _ h]) simp
    next
      fix k assume k: "st \<le> i" "state (cm ! i) = Fixed" "i < k" "k < i + chunk_size (cm ! i)"
      then have "state (cm ! k) = Fixed \<and> chunk_size (cm ! k) = 0" using D(6) by blast
      moreover have "k \<noteq> b" using fr calculation by auto
      ultimately show "state (cm[b := p] ! k) = Fixed \<and> chunk_size (cm[b := p] ! k) = 0" by simp
    qed (use D in auto)
  qed
qed

lemma upage_taken_ok:
  assumes "coremap_ok s" "first_page s \<le> b" "b < length (coremap s)" "state (coremap s ! b) = Free"
  shows "coremap_ok (upage_taken b as va copy s)"
proof -
  let ?cm = "(coremap s)[b := \<lparr>chunk_size = 1, state = Used, owner_addrspace = Some as, owner_vaddr = va,
          ref_bit = (\<not> copy)\<rparr>]"
  have "taken (first_page s) ?cm = insert b (taken (first_page s) (coremap s))"
    using assms(2,3) by (auto simp: taken_def nth_list_update)
  moreover have "b \<notin> taken (first_page s) (coremap s)" using assms(4) by (simp add: taken_def)
  ultimately have "card (taken (first_page s) ?cm) = card (taken (first_page s) (coremap s)) + 1" by simp
  then show ?thesis
    using assms cm_ok_single by (auto simp: coremap_ok_def upage_taken_def as_zero_region_def)
qed

lemma allocate_user_page_cases:
  assumes "coremap_ok s"
  obtains (full) "allocate_user_page 1 as va copy s = Some (0, s)"
      "\<And>b. first_page s \<le> b \<Longrightarrow> b < length (coremap s) \<Longrightarrow> state (coremap s ! b) \<noteq> Free"
  | (got) b where "allocate_user_page 1 as va copy s = Some (b * PAGE_SIZE, upage_taken b as va copy s)"
      "first_page s \<le> b" "b < length (coremap s)" "state (coremap s ! b) = Free" "0 < b"
      "\<And>b'. first_page s \<le> b' \<Longrightarrow> b' < b \<Longrightarrow> state (coremap s ! b') \<noteq> Free"
proof -
  let ?st = "first_page s" and ?e = "memory_end s div PAGE_SIZE"
  have e: "?e = length (coremap s)" using assms by (simp add: coremap_ok_def)
  have "memory_start s mod PAGE_SIZE = 0" "0 < memory_start s" using assms by (auto simp: coremap_ok_def)
  then have st: "0 < ?st" by (auto simp: div_greater_zero_iff dest: mod_eq_self_iff_div_eq_0 [THEN iffD2])
  from find_free_spec [of ?e "coremap s" ?st ?st] e
  consider (a) "find_free (coremap s) ?st ?e = Some 0" "\<forall>b. ?st \<le> b \<and> b < ?e \<longrightarrow> state (coremap s ! b) \<noteq> Free"
    | (b) b where "find_free (coremap s) ?st ?e = Some (b * PAGE_SIZE)" "?st \<le> b" "b < ?e"
      "state (coremap s ! b) = Free" "\<forall>b'. ?st \<le> b' \<and> b' < b \<longrightarrow> state (coremap s ! b') \<noteq> Free"
    by auto
  then show thesis
  proof cases
    case a
    then show ?thesis using full e by (simp add: allocate_user_page_def)
  next
    case (b b)
    then have "allocate_user_page 1 as va copy s = Some (b * PAGE_SIZE, upage_taken b as va copy s)"
      using st e by (simp add: allocate_user_page_def upage_taken_def)
    with b st e show ?thesis by (intro got [of b]) auto
  qed
qed

lemma unclaim_1: "unclaim b 1 cm = cm[b := blank_page]"
  by (rule nth_equalityI) (auto simp: nth_unclaim nth_list_update)

lemma release_physical_page_used:
  assumes "b < length (coremap s)" "state (coremap s ! b) = Used"
  shows "release_physical_page (b * PAGE_SIZE) s = Some (0, kpages_freed b 1 s)"
  using assms by (simp add: release_physical_page_def kpages_freed_def unclaim_1 [simplified])

lemma release_used_ok:
  assumes "coremap_ok s" "b < length (coremap s)" "state (coremap s ! b) = Used"
  shows "coremap_ok (kpages_freed b 1 s)"
proof -
  have "chunk_size (coremap s ! b) = 1" using assms cm_okD(3) by (auto simp: coremap_ok_def)
  then show ?thesis using kpages_freed_ok [OF assms(1,2)] by simp
qed

section \<open>Page frames as an interface\<close>

text \<open>A client that takes chunks of the given sizes, and one that returns chunks.\<close>

fun alloc_all :: "(nat \<Rightarrow> 's \<Rightarrow> (vaddr \<times> 's) option) \<Rightarrow> nat list \<Rightarrow> 's \<Rightarrow> (vaddr list \<times> 's) option" where
  "alloc_all alloc [] s = Some ([], s)"
| "alloc_all alloc (n # ns) s = do {
     (a, s1) \<leftarrow> alloc n s;
     (as, s2) \<leftarrow> alloc_all alloc ns s1;
     Some (a # as, s2) }"

fun release_all :: "(vaddr \<Rightarrow> 's \<Rightarrow> 's option) \<Rightarrow> vaddr list \<Rightarrow> 's \<Rightarrow> 's option" where
  "release_all release [] s = Some s"
| "release_all release (a # as) s = do { s1 \<leftarrow> release a s; release_all release as s1 }"

lemma release_all_append:
  "release_all release (as @ bs) s = do { s1 \<leftarrow> release_all release as s; release_all release bs s1 }"
  by (induction as arbitrary: s) (auto split: bind_splits)

text \<open>What a client of the page allocator relies on. Pages are numbered; \<open>chunk s b\<close> is the length of the
  chunk that starts at page \<open>b\<close>, and zero elsewhere.\<close>

locale page_frames =
  fixes invar :: "'s \<Rightarrow> bool" and avail :: "'s \<Rightarrow> nat set" and chunk :: "'s \<Rightarrow> nat \<Rightarrow> nat"
    and addr :: "nat \<Rightarrow> vaddr"
    and alloc :: "nat \<Rightarrow> 's \<Rightarrow> (vaddr \<times> 's) option" and release :: "vaddr \<Rightarrow> 's \<Rightarrow> 's option"
  assumes alloc_law: "invar s \<Longrightarrow> 0 < n \<Longrightarrow>
      alloc n s = Some (0, s) \<and> (\<forall>b. \<not> {b..<b + n} \<subseteq> avail s) \<or>
      (\<exists>b s'. alloc n s = Some (addr b, s') \<and> addr b \<noteq> 0 \<and> invar s' \<and> {b..<b + n} \<subseteq> avail s
         \<and> avail s' = avail s - {b..<b + n} \<and> chunk s' b = n
         \<and> (\<forall>c. c \<notin> avail s \<longrightarrow> chunk s' c = chunk s c))"
    and release_law: "invar s \<Longrightarrow> 0 < chunk s b \<Longrightarrow>
      \<exists>s'. release (addr b) s = Some s' \<and> invar s' \<and> avail s' = avail s \<union> {b..<b + chunk s b}
        \<and> {b..<b + chunk s b} \<inter> avail s = {}
        \<and> (\<forall>c. c \<notin> {b..<b + chunk s b} \<longrightarrow> chunk s' c = chunk s c)"
begin

lemma alloc_total: "invar s \<Longrightarrow> 0 < n \<Longrightarrow> \<exists>a s'. alloc n s = Some (a, s') \<and> invar s'"
  using alloc_law [of s n] by auto

lemma alloc_got:
  assumes "invar s" "0 < n" "alloc n s = Some (a, s')" "a \<noteq> 0"
  obtains b where "a = addr b" "invar s'" "{b..<b + n} \<subseteq> avail s" "avail s' = avail s - {b..<b + n}" "chunk s' b = n"
    "\<And>c. c \<notin> avail s \<Longrightarrow> chunk s' c = chunk s c"
  using alloc_law [OF assms(1,2)] assms(3,4) by auto

lemma alloc_all_total:
  "invar s \<Longrightarrow> \<forall>n\<in>set ns. 0 < n \<Longrightarrow> \<exists>as s'. alloc_all alloc ns s = Some (as, s') \<and> invar s' \<and> length as = length ns"
proof (induction ns arbitrary: s)
  case (Cons n ns)
  from alloc_total [OF Cons.prems(1), of n] Cons.prems(2) obtain a s1 where
    1: "alloc n s = Some (a, s1)" "invar s1" by auto
  with Cons.IH [OF 1(2)] Cons.prems(2) show ?case by fastforce
qed simp

lemma alloc_release_all:
  assumes "invar s" "\<forall>n\<in>set ns. 0 < n" "alloc_all alloc ns s = Some (as, s')" "0 \<notin> set as"
  shows "\<exists>s''. release_all release (rev as) s' = Some s'' \<and> invar s'' \<and> avail s'' = avail s
    \<and> (\<forall>c. c \<notin> avail s \<longrightarrow> chunk s'' c = chunk s c)"
  using assms
proof (induction ns arbitrary: s as)
  case (Cons n ns)
  from Cons.prems(3) obtain a as1 s1 where
    1: "alloc n s = Some (a, s1)" "alloc_all alloc ns s1 = Some (as1, s')" "as = a # as1"
    by (auto split: bind_splits)
  have n: "0 < n" and a: "a \<noteq> 0" using Cons.prems(2,4) 1(3) by auto
  from alloc_got [OF Cons.prems(1) n 1(1) a] obtain b where
    b: "a = addr b" "invar s1" "{b..<b + n} \<subseteq> avail s" "avail s1 = avail s - {b..<b + n}" "chunk s1 b = n"
      "\<And>c. c \<notin> avail s \<Longrightarrow> chunk s1 c = chunk s c" by blast
  from Cons.IH [OF b(2) _ 1(2)] Cons.prems(2,4) 1(3) obtain s2 where
    2: "release_all release (rev as1) s' = Some s2" "invar s2" "avail s2 = avail s1"
      "\<And>c. c \<notin> avail s1 \<Longrightarrow> chunk s2 c = chunk s1 c" by auto
  have c: "chunk s2 b = n" using 2(4) [of b] b(4,5) n by simp
  from release_law [OF 2(2), of b] c n obtain s3 where
    3: "release (addr b) s2 = Some s3" "invar s3" "avail s3 = avail s2 \<union> {b..<b + n}"
      "\<And>c. c \<notin> {b..<b + n} \<Longrightarrow> chunk s3 c = chunk s2 c" by auto
  have "avail s3 = avail s" using 3(3) 2(3) b(3,4) by auto
  moreover have "chunk s3 c = chunk s c" if "c \<notin> avail s" for c
  proof -
    have "c \<notin> {b..<b + n}" "c \<notin> avail s1" using that b(3,4) by blast+
    then show ?thesis using 3(4) 2(4) b(6) that by simp
  qed
  ultimately show ?case using 1(3) 2(1) 3(1,2) b(1) by (simp add: release_all_append)
qed auto

end

section \<open>The coremap provides page frames\<close>

definition cm_avail :: "'a vm_scheme \<Rightarrow> nat set" where
  "cm_avail s = {i. first_page s \<le> i \<and> i < length (coremap s) \<and> state (coremap s ! i) = Free}"

definition cm_chunk :: "'a vm_scheme \<Rightarrow> nat \<Rightarrow> nat" where
  "cm_chunk s b = (if b < length (coremap s) then chunk_size (coremap s ! b) else 0)"

abbreviation page_addr :: "nat \<Rightarrow> vaddr" where
  "page_addr b \<equiv> PADDR_TO_KVADDR (b * PAGE_SIZE)"

lemma kpages_taken_fields [simp]:
  "coremap (kpages_taken b n s) = claim b n (coremap s)"
  "memory_start (kpages_taken b n s) = memory_start s" "memory_end (kpages_taken b n s) = memory_end s"
  "ram (kpages_taken b n s) = bzero_words (b * PAGE_SIZE) (n * PAGE_SIZE) (ram s)"
  "allocated_pages_count (kpages_taken b n s) = allocated_pages_count s + int n"
  "vm.more (kpages_taken b n s) = vm.more s"
  by (simp_all add: kpages_taken_def as_zero_region_def)

lemma kpages_freed_fields [simp]:
  "coremap (kpages_freed b n s) = unclaim b n (coremap s)"
  "memory_start (kpages_freed b n s) = memory_start s" "memory_end (kpages_freed b n s) = memory_end s"
  "ram (kpages_freed b n s) = ram s"
  "allocated_pages_count (kpages_freed b n s) = allocated_pages_count s - int n"
  "vm.more (kpages_freed b n s) = vm.more s"
  by (simp_all add: kpages_freed_def)

lemma upage_taken_fields [simp]:
  "coremap (upage_taken b as va c s) = (coremap s)[b := \<lparr>chunk_size = 1, state = Used,
     owner_addrspace = Some as, owner_vaddr = va, ref_bit = (\<not> c)\<rparr>]"
  "memory_start (upage_taken b as va c s) = memory_start s" "memory_end (upage_taken b as va c s) = memory_end s"
  "ram (upage_taken b as va c s) = bzero_words (b * PAGE_SIZE) PAGE_SIZE (ram s)"
  "vm.more (upage_taken b as va c s) = vm.more s"
  by (simp_all add: upage_taken_def as_zero_region_def)

lemma free_run_avail:
  "first_page s \<le> b \<Longrightarrow> b + n \<le> length (coremap s) \<Longrightarrow> free_run (coremap s) b n \<Longrightarrow> {b..<b + n} \<subseteq> cm_avail s"
  by (auto simp: cm_avail_def intro: free_runD)

lemma avail_free_run:
  assumes "{b..<b + n} \<subseteq> cm_avail s" "0 < n"
  shows "first_page s \<le> b" "b + n \<le> length (coremap s)" "free_run (coremap s) b n"
proof -
  have "b \<in> cm_avail s" "b + n - 1 \<in> cm_avail s" using assms by auto
  then show "first_page s \<le> b" "b + n \<le> length (coremap s)" using assms(2) by (auto simp: cm_avail_def)
  have "b + j \<in> cm_avail s" if "j < n" for j using assms(1) that by auto
  then show "free_run (coremap s) b n" by (simp add: free_run_def cm_avail_def)
qed

lemma page_addr_nonzero: "coremap_ok s \<Longrightarrow> b < length (coremap s) \<Longrightarrow> page_addr b \<noteq> 0"
  using KV_page(2) [of s b] by auto

interpretation pages: page_frames coremap_ok cm_avail cm_chunk page_addr alloc_kpages free_kpages
proof (unfold_locales, goal_cases)
  case (1 s n)
  from 1 show ?case
  proof (cases rule: alloc_kpages_cases)
    case full
    then show ?thesis using avail_free_run 1(2) by blast
  next
    case (got b)
    have b: "b < length (coremap s)" using got(3) 1(2) by simp
    have "cm_avail (kpages_taken b n s) = cm_avail s - {b..<b + n}"
      by (auto simp: cm_avail_def nth_claim split: if_splits)
    moreover have "cm_chunk (kpages_taken b n s) b = n" using b 1(2) by (simp add: cm_chunk_def nth_claim)
    moreover have "cm_chunk (kpages_taken b n s) c = cm_chunk s c" if "c \<notin> cm_avail s" for c
    proof -
      have "c \<notin> {b..<b + n}" using free_run_avail [OF got(2-4)] that by blast
      then show ?thesis by (auto simp: cm_chunk_def nth_claim)
    qed
    ultimately show ?thesis
      using got page_addr_nonzero [OF 1(1) b] kpages_taken_ok [OF 1(1) got(2) 1(2) got(3,4)] free_run_avail [OF got(2-4)]
      by blast
  qed
next
  case (2 s b)
  let ?n = "cm_chunk s b"
  have b: "b < length (coremap s)" and n: "?n = chunk_size (coremap s ! b)" "0 < chunk_size (coremap s ! b)"
    using 2(2) by (auto simp: cm_chunk_def split: if_splits)
  have ok: "cm_ok (first_page s) (coremap s)" using 2(1) by (simp add: coremap_ok_def)
  note r = chunk_in_range [OF ok b n(2)]
  have "cm_avail (kpages_freed b ?n s) = cm_avail s \<union> {b..<b + ?n}"
    using r n(1) by (auto simp: cm_avail_def nth_unclaim split: if_splits)
  moreover have "{b..<b + ?n} \<inter> cm_avail s = {}"
    using chunk_taken [OF ok b] n(1) by (auto simp: cm_avail_def taken_def)
  moreover have "cm_chunk (kpages_freed b ?n s) c = cm_chunk s c" if "c \<notin> {b..<b + ?n}" for c
    using that b by (auto simp: cm_chunk_def nth_unclaim)
  ultimately show ?case
    using free_kpages_head [OF 2(1) b] kpages_freed_ok [OF 2(1) b refl n(2)] n(1) by simp
qed

section \<open>Boot and reachable states\<close>

lemma coremap_bootstrap_spec:
  assumes "MIPS_KSEG0 < firstfree"
  obtains s' r' where "coremap_bootstrap init (ram_bootstrap ramsize firstfree) s = Some (s', r')"
    "coremap_ok s'" "cm_avail s' = {first_page s'..<length (coremap s')}" "allocated_pages_count s' = 0"
    "length (coremap s') = min (unat ramsize) 536870912 div PAGE_SIZE"
proof -
  let ?r = "ram_bootstrap ramsize firstfree"
  define mend where "mend = unat (lastpaddr ?r)"
  define first where "first = unat (firstpaddr ?r)"
  define start where "start = coremap_start first (mend div PAGE_SIZE)"
  have mend: "mend = min (unat ramsize) 536870912"
    by (auto simp: mend_def ram_bootstrap_def word_less_nat_alt)
  have "firstfree - MIPS_KSEG0 \<noteq> 0" using assms by auto
  then have "0 < first" by (simp add: first_def ram_bootstrap_def unat_gt_0)
  then have pos: "0 < start" by (auto simp: start_def coremap_start_def div_greater_zero_iff)
  have al: "start mod PAGE_SIZE = 0" by (auto simp: start_def coremap_start_def)
  define s' where "s' = s\<lparr>memory_start := start, memory_end := mend,
      coremap := map (\<lambda>i. (init i)\<lparr>chunk_size := 0, state := (if i < start div PAGE_SIZE then Fixed else Free)\<rparr>)
        [0..<mend div PAGE_SIZE], eviction_pointer := start div PAGE_SIZE, allocated_pages_count := 0\<rparr>"
  have run: "coremap_bootstrap init ?r s = Some (s', snd (ram_getfirstfree ?r))"
    using al by (simp add: coremap_bootstrap_def ram_getsize_def ram_getfirstfree_def Let_def s'_def
        mend_def [symmetric] first_def [symmetric] start_def [symmetric])
  have "cm_ok (start div PAGE_SIZE) (coremap s')"
    by (auto simp: cm_ok_def s'_def intro!: page_okI split: if_splits)
  moreover have "taken (start div PAGE_SIZE) (coremap s') = {}" by (auto simp: taken_def s'_def)
  ultimately have "coremap_ok s'" using pos al mend by (simp add: coremap_ok_def s'_def)
  moreover have "cm_avail s' = {first_page s'..<length (coremap s')}" by (auto simp: cm_avail_def s'_def)
  ultimately show thesis using that [OF run] mend by (simp add: s'_def)
qed

inductive cm_step :: "'a vm_scheme \<Rightarrow> 'a vm_scheme \<Rightarrow> bool" where
  kalloc: "0 < n \<Longrightarrow> alloc_kpages n s = Some (a, s') \<Longrightarrow> cm_step s s'"
| kfree: "0 < cm_chunk s b \<Longrightarrow> free_kpages (page_addr b) s = Some s' \<Longrightarrow> cm_step s s'"
| ualloc: "allocate_user_page 1 as va copy s = Some (p, s') \<Longrightarrow> cm_step s s'"
| urelease: "b < length (coremap s) \<Longrightarrow> state (coremap s ! b) = Used \<Longrightarrow>
    release_physical_page (b * PAGE_SIZE) s = Some (r, s') \<Longrightarrow> cm_step s s'"

lemma cm_step_ok: "cm_step s s' \<Longrightarrow> coremap_ok s \<Longrightarrow> coremap_ok s'"
proof (induction rule: cm_step.induct)
  case (kalloc n s a s')
  obtain a1 s1 where "alloc_kpages n s = Some (a1, s1)" "coremap_ok s1"
    using pages.alloc_total [OF kalloc(3,1)] by blast
  with kalloc(2) show ?case by simp
next
  case (kfree s b s')
  obtain s1 where "free_kpages (page_addr b) s = Some s1" "coremap_ok s1"
    using pages.release_law [OF kfree(3,1)] by blast
  with kfree(2) show ?case by simp
next
  case (ualloc as va copy s p s')
  from ualloc(2) show ?case
  proof (cases rule: allocate_user_page_cases [of _ as va copy])
    case full
    with ualloc show ?thesis by simp
  next
    case (got b)
    with ualloc upage_taken_ok [OF ualloc(2) got(2-4)] show ?thesis by simp
  qed
next
  case (urelease b s r s')
  with release_physical_page_used [OF urelease(1,2)] release_used_ok [OF urelease(4,1,2)] show ?case by simp
qed

lemma cm_steps_ok: "cm_step\<^sup>*\<^sup>* s s' \<Longrightarrow> coremap_ok s \<Longrightarrow> coremap_ok s'"
  by (induction rule: rtranclp_induct) (auto intro: cm_step_ok)

lemma taken_bound: "coremap_ok s \<Longrightarrow> card (taken (first_page s) (coremap s)) \<le> 131072"
proof -
  assume ok: "coremap_ok s"
  have "taken (first_page s) (coremap s) \<subseteq> {..<length (coremap s)}" by (auto simp: taken_def)
  then have "card (taken (first_page s) (coremap s)) \<le> length (coremap s)"
    using card_mono [of "{..<length (coremap s)}"] by fastforce
  also have "\<dots> \<le> 536870912 div PAGE_SIZE" using ok by (auto simp: coremap_ok_def intro: div_le_mono)
  finally show ?thesis by simp
qed

lemma memory_usage:
  assumes "coremap_ok s"
  shows "unat (coremap_memory_usage s) = card (taken (first_page s) (coremap s)) * PAGE_SIZE"
proof -
  have "coremap_memory_usage s = of_nat (card (taken (first_page s) (coremap s)) * PAGE_SIZE)"
    using assms by (simp add: coremap_memory_usage_def coremap_ok_def)
  then show ?thesis using unat_of_nat_u32 [of "card (taken (first_page s) (coremap s)) * PAGE_SIZE"]
      taken_bound [OF assms] by simp
qed

section \<open>Properties\<close>

text \<open>C28. \<^verbatim>\<open>alloc_kpages\<close> on a well-formed coremap never fails an assertion. It returns 0 and changes nothing
  exactly when no run of \<open>n\<close> free pages exists; otherwise it takes the lowest such run, marks those pages
  and only those fixed, hands back their kernel address, and memory is zero on the run and as before
  elsewhere. The coremap stays well formed.\<close>
theorem alloc_kpages_first_fit:
  assumes "coremap_ok s" and "0 < n"
  shows "\<exists>a s'. alloc_kpages n s = Some (a, s') \<and> coremap_ok s'
    \<and> (a = 0 \<longrightarrow> s' = s \<and> (\<forall>b. first_page s \<le> b \<and> b + n \<le> length (coremap s) \<longrightarrow> \<not> free_run (coremap s) b n))
    \<and> (a \<noteq> 0 \<longrightarrow> (\<exists>b. a = PADDR_TO_KVADDR (b * PAGE_SIZE) \<and> first_page s \<le> b \<and> b + n \<le> length (coremap s)
          \<and> free_run (coremap s) b n \<and> (\<forall>b'. first_page s \<le> b' \<and> b' < b \<longrightarrow> \<not> free_run (coremap s) b' n)
          \<and> (\<forall>i<length (coremap s). coremap s' ! i = (if b \<le> i \<and> i < b + n
                then (coremap s ! i)\<lparr>state := Fixed, chunk_size := (if i = b then n else 0)\<rparr> else coremap s ! i))
          \<and> (\<forall>x. ram s' x = (if b * PAGE_SIZE \<le> x \<and> x < (b + n) * PAGE_SIZE then 0 else ram s x))))"
  using assms
proof (cases rule: alloc_kpages_cases)
  case full
  then show ?thesis using assms(1) by simp
next
  case (got b)
  have b: "b < length (coremap s)" using got(3) assms(2) by simp
  have ok: "coremap_ok (kpages_taken b n s)" by (rule kpages_taken_ok [OF assms(1) got(2) assms(2) got(3,4)])
  have "ram (kpages_taken b n s) x = (if b * PAGE_SIZE \<le> x \<and> x < (b + n) * PAGE_SIZE then 0 else ram s x)" for x
    by (simp add: bzero_words_def algebra_simps)
  with got page_addr_nonzero [OF assms(1) b] ok show ?thesis
    by (intro exI [of _ "page_addr b"] exI [of _ "kpages_taken b n s"] conjI impI exI [of _ b] allI)
      (simp_all add: nth_claim)
qed

text \<open>C29. A client that takes any sequence of chunks and gives them all back leaves the set of free pages
  exactly as it found it; neither half can fail an assertion.\<close>
theorem kpages_alloc_free_restores:
  assumes "coremap_ok s" and "\<forall>n\<in>set ns. 0 < n" and "alloc_all alloc_kpages ns s = Some (as, s')" and "0 \<notin> set as"
  shows "\<exists>s''. release_all free_kpages (rev as) s' = Some s'' \<and> coremap_ok s'' \<and> cm_avail s'' = cm_avail s"
  using pages.alloc_release_all [OF assms] by blast

text \<open>C30. A user page: \<^verbatim>\<open>allocate_user_page\<close> hands out a free page, zeroed and recorded as used by the given
  address space at the given virtual address, changing no other page; releasing it makes exactly that
  page free again.\<close>
theorem user_page_roundtrip:
  assumes "coremap_ok s" and "allocate_user_page 1 as va copy s = Some (p, s')" and "p \<noteq> 0"
  shows "\<exists>b. p = b * PAGE_SIZE \<and> b \<in> cm_avail s \<and> coremap_ok s' \<and> cm_avail s' = cm_avail s - {b}
    \<and> coremap s' ! b = \<lparr>chunk_size = 1, state = Used, owner_addrspace = Some as, owner_vaddr = va, ref_bit = (\<not> copy)\<rparr>
    \<and> (\<forall>i. i \<noteq> b \<longrightarrow> coremap s' ! i = coremap s ! i)
    \<and> (\<forall>x. ram s' x = (if p \<le> x \<and> x < p + PAGE_SIZE then 0 else ram s x))
    \<and> (\<exists>s''. release_physical_page p s' = Some (0, s'') \<and> coremap_ok s'' \<and> cm_avail s'' = cm_avail s)"
  using assms(1)
proof (cases rule: allocate_user_page_cases [of _ as va copy])
  case full
  with assms(2,3) show ?thesis by simp
next
  case (got b)
  have p: "p = b * PAGE_SIZE" and s': "s' = upage_taken b as va copy s" using got(1) assms(2) by auto
  have ok: "coremap_ok s'" unfolding s' by (rule upage_taken_ok [OF assms(1) got(2-4)])
  have u: "b < length (coremap s')" "state (coremap s' ! b) = Used" using got(3) by (simp_all add: s')
  have av: "b \<in> cm_avail s" using got(2-4) by (simp add: cm_avail_def)
  have av': "cm_avail s' = cm_avail s - {b}" using got(3) by (auto simp: s' cm_avail_def nth_list_update split: if_splits)
  have "cm_avail (kpages_freed b 1 s') = cm_avail s' \<union> {b}"
    using got(2,3) by (auto simp: cm_avail_def s' unclaim_1 [simplified] nth_list_update split: if_splits)
  then have "cm_avail (kpages_freed b 1 s') = cm_avail s" using av av' by auto
  with release_physical_page_used [OF u] release_used_ok [OF ok u]
  have "\<exists>s''. release_physical_page p s' = Some (0, s'') \<and> coremap_ok s'' \<and> cm_avail s'' = cm_avail s"
    unfolding p by blast
  with p av ok av' got(3) show ?thesis by (intro exI [of _ b]) (simp add: s' bzero_words_def)
qed

text \<open>C31. From boot on, whatever sequence of page operations the kernel performs, the coremap is well
  formed and \<^verbatim>\<open>coremap_memory_usage\<close> is exactly the number of bytes in pages that are not free.\<close>
theorem coremap_reachable_ok:
  assumes "coremap_bootstrap init (ram_bootstrap ramsize firstfree) s0 = Some (s1, r)"
    and "MIPS_KSEG0 < firstfree" and "cm_step\<^sup>*\<^sup>* s1 s"
  shows "coremap_ok s \<and> unat (coremap_memory_usage s) = card (taken (first_page s) (coremap s)) * PAGE_SIZE"
proof -
  obtain s' r' where "coremap_bootstrap init (ram_bootstrap ramsize firstfree) s0 = Some (s', r')" "coremap_ok s'"
    by (rule coremap_bootstrap_spec [OF assms(2)])
  with assms(1) have "coremap_ok s1" by simp
  with cm_steps_ok [OF assms(3)] memory_usage show ?thesis by blast
qed

subsection \<open>Witnesses\<close>

text \<open>A machine with 48 kB of memory: the kernel ends at page 1, the coremap is page 1, pages 2 to 11
  are free.\<close>

definition demo_vm0 :: vm where
  "demo_vm0 = \<lparr>memory_start = 0, memory_end = 0, coremap = [], allocated_pages_count = 0, eviction_pointer = 0,
     ram = (\<lambda>x. 7)\<rparr>"

definition demo_vm :: vm where
  "demo_vm = fst (the (coremap_bootstrap (\<lambda>i. blank_page) (ram_bootstrap 49152 0x80001000) demo_vm0))"

lemma demo_boot:
  "\<exists>r. coremap_bootstrap (\<lambda>i. blank_page) (ram_bootstrap 49152 0x80001000) demo_vm0 = Some (demo_vm, r)"
  and demo_vm_ok: "coremap_ok demo_vm"
proof -
  have "MIPS_KSEG0 < (0x80001000 :: u32)" by simp
  from coremap_bootstrap_spec [OF this, of "\<lambda>i. blank_page" 49152 demo_vm0] obtain s r where
    "coremap_bootstrap (\<lambda>i. blank_page) (ram_bootstrap 49152 0x80001000) demo_vm0 = Some (s, r)" "coremap_ok s"
    by metis
  then show "\<exists>r. coremap_bootstrap (\<lambda>i. blank_page) (ram_bootstrap 49152 0x80001000) demo_vm0 = Some (demo_vm, r)"
    "coremap_ok demo_vm" by (simp_all add: demo_vm_def)
qed

theorem alloc_kpages_first_fit_witness:
  "\<exists>a s'. alloc_kpages 3 demo_vm = Some (a, s') \<and> coremap_ok s'"
  using alloc_kpages_first_fit [OF demo_vm_ok, of 3] by auto

theorem kpages_alloc_free_restores_witness:
  "\<exists>as s' s''. alloc_all alloc_kpages [3, 2] demo_vm = Some (as, s') \<and> 0 \<notin> set as
     \<and> release_all free_kpages (rev as) s' = Some s'' \<and> cm_avail s'' = cm_avail demo_vm"
proof -
  obtain as s' where run: "alloc_all alloc_kpages [3, 2] demo_vm = Some (as, s')"
    using pages.alloc_all_total [OF demo_vm_ok, of "[3, 2]"] by auto
  have "map_option fst (alloc_all alloc_kpages [3, 2] demo_vm) = Some [0x80002000, 0x80005000]"
    by code_simp
  with run have "0 \<notin> set as" by auto
  with kpages_alloc_free_restores [OF demo_vm_ok _ run] run show ?thesis by auto
qed

theorem user_page_roundtrip_witness:
  "\<exists>s' s''. allocate_user_page 1 5 0x400000 False demo_vm = Some (2 * PAGE_SIZE, s')
     \<and> release_physical_page (2 * PAGE_SIZE) s' = Some (0, s'') \<and> cm_avail s'' = cm_avail demo_vm"
proof -
  have "map_option fst (allocate_user_page 1 5 0x400000 False demo_vm) = Some (2 * PAGE_SIZE)" by code_simp
  then obtain s' where "allocate_user_page 1 5 0x400000 False demo_vm = Some (2 * PAGE_SIZE, s')" by auto
  with user_page_roundtrip [OF demo_vm_ok this] show ?thesis by auto
qed

theorem coremap_reachable_ok_witness: "\<exists>s. cm_step\<^sup>*\<^sup>* demo_vm s \<and> s \<noteq> demo_vm \<and> coremap_ok s"
proof -
  obtain r where boot: "coremap_bootstrap (\<lambda>i. blank_page) (ram_bootstrap 49152 0x80001000) demo_vm0 = Some (demo_vm, r)"
    using demo_boot by blast
  have m: "map_option (\<lambda>(a, s). allocated_pages_count s) (alloc_kpages 3 demo_vm) = Some 3"
    "allocated_pages_count demo_vm = 0" by code_simp+
  then obtain a s where s: "alloc_kpages 3 demo_vm = Some (a, s)" "allocated_pages_count s = 3" by auto
  then have "cm_step demo_vm s" by (intro cm_step.kalloc [of 3]) auto
  then have st: "cm_step\<^sup>*\<^sup>* demo_vm s" by (rule r_into_rtranclp)
  have "s \<noteq> demo_vm" using s(2) m(2) by auto
  with coremap_reachable_ok [OF boot _ st] st show ?thesis by auto
qed

end
