(* ===== verification/Kmalloc.thy ===== *)
theory Kmalloc
  imports Coremap
begin

text \<open>
  \<^verbatim>\<open>kern/vm/kmalloc.c\<close>: the pool-based subpage allocator, in the configuration the file selects (no
  \<^verbatim>\<open>SLOW\<close>, \<^verbatim>\<open>GUARDS\<close> or \<^verbatim>\<open>LABELS\<close>). A heap page holds blocks of one size; its free blocks are linked
  through their first words, which are words of \<open>ram\<close>. A \<^verbatim>\<open>struct pageref\<close> is named by its slot, root times
  256 plus index, and the two singly linked lists of pagerefs are lists of slots. The spinlock is held
  throughout, except around the page allocator, which does not call back.
\<close>

section \<open>State\<close>

record pageref =
  pageaddr_and_blocktype :: u32
  freelist_offset :: u16
  nfree :: u16

record kheap_root =
  rpage :: vaddr
  pagerefs_inuse :: "u32 list"
  numinuse :: nat

record kheap = vm +
  kheaproots :: "kheap_root list"
  prs :: "nat \<Rightarrow> pageref"
  sizebases :: "nat list list"
  allbase :: "nat list"

abbreviation NSIZES :: nat where "NSIZES \<equiv> 8"
abbreviation NUM_PAGEREFPAGES :: nat where "NUM_PAGEREFPAGES \<equiv> 16"
abbreviation NPAGEREFS_PER_PAGE :: nat where "NPAGEREFS_PER_PAGE \<equiv> 256"
abbreviation INUSE_WORDS :: nat where "INUSE_WORDS \<equiv> 8"
abbreviation LARGEST_SUBPAGE_SIZE :: u32 where "LARGEST_SUBPAGE_SIZE \<equiv> 2048"
abbreviation INVALID_OFFSET :: u16 where "INVALID_OFFSET \<equiv> 0xffff"

definition sizes :: "nat list" where
  "sizes = [16, 32, 64, 128, 256, 512, 1024, 2048]"

definition PR_PAGEADDR :: "pageref \<Rightarrow> vaddr" where
  "PR_PAGEADDR pr = pageaddr_and_blocktype pr AND PAGE_FRAME"

definition PR_BLOCKTYPE :: "pageref \<Rightarrow> nat" where
  "PR_BLOCKTYPE pr = unat (pageaddr_and_blocktype pr AND NOT PAGE_FRAME)"

definition MKPAB :: "vaddr \<Rightarrow> nat \<Rightarrow> u32" where
  "MKPAB pa blk = (pa AND PAGE_FRAME) OR (of_nat blk AND NOT PAGE_FRAME)"

text \<open>Words of kernel memory.\<close>

definition kload :: "vaddr \<Rightarrow> 'a vm_scheme \<Rightarrow> u32" where
  "kload a s = ram s (unat (a - MIPS_KSEG0))"

definition kstore :: "vaddr \<Rightarrow> u32 \<Rightarrow> 'a vm_scheme \<Rightarrow> 'a vm_scheme" where
  "kstore a w s = s\<lparr>ram := (ram s)(unat (a - MIPS_KSEG0) := w)\<rparr>"

definition fill_deadbeef :: "vaddr \<Rightarrow> nat \<Rightarrow> 'a vm_scheme \<Rightarrow> 'a vm_scheme" where
  "fill_deadbeef a len s = s\<lparr>ram := (\<lambda>x. if unat (a - MIPS_KSEG0) \<le> x \<and> x < unat (a - MIPS_KSEG0) + len
     then 0xdeadbeef else ram s x)\<rparr>"

section \<open>Pagerefs\<close>

definition allocpagerefpage :: "nat \<Rightarrow> kheap \<Rightarrow> kheap option" where
  "allocpagerefpage r s = do {
     root \<leftarrow> rd (kheaproots s) r;
     _ \<leftarrow> kassert (rpage root = 0);
     (va, s1) \<leftarrow> alloc_kpages 1 s;
     if va = 0 then Some s1
     else do {
       _ \<leftarrow> kassert (unat va mod PAGE_SIZE = 0);
       root1 \<leftarrow> rd (kheaproots s1) r;
       if rpage root1 \<noteq> 0 then free_kpages va s1
       else do {
         roots \<leftarrow> wr (kheaproots s1) r (root1\<lparr>rpage := va\<rparr>);
         Some (s1\<lparr>kheaproots := roots\<rparr>) } } }"

text \<open>The first word that is not full, and the first clear bit of a word.\<close>

definition inuse_word :: "u32 list \<Rightarrow> nat option" where
  "inuse_word ws = find (\<lambda>i. ws ! i \<noteq> 0xffffffff) [0..<INUSE_WORDS]"

definition clear_bit :: "u32 \<Rightarrow> nat option" where
  "clear_bit w = find (\<lambda>j. w AND push_bit j 1 = 0) [0..<32]"

function allocpageref_from :: "nat \<Rightarrow> kheap \<Rightarrow> (nat option \<times> kheap) option" where
  "allocpageref_from r s = (
     if r < NUM_PAGEREFPAGES then do {
       root \<leftarrow> rd (kheaproots s) r;
       if NPAGEREFS_PER_PAGE \<le> numinuse root then allocpageref_from (r + 1) s
       else (case inuse_word (pagerefs_inuse root) of
          None \<Rightarrow> allocpageref_from (r + 1) s
        | Some i \<Rightarrow> do {
            w \<leftarrow> rd (pagerefs_inuse root) i;
            j \<leftarrow> clear_bit w;
            ws \<leftarrow> wr (pagerefs_inuse root) i (w OR push_bit j 1);
            roots \<leftarrow> wr (kheaproots s) r (root\<lparr>pagerefs_inuse := ws, numinuse := numinuse root + 1\<rparr>);
            let s1 = s\<lparr>kheaproots := roots\<rparr>;
            s2 \<leftarrow> (if rpage root = 0 then allocpagerefpage r s1 else Some s1);
            root2 \<leftarrow> rd (kheaproots s2) r;
            if rpage root2 = 0 then Some (None, s2)
            else Some (Some (r * NPAGEREFS_PER_PAGE + (i * 32 + j)), s2) }) }
     else Some (None, s))"
  by pat_completeness auto
termination
  by (relation "measure (\<lambda>(r, s). NUM_PAGEREFPAGES - r)") auto

declare allocpageref_from.simps [simp del]

definition allocpageref :: "kheap \<Rightarrow> (nat option \<times> kheap) option" where
  "allocpageref s = allocpageref_from 0 s"

function freepageref_from :: "nat \<Rightarrow> nat \<Rightarrow> kheap \<Rightarrow> kheap option" where
  "freepageref_from r p s = (
     if r < NUM_PAGEREFPAGES then do {
       root \<leftarrow> rd (kheaproots s) r;
       if rpage root = 0 then do {
         _ \<leftarrow> kassert (numinuse root = 0);
         freepageref_from (r + 1) p s }
       else if p div NPAGEREFS_PER_PAGE = r then do {
         let j = p mod NPAGEREFS_PER_PAGE;
         w \<leftarrow> rd (pagerefs_inuse root) (j div 32);
         _ \<leftarrow> kassert (w AND push_bit (j mod 32) 1 \<noteq> 0);
         ws \<leftarrow> wr (pagerefs_inuse root) (j div 32) (w AND NOT (push_bit (j mod 32) 1));
         _ \<leftarrow> kassert (0 < numinuse root);
         roots \<leftarrow> wr (kheaproots s) r (root\<lparr>pagerefs_inuse := ws, numinuse := numinuse root - 1\<rparr>);
         Some (s\<lparr>kheaproots := roots\<rparr>) }
       else freepageref_from (r + 1) p s }
     else None)"
  by pat_completeness auto
termination
  by (relation "measure (\<lambda>(r, p, s). NUM_PAGEREFPAGES - r)") auto

declare freepageref_from.simps [simp del]

definition freepageref :: "nat \<Rightarrow> kheap \<Rightarrow> kheap option" where
  "freepageref p s = freepageref_from 0 p s"

section \<open>Subpage blocks\<close>

definition remove_lists :: "nat \<Rightarrow> nat \<Rightarrow> kheap \<Rightarrow> kheap option" where
  "remove_lists pr blktype s = do {
     _ \<leftarrow> kassert (blktype < NSIZES);
     l \<leftarrow> rd (sizebases s) blktype;
     sb \<leftarrow> wr (sizebases s) blktype (remove1 pr l);
     Some (s\<lparr>sizebases := sb, allbase := remove1 pr (allbase s)\<rparr>) }"

definition blocktype :: "nat \<Rightarrow> nat option" where
  "blocktype clientsz = find (\<lambda>i. clientsz \<le> sizes ! i) [0..<NSIZES]"

text \<open>The scan of \<^verbatim>\<open>sizebases[blktype]\<close> for a page with a free block.\<close>

fun find_page :: "nat \<Rightarrow> nat list \<Rightarrow> kheap \<Rightarrow> nat option option" where
  "find_page blktype [] s = Some None"
| "find_page blktype (p # ps) s = do {
     _ \<leftarrow> kassert (PR_BLOCKTYPE (prs s p) = blktype);
     if 0 < nfree (prs s p) then Some (Some p) else find_page blktype ps s }"

text \<open>The code at the label \<^verbatim>\<open>doalloc\<close>.\<close>

definition doalloc :: "nat \<Rightarrow> kheap \<Rightarrow> (vaddr \<times> kheap) option" where
  "doalloc p s = do {
     let pr = prs s p;
     _ \<leftarrow> kassert (unat (freelist_offset pr) < PAGE_SIZE);
     let prpage = PR_PAGEADDR pr;
     let fla = prpage + ucast (freelist_offset pr);
     let fl = kload fla s;
     let pr1 = pr\<lparr>nfree := nfree pr - 1\<rparr>;
     if fl \<noteq> 0 then do {
       _ \<leftarrow> kassert (0 < nfree pr1);
       _ \<leftarrow> kassert (unat (fl - prpage) < PAGE_SIZE);
       Some (fla, s\<lparr>prs := (prs s)(p := pr1\<lparr>freelist_offset := ucast (fl - prpage)\<rparr>)\<rparr>) }
     else do {
       _ \<leftarrow> kassert (nfree pr1 = 0);
       Some (fla, s\<lparr>prs := (prs s)(p := pr1\<lparr>freelist_offset := INVALID_OFFSET\<rparr>)\<rparr>) } }"

text \<open>The loop that threads the free list through a fresh page: block \<open>i\<close> points to block \<open>i - 1\<close>.\<close>

function thread_blocks :: "vaddr \<Rightarrow> nat \<Rightarrow> nat \<Rightarrow> nat \<Rightarrow> kheap \<Rightarrow> kheap" where
  "thread_blocks fla sz i n s = (
     if i < n then
       thread_blocks fla sz (i + 1) n (kstore (fla + of_nat (i * sz)) (fla + of_nat ((i - 1) * sz)) s)
     else s)"
  by pat_completeness auto
termination
  by (relation "measure (\<lambda>(fla, sz, i, n, s). n - i)") auto

declare thread_blocks.simps [simp del]

definition newpage :: "nat \<Rightarrow> vaddr \<Rightarrow> nat \<Rightarrow> kheap \<Rightarrow> kheap option" where
  "newpage p prpage blktype s = do {
     let sz = sizes ! blktype;
     let n = PAGE_SIZE div sz;
     let s1 = thread_blocks prpage sz 1 n (kstore prpage 0 s);
     let off = (n - 1) * sz;
     l \<leftarrow> rd (sizebases s1) blktype;
     sb \<leftarrow> wr (sizebases s1) blktype (p # l);
     Some (s1\<lparr>prs := (prs s1)(p := \<lparr>pageaddr_and_blocktype = MKPAB prpage blktype,
                freelist_offset = of_nat off, nfree = of_nat n\<rparr>),
              sizebases := sb, allbase := p # allbase s1\<rparr>) }"

definition subpage_kmalloc :: "nat \<Rightarrow> kheap \<Rightarrow> (vaddr \<times> kheap) option" where
  "subpage_kmalloc sz s = do {
     blktype \<leftarrow> blocktype sz;
     l \<leftarrow> rd (sizebases s) blktype;
     found \<leftarrow> find_page blktype l s;
     (case found of
        Some p \<Rightarrow> doalloc p s
      | None \<Rightarrow> do {
          (prpage, s1) \<leftarrow> alloc_kpages 1 s;
          if prpage = 0 then Some (0, s1)
          else do {
            _ \<leftarrow> kassert (unat prpage mod PAGE_SIZE = 0);
            (pr, s2) \<leftarrow> allocpageref s1;
            (case pr of
               None \<Rightarrow> do { s3 \<leftarrow> free_kpages prpage s2; Some (0, s3) }
             | Some p \<Rightarrow> do { s3 \<leftarrow> newpage p prpage blktype s2; doalloc p s3 }) } }) }"

text \<open>The scan of \<^verbatim>\<open>allbase\<close> for the page a pointer lies on.\<close>

fun find_owner :: "vaddr \<Rightarrow> nat list \<Rightarrow> kheap \<Rightarrow> nat option option" where
  "find_owner ptr [] s = Some None"
| "find_owner ptr (p # ps) s = do {
     let prpage = PR_PAGEADDR (prs s p);
     _ \<leftarrow> kassert (PR_BLOCKTYPE (prs s p) < NSIZES);
     if prpage \<le> ptr \<and> ptr < prpage + 4096 then Some (Some p) else find_owner ptr ps s }"

text \<open>The result says whether the pointer was a subpage block.\<close>

definition subpage_kfree :: "vaddr \<Rightarrow> kheap \<Rightarrow> (bool \<times> kheap) option" where
  "subpage_kfree ptr s = do {
     owner \<leftarrow> find_owner ptr (allbase s) s;
     (case owner of
        None \<Rightarrow> Some (False, s)
      | Some p \<Rightarrow> do {
          let pr = prs s p;
          let prpage = PR_PAGEADDR pr;
          let blktype = PR_BLOCKTYPE pr;
          let sz = sizes ! blktype;
          let offset = ptr - prpage;
          _ \<leftarrow> kassert (\<not> (PAGE_SIZE \<le> unat offset \<or> unat offset mod sz \<noteq> 0));
          let s1 = fill_deadbeef ptr sz s;
          let nxt = (if freelist_offset pr = INVALID_OFFSET then 0 else prpage + ucast (freelist_offset pr));
          let s2 = kstore ptr nxt s1;
          _ \<leftarrow> kassert (freelist_offset pr = INVALID_OFFSET \<or> ptr \<noteq> nxt);
          let pr1 = pr\<lparr>freelist_offset := ucast offset, nfree := nfree pr + 1\<rparr>;
          let s3 = s2\<lparr>prs := (prs s2)(p := pr1)\<rparr>;
          _ \<leftarrow> kassert (unat (nfree pr1) \<le> PAGE_SIZE div sz);
          if unat (nfree pr1) = PAGE_SIZE div sz then do {
            s4 \<leftarrow> remove_lists p blktype s3;
            s5 \<leftarrow> freepageref p s4;
            s6 \<leftarrow> free_kpages prpage s5;
            Some (True, s6) }
          else Some (True, s3) }) }"

section \<open>The interface\<close>

definition kmalloc :: "u32 \<Rightarrow> kheap \<Rightarrow> (vaddr \<times> kheap) option" where
  "kmalloc sz s = (
     if LARGEST_SUBPAGE_SIZE \<le> sz then do {
       let npages = unat ((sz + 4096 - 1) div 4096);
       (address, s1) \<leftarrow> alloc_kpages npages s;
       if address = 0 then Some (0, s1)
       else do { _ \<leftarrow> kassert (unat address mod PAGE_SIZE = 0); Some (address, s1) } }
     else subpage_kmalloc (unat sz) s)"

definition kfree :: "vaddr \<Rightarrow> kheap \<Rightarrow> kheap option" where
  "kfree ptr s = (
     if ptr = 0 then Some s
     else do {
       (ours, s1) \<leftarrow> subpage_kfree ptr s;
       if ours then Some s1
       else do {
         _ \<leftarrow> kassert (unat ptr mod PAGE_SIZE = 0);
         free_kpages ptr s1 } })"

section \<open>Addresses\<close>

abbreviation KV :: "nat \<Rightarrow> vaddr" where "KV p \<equiv> PADDR_TO_KVADDR p"

lemma KV_add: "KV p + of_nat k = KV (p + k)"
  by (simp add: PADDR_TO_KVADDR_def)

lemma phys_KV [simp]: "p < 4294967296 \<Longrightarrow> unat (KV p - MIPS_KSEG0) = p"
  by (simp only: KV_sub unat_of_nat_u32)

lemma KV_nonzero: "p < 2147483648 \<Longrightarrow> KV p \<noteq> 0"
  using unat_KV [of p] by auto

lemma KV_inj: "p < 4294967296 \<Longrightarrow> q < 4294967296 \<Longrightarrow> KV p = KV q \<longleftrightarrow> p = q"
  by (metis phys_KV)

lemma KV_le: "p < 2147483648 \<Longrightarrow> q < 2147483648 \<Longrightarrow> KV p \<le> KV q \<longleftrightarrow> p \<le> q"
  and KV_less: "p < 2147483648 \<Longrightarrow> q < 2147483648 \<Longrightarrow> KV p < KV q \<longleftrightarrow> p < q"
  by (simp_all add: word_le_nat_alt word_less_nat_alt unat_KV)

lemma KV_diff: "KV (p + k) - KV p = of_nat k"
  by (simp add: PADDR_TO_KVADDR_def)

text \<open>A page address has its low twelve bits clear, so that a block type can be kept there.\<close>

lemma frame_mask: "PAGE_FRAME = NOT (mask 12 :: u32)"
  by (simp add: mask_eq_exp_minus_1)

lemma and_frame_page: "KV (g * PAGE_SIZE) AND PAGE_FRAME = KV (g * PAGE_SIZE)"
proof -
  have "KV (g * PAGE_SIZE) = push_bit 12 (of_nat g + 0x80000)"
    by (simp add: PADDR_TO_KVADDR_def push_bit_eq_mult algebra_simps)
  then show ?thesis unfolding frame_mask
    by (simp add: bit_eq_iff bit_simps) auto
qed

lemma and_small_frame: "b < 4096 \<Longrightarrow> (of_nat b :: u32) AND PAGE_FRAME = 0"
  "b < 4096 \<Longrightarrow> (of_nat b :: u32) AND NOT PAGE_FRAME = of_nat b"
proof -
  assume "b < 4096"
  then have "unat ((of_nat b :: u32) mod 4096) = unat (of_nat b :: u32)"
    by (simp add: unat_mod_distrib unat_of_nat_u32)
  then have "(of_nat b :: u32) mod 4096 = of_nat b" by (rule unsigned_word_eqI)
  then have "(of_nat b :: u32) AND mask 12 = of_nat b"
    by (simp add: take_bit_eq_mask [symmetric] take_bit_eq_mod)
  then show "(of_nat b :: u32) AND PAGE_FRAME = 0" "(of_nat b :: u32) AND NOT PAGE_FRAME = of_nat b"
    unfolding frame_mask by (metis bit.conj_cancel_right bit.conj_zero_right word_bw_assocs(1), simp)
qed

lemma PR_MKPAB:
  assumes "pageaddr_and_blocktype pr = MKPAB (KV (g * PAGE_SIZE)) b" "b < NSIZES"
  shows "PR_PAGEADDR pr = KV (g * PAGE_SIZE)" "PR_BLOCKTYPE pr = b"
proof -
  have b: "b < 4096" using assms(2) by simp
  have e: "pageaddr_and_blocktype pr = KV (g * PAGE_SIZE) OR of_nat b"
    unfolding assms(1) MKPAB_def by (simp only: and_frame_page and_small_frame(2) [OF b])
  have "KV (g * PAGE_SIZE) AND NOT PAGE_FRAME = 0"
    using and_frame_page [of g] by (metis bit.conj_cancel_right bit.conj_zero_right word_bw_assocs(1))
  then show "PR_PAGEADDR pr = KV (g * PAGE_SIZE)" "PR_BLOCKTYPE pr = b"
    unfolding PR_PAGEADDR_def PR_BLOCKTYPE_def e bit.conj_disj_distrib2 and_small_frame [OF b] and_frame_page
    using b by (simp_all add: unat_of_nat_u32)
qed

section \<open>Free lists\<close>

text \<open>The free list of a page: the physical addresses its links run through.\<close>

fun fl_list :: "(nat \<Rightarrow> u32) \<Rightarrow> vaddr \<Rightarrow> nat list \<Rightarrow> bool" where
  "fl_list m a [] \<longleftrightarrow> a = 0"
| "fl_list m a (x # xs) \<longleftrightarrow> a = KV x \<and> fl_list m (m x) xs"

fun fl_walk :: "(nat \<Rightarrow> u32) \<Rightarrow> vaddr \<Rightarrow> nat \<Rightarrow> nat list" where
  "fl_walk m a 0 = []"
| "fl_walk m a (Suc n) = (let x = unat (a - MIPS_KSEG0) in x # fl_walk m (m x) n)"

lemma fl_walk_list: "fl_list m a xs \<Longrightarrow> \<forall>x\<in>set xs. x < 4294967296 \<Longrightarrow> fl_walk m a (length xs) = xs"
  by (induction xs arbitrary: a) (auto simp: Let_def)

lemma fl_list_frame: "(\<And>x. x \<in> set xs \<Longrightarrow> m' x = m x) \<Longrightarrow> fl_list m' a xs \<longleftrightarrow> fl_list m a xs"
  by (induction xs arbitrary: a) auto

definition pr_head :: "pageref \<Rightarrow> vaddr" where
  "pr_head pr = (if freelist_offset pr = INVALID_OFFSET then 0 else PR_PAGEADDR pr + ucast (freelist_offset pr))"

definition pr_size :: "pageref \<Rightarrow> nat" where
  "pr_size pr = sizes ! PR_BLOCKTYPE pr"

definition pr_count :: "pageref \<Rightarrow> nat" where
  "pr_count pr = PAGE_SIZE div pr_size pr"

text \<open>Block \<open>k\<close> of a page of type \<open>b\<close>.\<close>

definition page_blocks :: "nat \<Rightarrow> nat \<Rightarrow> nat set" where
  "page_blocks g sz = {g * PAGE_SIZE + k * sz | k. k < PAGE_SIZE div sz}"

definition pr_ok :: "(nat \<Rightarrow> u32) \<Rightarrow> nat \<Rightarrow> pageref \<Rightarrow> nat list \<Rightarrow> bool" where
  "pr_ok m g pr xs \<longleftrightarrow> g < 131072 \<and> PR_PAGEADDR pr = KV (g * PAGE_SIZE) \<and> PR_BLOCKTYPE pr < NSIZES
     \<and> fl_list m (pr_head pr) xs \<and> distinct xs \<and> set xs \<subseteq> page_blocks g (pr_size pr)
     \<and> length xs = unat (nfree pr)"

lemma sizes_cases:
  assumes "b < NSIZES"
  obtains "sizes ! b = 16" | "sizes ! b = 32" | "sizes ! b = 64" | "sizes ! b = 128"
    | "sizes ! b = 256" | "sizes ! b = 512" | "sizes ! b = 1024" | "sizes ! b = 2048"
proof -
  have "b = 0 \<or> b = 1 \<or> b = 2 \<or> b = 3 \<or> b = 4 \<or> b = 5 \<or> b = 6 \<or> b = 7" using assms by linarith
  then show thesis using that by (auto simp: sizes_def)
qed

lemma sizes_facts:
  assumes "b < NSIZES"
  shows "16 \<le> sizes ! b" "sizes ! b \<le> 2048" "PAGE_SIZE div sizes ! b * sizes ! b = PAGE_SIZE"
    "2 \<le> PAGE_SIZE div sizes ! b" "PAGE_SIZE div sizes ! b \<le> 256"
  using assms by (rule sizes_cases, simp_all)+

lemma page_block_bounds:
  assumes "x \<in> page_blocks g (sizes ! b)" "b < NSIZES"
  shows "g * PAGE_SIZE \<le> x" "x + sizes ! b \<le> g * PAGE_SIZE + PAGE_SIZE" "(x - g * PAGE_SIZE) mod sizes ! b = 0"
proof -
  obtain k where k: "x = g * PAGE_SIZE + k * sizes ! b" "k < PAGE_SIZE div sizes ! b"
    using assms(1) by (auto simp: page_blocks_def)
  then have "(k + 1) * sizes ! b \<le> PAGE_SIZE div sizes ! b * sizes ! b" by (intro mult_right_mono) auto
  then show "g * PAGE_SIZE \<le> x" "x + sizes ! b \<le> g * PAGE_SIZE + PAGE_SIZE" "(x - g * PAGE_SIZE) mod sizes ! b = 0"
    using k(1) sizes_facts(3) [OF assms(2)] by (simp_all add: algebra_simps)
qed

lemma page_blocks_apart:
  assumes "x \<in> page_blocks g sz" "y \<in> page_blocks g sz" "x \<noteq> y"
  shows "x + sz \<le> y \<or> y + sz \<le> x"
proof -
  obtain i j where ij: "x = g * PAGE_SIZE + i * sz" "y = g * PAGE_SIZE + j * sz"
    using assms(1,2) by (auto simp: page_blocks_def)
  then have "i < j \<or> j < i" using assms(3) by (cases i j rule: linorder_cases) auto
  then have "(i + 1) * sz \<le> j * sz \<or> (j + 1) * sz \<le> i * sz" by (metis Suc_eq_plus1 Suc_leI mult_le_mono1)
  then show ?thesis using ij by (auto simp: algebra_simps)
qed

lemma unat_ucast_16_32: "unat (ucast (x :: u16) :: u32) = unat x"
proof -
  have "unat x < 2 ^ 16" using unsigned_less [of x] by simp
  then show ?thesis by (simp add: unsigned_ucast_eq take_bit_nat_eq_self)
qed

text \<open>An offset within a page fits the sixteen-bit field.\<close>

lemma offset_u16:
  assumes "d < PAGE_SIZE"
  shows "unat (ucast (of_nat d :: u32) :: u16) = d" "(ucast (ucast (of_nat d :: u32) :: u16) :: u32) = of_nat d"
    "(ucast (of_nat d :: u32) :: u16) \<noteq> INVALID_OFFSET"
proof -
  show u: "unat (ucast (of_nat d :: u32) :: u16) = d"
    using assms by (simp add: unsigned_ucast_eq take_bit_eq_mod unat_of_nat unsigned_of_nat)
  have "unat (ucast (ucast (of_nat d :: u32) :: u16) :: u32) = unat (ucast (of_nat d :: u32) :: u16)"
    by (rule unat_ucast_16_32)
  then have "unat (ucast (ucast (of_nat d :: u32) :: u16) :: u32) = unat (of_nat d :: u32)"
    using u assms by (simp add: unat_of_nat_u32)
  then show "(ucast (ucast (of_nat d :: u32) :: u16) :: u32) = of_nat d" by (rule unsigned_word_eqI)
  show "(ucast (of_nat d :: u32) :: u16) \<noteq> INVALID_OFFSET"
    using u assms by auto
qed

lemma pr_okD:
  assumes "pr_ok m g pr xs" "x \<in> set xs"
  shows "g * PAGE_SIZE \<le> x" "x + pr_size pr \<le> g * PAGE_SIZE + PAGE_SIZE" "x < g * PAGE_SIZE + PAGE_SIZE" "x < 536870912"
proof -
  have b: "x \<in> page_blocks g (sizes ! PR_BLOCKTYPE pr)" "PR_BLOCKTYPE pr < NSIZES" and g: "g < 131072"
    using assms by (auto simp: pr_ok_def pr_size_def)
  show 1: "g * PAGE_SIZE \<le> x" "x + pr_size pr \<le> g * PAGE_SIZE + PAGE_SIZE"
    using page_block_bounds [OF b] by (simp_all add: pr_size_def)
  then show 2: "x < g * PAGE_SIZE + PAGE_SIZE" using sizes_facts(1) [OF b(2)] by (simp add: pr_size_def)
  then show "x < 536870912" using g by linarith
qed

text \<open>The fields of a pageref whose list starts at a given block.\<close>

lemma pr_head_set:
  assumes "PR_PAGEADDR pr = KV (g * PAGE_SIZE)" "g * PAGE_SIZE \<le> y" "y < g * PAGE_SIZE + PAGE_SIZE"
    "freelist_offset pr = ucast (KV y - KV (g * PAGE_SIZE))"
  shows "pr_head pr = KV y"
proof -
  have y: "y = g * PAGE_SIZE + (y - g * PAGE_SIZE)" and lt: "y - g * PAGE_SIZE < PAGE_SIZE" using assms(2,3) by auto
  have d: "KV y - KV (g * PAGE_SIZE) = of_nat (y - g * PAGE_SIZE)" by (subst y) (rule KV_diff)
  show ?thesis
    unfolding pr_head_def assms(1,4) d offset_u16(2) [OF lt]
    using offset_u16(3) [OF lt] by (simp only: if_False KV_add y [symmetric])
qed

lemma pr_head_KV:
  assumes "pr_head pr = KV x" "PR_PAGEADDR pr = KV (g * PAGE_SIZE)" "g * PAGE_SIZE \<le> x" "x < g * PAGE_SIZE + PAGE_SIZE"
    "x < 536870912"
  shows "unat (freelist_offset pr) = x - g * PAGE_SIZE" "PR_PAGEADDR pr + ucast (freelist_offset pr) = KV x"
    "freelist_offset pr \<noteq> INVALID_OFFSET"
proof -
  have "KV x \<noteq> 0" using KV_nonzero [of x] assms(5) by simp
  then show ni: "freelist_offset pr \<noteq> INVALID_OFFSET" using assms(1) by (auto simp: pr_head_def)
  then show e: "PR_PAGEADDR pr + ucast (freelist_offset pr) = KV x" using assms(1) by (simp add: pr_head_def)
  have "KV x = KV (g * PAGE_SIZE) + of_nat (x - g * PAGE_SIZE)" unfolding KV_add using assms(3) by simp
  with e assms(2) have "ucast (freelist_offset pr) = (of_nat (x - g * PAGE_SIZE) :: u32)" by simp
  moreover have "unat (of_nat (x - g * PAGE_SIZE) :: u32) = x - g * PAGE_SIZE"
    using assms(3,4) by (intro unat_of_nat_u32) linarith
  ultimately have "unat (ucast (freelist_offset pr) :: u32) = x - g * PAGE_SIZE" by (simp only:)
  then show "unat (freelist_offset pr) = x - g * PAGE_SIZE" by (simp only: unat_ucast_16_32)
qed

lemma PR_fields [simp]:
  "PR_PAGEADDR (pr\<lparr>freelist_offset := d, nfree := n\<rparr>) = PR_PAGEADDR pr" "PR_PAGEADDR (pr\<lparr>nfree := n\<rparr>) = PR_PAGEADDR pr"
  "PR_BLOCKTYPE (pr\<lparr>freelist_offset := d, nfree := n\<rparr>) = PR_BLOCKTYPE pr" "PR_BLOCKTYPE (pr\<lparr>nfree := n\<rparr>) = PR_BLOCKTYPE pr"
  "PR_PAGEADDR (pr\<lparr>freelist_offset := d\<rparr>) = PR_PAGEADDR pr" "PR_BLOCKTYPE (pr\<lparr>freelist_offset := d\<rparr>) = PR_BLOCKTYPE pr"
  by (simp_all add: PR_PAGEADDR_def PR_BLOCKTYPE_def)

lemma pr_size_fields [simp]:
  "pr_size (pr\<lparr>freelist_offset := d, nfree := n\<rparr>) = pr_size pr" "pr_size (pr\<lparr>nfree := n\<rparr>) = pr_size pr"
  "pr_size (pr\<lparr>freelist_offset := d\<rparr>) = pr_size pr"
  by (simp_all add: pr_size_def)

lemma unat_u16_dec: "unat (n :: u16) = Suc k \<Longrightarrow> unat (n - 1) = k"
  by (simp add: unat_sub_if')

lemma doalloc_ok:
  assumes ok: "pr_ok (ram s) g (prs s p) (x # xs)"
  obtains pr' where "doalloc p s = Some (KV x, s\<lparr>prs := (prs s)(p := pr')\<rparr>)" "pr_ok (ram s) g pr' xs"
    "PR_PAGEADDR pr' = PR_PAGEADDR (prs s p)" "PR_BLOCKTYPE pr' = PR_BLOCKTYPE (prs s p)"
proof -
  let ?pr = "prs s p"
  have h: "pr_head ?pr = KV x" "PR_PAGEADDR ?pr = KV (g * PAGE_SIZE)" "fl_list (ram s) (ram s x) xs"
    and n: "unat (nfree ?pr) = Suc (length xs)"
    using ok by (auto simp: pr_ok_def)
  note x = pr_okD [OF ok, of x, simplified]
  note hd = pr_head_KV [OF h(1,2) x(1,3,4)]
  have off: "unat (freelist_offset ?pr) < PAGE_SIZE" using hd(1) x by simp
  have ld: "kload (KV x) s = ram s x" using x(4) by (simp add: kload_def)
  have n1: "unat (nfree ?pr - 1) = length xs" by (rule unat_u16_dec [OF n])
  show thesis
  proof (cases xs)
    case Nil
    then have z: "ram s x = 0" "nfree ?pr - 1 = 0" using h(3) n1 by (auto simp: unat_eq_zero)
    let ?pr' = "?pr\<lparr>nfree := nfree ?pr - 1, freelist_offset := INVALID_OFFSET\<rparr>"
    have "doalloc p s = Some (KV x, s\<lparr>prs := (prs s)(p := ?pr')\<rparr>)"
      using off z by (simp add: doalloc_def Let_def hd(2) ld)
    moreover have "pr_ok (ram s) g ?pr' xs"
      using ok Nil n1 by (simp add: pr_ok_def pr_head_def)
    ultimately show thesis using that by simp
  next
    case (Cons y ys)
    then have y: "ram s x = KV y" using h(3) by simp
    note yb = pr_okD [OF ok, of y, simplified Cons, simplified]
    let ?pr' = "?pr\<lparr>nfree := nfree ?pr - 1, freelist_offset := ucast (KV y - KV (g * PAGE_SIZE))\<rparr>"
    have d: "KV y - KV (g * PAGE_SIZE) = of_nat (y - g * PAGE_SIZE)"
      using KV_diff [of "g * PAGE_SIZE" "y - g * PAGE_SIZE"] yb(1) by simp
    have "0 < nfree ?pr - 1" using n1 Cons by (simp add: word_less_nat_alt)
    moreover have "unat (KV y - KV (g * PAGE_SIZE)) < PAGE_SIZE"
      unfolding d using yb by (subst unat_of_nat_u32) linarith+
    moreover have "KV y \<noteq> 0" using KV_nonzero [of y] yb(4) by simp
    ultimately have "doalloc p s = Some (KV x, s\<lparr>prs := (prs s)(p := ?pr')\<rparr>)"
      using off by (simp add: doalloc_def Let_def hd(2) [unfolded h(2)] ld y h(2))
    moreover have "pr_head ?pr' = KV y" by (rule pr_head_set [OF _ yb(1,3)]) (simp_all add: h(2))
    then have "pr_ok (ram s) g ?pr' xs" using ok Cons n1 h(3) y by (auto simp: pr_ok_def)
    ultimately show thesis using that by simp
  qed
qed

text \<open>Putting a block back: its words change, those of the other free blocks do not.\<close>

definition put_block :: "nat \<Rightarrow> nat \<Rightarrow> u32 \<Rightarrow> (nat \<Rightarrow> u32) \<Rightarrow> (nat \<Rightarrow> u32)" where
  "put_block x sz nxt m = (\<lambda>y. if x \<le> y \<and> y < x + sz then 0xdeadbeef else m y)(x := nxt)"

lemma put_block_other: "y < x \<or> x + sz \<le> y \<Longrightarrow> 0 < sz \<Longrightarrow> put_block x sz nxt m y = m y"
  by (auto simp: put_block_def)

lemma pr_ok_put:
  assumes ok: "pr_ok m g pr xs" and x: "x \<in> page_blocks g (pr_size pr)" "x \<notin> set xs"
    and n: "unat (nfree pr) < PAGE_SIZE"
  shows "pr_ok (put_block x (pr_size pr) (pr_head pr) m) g
     (pr\<lparr>freelist_offset := ucast (KV x - PR_PAGEADDR pr), nfree := nfree pr + 1\<rparr>) (x # xs)" (is "pr_ok ?m g ?pr _")
proof -
  have b: "PR_BLOCKTYPE pr < NSIZES" and pg: "PR_PAGEADDR pr = KV (g * PAGE_SIZE)" using ok by (auto simp: pr_ok_def)
  note xb = page_block_bounds [OF x(1) [unfolded pr_size_def] b]
  have sz: "0 < pr_size pr" using sizes_facts(1) [OF b] by (simp add: pr_size_def)
  have lt: "x < g * PAGE_SIZE + PAGE_SIZE" using xb(2) sz by (simp add: pr_size_def)
  have hd: "pr_head ?pr = KV x" by (rule pr_head_set [OF _ xb(1) lt]) (simp_all add: pg)
  have "?m y = m y" if "y \<in> set xs" for y
  proof -
    have "y \<in> page_blocks g (pr_size pr)" "y \<noteq> x" using that ok x(2) by (auto simp: pr_ok_def)
    with page_blocks_apart [OF x(1)] have "x + pr_size pr \<le> y \<or> y + pr_size pr \<le> x" by blast
    then show ?thesis using sz by (intro put_block_other) auto
  qed
  then have "fl_list ?m (pr_head pr) xs" using fl_list_frame [of xs ?m m] ok by (auto simp: pr_ok_def)
  moreover have "unat (nfree pr + 1) = unat (nfree pr) + 1"
    using n by (simp add: unat_word_ariths)
  ultimately show ?thesis
    using ok x hd by (auto simp: pr_ok_def put_block_def)
qed

lemma pr_ok_frame:
  assumes "pr_ok m g pr xs" "\<And>x. g * PAGE_SIZE \<le> x \<Longrightarrow> x < g * PAGE_SIZE + PAGE_SIZE \<Longrightarrow> m' x = m x"
  shows "pr_ok m' g pr xs"
proof -
  have "m' x = m x" if "x \<in> set xs" for x using assms(2) pr_okD(1,3) [OF assms(1) that] by blast
  then show ?thesis using assms(1) fl_list_frame [of xs m' m] by (simp add: pr_ok_def)
qed

text \<open>The free list of a fresh page runs from the last block to the first.\<close>

lemma thread_blocks_spec:
  assumes "g < 131072" "1 \<le> i" "i \<le> n" "n * sz \<le> PAGE_SIZE" "0 < sz"
    and "fl_list (ram s) (KV (g * PAGE_SIZE + (i - 1) * sz)) (rev (map (\<lambda>k. g * PAGE_SIZE + k * sz) [0..<i]))"
  shows "\<exists>m'. thread_blocks (KV (g * PAGE_SIZE)) sz i n s = s\<lparr>ram := m'\<rparr>
    \<and> fl_list m' (KV (g * PAGE_SIZE + (n - 1) * sz)) (rev (map (\<lambda>k. g * PAGE_SIZE + k * sz) [0..<n]))
    \<and> (\<forall>x. x < g * PAGE_SIZE \<or> g * PAGE_SIZE + PAGE_SIZE \<le> x \<longrightarrow> m' x = ram s x)"
  using assms(2-6)
proof (induction "KV (g * PAGE_SIZE)" sz i n s rule: thread_blocks.induct)
  case (1 sz i n s)
  show ?case
  proof (cases "i < n")
    case False
    with "1.prems" show ?thesis by (intro exI [of _ "ram s"]) (simp add: thread_blocks.simps)
  next
    case True
    let ?a = "g * PAGE_SIZE + i * sz" and ?l = "\<lambda>i. rev (map (\<lambda>k. g * PAGE_SIZE + k * sz) [0..<i])"
    let ?s = "kstore (KV (g * PAGE_SIZE) + of_nat (i * sz)) (KV (g * PAGE_SIZE) + of_nat ((i - 1) * sz)) s"
    have "(i + 1) * sz \<le> n * sz" using True by (intro mult_right_mono) auto
    then have isz: "i * sz < PAGE_SIZE" using "1.prems"(3,4) by (simp add: algebra_simps)
    have a: "?a < 4294967296" using assms(1) isz by linarith
    have ram: "ram ?s = (ram s)(?a := KV (g * PAGE_SIZE + (i - 1) * sz))"
      unfolding kstore_def KV_add using a by simp
    have "?a \<notin> set (?l i)" using "1.prems"(4) by auto
    then have "ram ?s x = ram s x" if "x \<in> set (?l i)" for x unfolding ram using that by (metis fun_upd_other)
    then have "fl_list (ram ?s) (KV (g * PAGE_SIZE + (i - 1) * sz)) (?l i)"
      using fl_list_frame [of "?l i" "ram ?s" "ram s"] "1.prems"(5) by blast
    moreover have "ram ?s ?a = KV (g * PAGE_SIZE + (i - 1) * sz)" unfolding ram by simp
    ultimately have "fl_list (ram ?s) (KV (g * PAGE_SIZE + (i + 1 - 1) * sz)) (?l (i + 1))"
      by (simp del: of_nat_mult)
    from "1.hyps" [OF True _ _ "1.prems"(3,4) this] True obtain m' where
      m': "thread_blocks (KV (g * PAGE_SIZE)) sz (i + 1) n ?s = ?s\<lparr>ram := m'\<rparr>"
        "fl_list m' (KV (g * PAGE_SIZE + (n - 1) * sz)) (?l n)"
        "\<forall>x. x < g * PAGE_SIZE \<or> g * PAGE_SIZE + PAGE_SIZE \<le> x \<longrightarrow> m' x = ram ?s x" by auto
    have "thread_blocks (KV (g * PAGE_SIZE)) sz i n s = s\<lparr>ram := m'\<rparr>"
      using True m'(1) by (subst thread_blocks.simps) (simp add: kstore_def)
    moreover have "m' x = ram s x" if "x < g * PAGE_SIZE \<or> g * PAGE_SIZE + PAGE_SIZE \<le> x" for x
      using m'(3) [rule_format, OF that] that isz unfolding ram by auto
    ultimately show ?thesis using m'(2) by blast
  qed
qed

lemma of_nat_u16:
  assumes "d < PAGE_SIZE"
  shows "(of_nat d :: u16) = ucast (of_nat d :: u32)"
proof (rule unsigned_word_eqI)
  show "unat (of_nat d :: u16) = unat (ucast (of_nat d :: u32) :: u16)"
    using assms by (simp add: offset_u16(1) unat_of_nat)
qed

definition all_blocks :: "nat \<Rightarrow> nat \<Rightarrow> nat list" where
  "all_blocks g sz = rev (map (\<lambda>k. g * PAGE_SIZE + k * sz) [0..<PAGE_SIZE div sz])"

lemma set_all_blocks: "set (all_blocks g sz) = page_blocks g sz"
  by (auto simp: all_blocks_def page_blocks_def)

lemma distinct_all_blocks: "0 < sz \<Longrightarrow> distinct (all_blocks g sz)"
  by (auto simp: all_blocks_def distinct_map intro!: inj_onI)

lemma newpage_ok:
  assumes g: "g < 131072" and b: "b < NSIZES" and sb: "length (sizebases s) = NSIZES"
  obtains m' pr where "newpage p (KV (g * PAGE_SIZE)) b s = Some (s\<lparr>ram := m', prs := (prs s)(p := pr),
      sizebases := (sizebases s)[b := p # sizebases s ! b], allbase := p # allbase s\<rparr>)"
    "pr_ok m' g pr (all_blocks g (sizes ! b))" "PR_BLOCKTYPE pr = b" "PR_PAGEADDR pr = KV (g * PAGE_SIZE)"
    "\<And>x. x < g * PAGE_SIZE \<or> g * PAGE_SIZE + PAGE_SIZE \<le> x \<Longrightarrow> m' x = ram s x"
proof -
  define sz where "sz = sizes ! b"
  define n where "n = PAGE_SIZE div sz"
  note sf = sizes_facts [OF b, folded sz_def, folded n_def]
  define pr where "pr = \<lparr>pageaddr_and_blocktype = MKPAB (KV (g * PAGE_SIZE)) b,
     freelist_offset = of_nat ((n - 1) * sz), nfree = of_nat n\<rparr>"
  let ?s = "kstore (KV (g * PAGE_SIZE)) 0 s"
  have r0: "ram ?s = (ram s)(g * PAGE_SIZE := 0)" using g by (simp add: kstore_def)
  have "fl_list (ram ?s) (KV (g * PAGE_SIZE + (1 - 1) * sz)) (rev (map (\<lambda>k. g * PAGE_SIZE + k * sz) [0..<1]))"
    using g by (simp add: r0 KV_nonzero)
  from thread_blocks_spec [OF g _ _ _ _ this, of n] sf obtain m' where
    m': "thread_blocks (KV (g * PAGE_SIZE)) sz 1 n ?s = ?s\<lparr>ram := m'\<rparr>"
      "fl_list m' (KV (g * PAGE_SIZE + (n - 1) * sz)) (all_blocks g sz)"
      "\<And>x. x < g * PAGE_SIZE \<or> g * PAGE_SIZE + PAGE_SIZE \<le> x \<Longrightarrow> m' x = ram ?s x"
    by (auto simp: all_blocks_def n_def)
  have off: "(n - 1) * sz < PAGE_SIZE" using sf by (simp add: diff_mult_distrib)
  have pg: "PR_PAGEADDR pr = KV (g * PAGE_SIZE)" "PR_BLOCKTYPE pr = b"
    by (rule PR_MKPAB [OF _ b]; simp add: pr_def)+
  have "pr_head pr = KV (g * PAGE_SIZE + (n - 1) * sz)"
    by (rule pr_head_set [OF pg(1)]) (use off in \<open>simp_all add: KV_diff pr_def of_nat_u16 del: of_nat_mult\<close>)
  moreover have "length (all_blocks g sz) = unat (nfree pr)"
    using sf by (simp add: all_blocks_def pr_def n_def [symmetric] unat_of_nat)
  ultimately have ok: "pr_ok m' g pr (all_blocks g (sizes ! b))"
    using g b pg m'(2) sf(1) by (simp add: pr_ok_def set_all_blocks distinct_all_blocks pr_size_def sz_def)
  have "newpage p (KV (g * PAGE_SIZE)) b s = Some (s\<lparr>ram := m', prs := (prs s)(p := pr),
      sizebases := (sizebases s)[b := p # sizebases s ! b], allbase := p # allbase s\<rparr>)"
    using b sb m'(1) unfolding newpage_def Let_def sz_def [symmetric] n_def [symmetric]
    by (simp add: kstore_def pr_def)
  moreover have "m' x = ram s x" if "x < g * PAGE_SIZE \<or> g * PAGE_SIZE + PAGE_SIZE \<le> x" for x
    using m'(3) [OF that] that by (auto simp: r0)
  ultimately show thesis using that ok pg by blast
qed

section \<open>Slots\<close>

definition used_slots :: "kheap_root \<Rightarrow> nat set" where
  "used_slots root = {k. k < NPAGEREFS_PER_PAGE \<and> bit (pagerefs_inuse root ! (k div 32)) (k mod 32)}"

definition root_ok :: "kheap_root \<Rightarrow> bool" where
  "root_ok root \<longleftrightarrow> length (pagerefs_inuse root) = INUSE_WORDS \<and> numinuse root = card (used_slots root)"

definition grab_slot :: "nat \<Rightarrow> kheap_root \<Rightarrow> kheap_root" where
  "grab_slot k root = root\<lparr>pagerefs_inuse := (pagerefs_inuse root)[k div 32 := pagerefs_inuse root ! (k div 32) OR push_bit (k mod 32) 1],
     numinuse := numinuse root + 1\<rparr>"

definition drop_slot :: "nat \<Rightarrow> kheap_root \<Rightarrow> kheap_root" where
  "drop_slot k root = root\<lparr>pagerefs_inuse := (pagerefs_inuse root)[k div 32 := pagerefs_inuse root ! (k div 32) AND NOT (push_bit (k mod 32) 1)],
     numinuse := numinuse root - 1\<rparr>"

lemma slot_index: "k < NPAGEREFS_PER_PAGE \<Longrightarrow> k div 32 < INUSE_WORDS" "k mod 32 < 32"
  by (simp_all add: less_mult_imp_div_less)

lemma finite_used_slots [simp]: "finite (used_slots root)"
  by (simp add: used_slots_def)

lemma bit_push_one: "i < 32 \<Longrightarrow> j < 32 \<Longrightarrow> bit (push_bit i (1 :: u32)) j \<longleftrightarrow> i = j"
  by (auto simp: bit_exp_iff possible_bit_def)

lemma same_slot: "j div 32 = k div 32 \<Longrightarrow> k = j \<longleftrightarrow> k mod 32 = j mod (32 :: nat)"
  by (metis div_mult_mod_eq)

lemma used_slots_grab:
  assumes "length (pagerefs_inuse root) = INUSE_WORDS" "k < NPAGEREFS_PER_PAGE"
  shows "used_slots (grab_slot k root) = insert k (used_slots root)"
proof (rule set_eqI)
  fix j
  show "j \<in> used_slots (grab_slot k root) \<longleftrightarrow> j \<in> insert k (used_slots root)"
  proof (cases "j div 32 = k div 32")
    case True
    then show ?thesis using assms slot_index(1) [OF assms(2)] same_slot [OF True]
      by (auto simp: used_slots_def grab_slot_def bit_or_iff bit_push_one [simplified])
  next
    case False
    then show ?thesis by (auto simp: used_slots_def grab_slot_def)
  qed
qed

lemma used_slots_drop:
  assumes "length (pagerefs_inuse root) = INUSE_WORDS" "k < NPAGEREFS_PER_PAGE"
  shows "used_slots (drop_slot k root) = used_slots root - {k}"
proof (rule set_eqI)
  fix j
  show "j \<in> used_slots (drop_slot k root) \<longleftrightarrow> j \<in> used_slots root - {k}"
  proof (cases "j div 32 = k div 32")
    case True
    then show ?thesis using assms slot_index(1) [OF assms(2)] same_slot [OF True]
      by (auto simp: used_slots_def drop_slot_def bit_and_iff bit_not_iff bit_push_one [simplified])
  next
    case False
    then show ?thesis by (auto simp: used_slots_def drop_slot_def)
  qed
qed

lemma root_ok_grab:
  assumes "root_ok root" "k < NPAGEREFS_PER_PAGE" "k \<notin> used_slots root"
  shows "root_ok (grab_slot k root)"
  using assms by (auto simp: root_ok_def used_slots_grab) (auto simp: grab_slot_def)

lemma root_ok_drop:
  assumes "root_ok root" "k \<in> used_slots root"
  shows "root_ok (drop_slot k root)" "0 < numinuse root"
proof -
  have k: "k < NPAGEREFS_PER_PAGE" using assms(2) by (simp add: used_slots_def)
  show "root_ok (drop_slot k root)"
    using assms k by (auto simp: root_ok_def used_slots_drop) (auto simp: drop_slot_def)
  show "0 < numinuse root" using assms by (auto simp: root_ok_def card_gt_0_iff)
qed

lemma word_not_full:
  assumes "w \<noteq> (0xffffffff :: u32)"
  shows "\<exists>j<32. \<not> bit w j"
proof (rule ccontr)
  assume "\<not> (\<exists>j<32. \<not> bit w j)"
  then have "w = - 1" by (intro bit_eqI) (auto simp: possible_bit_def)
  with assms show False by simp
qed

lemma clear_bit_spec:
  assumes "w \<noteq> 0xffffffff"
  obtains j where "clear_bit w = Some j" "j < 32" "\<not> bit w j"
proof -
  obtain j0 where "j0 < 32" "\<not> bit w j0" using word_not_full [OF assms] by blast
  then have "clear_bit w \<noteq> None"
    unfolding clear_bit_def by (auto simp: find_None_iff and_push_bit_eq_0 [simplified])
  then obtain j where j: "clear_bit w = Some j" by blast
  then have "j < 32" "\<not> bit w j"
    unfolding clear_bit_def by (auto simp: find_Some_iff and_push_bit_eq_0 [simplified])
  with j show thesis by (rule that)
qed

lemma inuse_word_None:
  assumes "inuse_word ws = None" "ws = pagerefs_inuse root" "root_ok root"
  shows "NPAGEREFS_PER_PAGE \<le> numinuse root"
proof -
  have full: "ws ! i = - 1" if "i < INUSE_WORDS" for i
    using assms(1) that by (auto simp: inuse_word_def find_None_iff)
  have "used_slots root = {..<NPAGEREFS_PER_PAGE}"
    using full slot_index assms(2) by (auto simp: used_slots_def)
  then show ?thesis using assms(3) by (simp add: root_ok_def)
qed

lemma inuse_word_Some:
  assumes "inuse_word ws = Some i" "length ws = INUSE_WORDS"
  shows "i < INUSE_WORDS" "ws ! i \<noteq> 0xffffffff"
  using assms by (auto simp: inuse_word_def find_Some_iff)

text \<open>What \<^verbatim>\<open>allocpageref\<close> does: it takes a free slot of the first root that has one, fetching the root's
  page if need be. When that page cannot be had the slot stays marked.\<close>

definition with_root :: "nat \<Rightarrow> (kheap_root \<Rightarrow> kheap_root) \<Rightarrow> kheap \<Rightarrow> kheap" where
  "with_root r f s = s\<lparr>kheaproots := (kheaproots s)[r := f (kheaproots s ! r)]\<rparr>"

definition roots_ok :: "kheap \<Rightarrow> bool" where
  "roots_ok s \<longleftrightarrow> length (kheaproots s) = NUM_PAGEREFPAGES \<and> (\<forall>r<NUM_PAGEREFPAGES. root_ok (kheaproots s ! r))"

lemma allocpagerefpage_cases:
  assumes "coremap_ok s" "r < length (kheaproots s)" "rpage (kheaproots s ! r) = 0"
  obtains (full) "allocpagerefpage r s = Some s"
  | (got) b where "allocpagerefpage r s = Some (with_root r (rpage_update (\<lambda>_. page_addr b)) (kpages_taken b 1 s))"
      "first_page s \<le> b" "b < length (coremap s)" "state (coremap s ! b) = Free"
proof -
  have "0 < (1 :: nat)" by simp
  from assms(1) this show thesis
  proof (cases rule: alloc_kpages_cases)
    case full
    then show ?thesis using assms that(1) by (simp add: allocpagerefpage_def)
  next
    case (got b)
    have b: "b < length (coremap s)" using got(3) by simp
    have al: "unat (page_addr b) mod PAGE_SIZE = 0"
      unfolding KV_page(2) [OF assms(1) b] by (simp add: mod_add_eq [symmetric])
    have more: "kheaproots (kpages_taken b 1 s) = kheaproots s"
      by (simp add: kpages_taken_def as_zero_region_def)
    have fr: "state (coremap s ! b) = Free" using free_runD [OF got(4)] by simp
    have "allocpagerefpage r s = Some (with_root r (rpage_update (\<lambda>_. page_addr b)) (kpages_taken b 1 s))"
      using assms got(1) al page_addr_nonzero [OF assms(1) b] more
      by (simp add: allocpagerefpage_def with_root_def)
    then show ?thesis using that(2) got(2) b fr by blast
  qed
qed

lemma allocpageref_skip:
  assumes "length (kheaproots s) = NUM_PAGEREFPAGES" "r \<le> r0" "r0 \<le> NUM_PAGEREFPAGES"
    and "\<And>r'. r \<le> r' \<Longrightarrow> r' < r0 \<Longrightarrow> NPAGEREFS_PER_PAGE \<le> numinuse (kheaproots s ! r')"
  shows "allocpageref_from r s = allocpageref_from r0 s"
  using assms(2-4)
proof (induction "r0 - r" arbitrary: r)
  case 0
  then show ?case by simp
next
  case (Suc n)
  have "NPAGEREFS_PER_PAGE \<le> numinuse (kheaproots s ! r)" "r < NUM_PAGEREFPAGES" using Suc.prems Suc.hyps(2) by auto
  then have "allocpageref_from r s = allocpageref_from (r + 1) s"
    using assms(1) by (simp add: allocpageref_from.simps [of r])
  also have "\<dots> = allocpageref_from r0 s" using Suc.prems Suc.hyps(2) by (intro Suc.hyps(1)) auto
  finally show ?case .
qed

lemma with_root_fields [simp]:
  "coremap (with_root r f s) = coremap s" "memory_start (with_root r f s) = memory_start s"
  "memory_end (with_root r f s) = memory_end s" "ram (with_root r f s) = ram s"
  "allocated_pages_count (with_root r f s) = allocated_pages_count s"
  "prs (with_root r f s) = prs s" "sizebases (with_root r f s) = sizebases s" "allbase (with_root r f s) = allbase s"
  "kheaproots (with_root r f s) = (kheaproots s)[r := f (kheaproots s ! r)]"
  by (simp_all add: with_root_def)

lemma coremap_ok_cong:
  "coremap s' = coremap s \<Longrightarrow> memory_start s' = memory_start s \<Longrightarrow> memory_end s' = memory_end s \<Longrightarrow>
    allocated_pages_count s' = allocated_pages_count s \<Longrightarrow> coremap_ok s' \<longleftrightarrow> coremap_ok s"
  by (simp add: coremap_ok_def)

lemma allocpageref_cases:
  assumes "coremap_ok s" "roots_ok s"
  obtains (none) "allocpageref s = Some (None, s)"
  | (has) r k where "r < NUM_PAGEREFPAGES" "k < NPAGEREFS_PER_PAGE" "k \<notin> used_slots (kheaproots s ! r)"
      "\<And>r'. r' < r \<Longrightarrow> NPAGEREFS_PER_PAGE \<le> numinuse (kheaproots s ! r')" "rpage (kheaproots s ! r) \<noteq> 0"
      "allocpageref s = Some (Some (r * NPAGEREFS_PER_PAGE + k), with_root r (grab_slot k) s)"
  | (leak) r k where "r < NUM_PAGEREFPAGES" "k < NPAGEREFS_PER_PAGE" "k \<notin> used_slots (kheaproots s ! r)"
      "rpage (kheaproots s ! r) = 0" "allocpageref s = Some (None, with_root r (grab_slot k) s)"
  | (got) r k b where "r < NUM_PAGEREFPAGES" "k < NPAGEREFS_PER_PAGE" "k \<notin> used_slots (kheaproots s ! r)"
      "\<And>r'. r' < r \<Longrightarrow> NPAGEREFS_PER_PAGE \<le> numinuse (kheaproots s ! r')" "rpage (kheaproots s ! r) = 0"
      "first_page s \<le> b" "b < length (coremap s)" "state (coremap s ! b) = Free"
      "allocpageref s = Some (Some (r * NPAGEREFS_PER_PAGE + k),
         with_root r (rpage_update (\<lambda>_. page_addr b)) (kpages_taken b 1 (with_root r (grab_slot k) s)))"
proof -
  have len: "length (kheaproots s) = NUM_PAGEREFPAGES" using assms(2) by (simp add: roots_ok_def)
  show thesis
  proof (cases "\<exists>r<NUM_PAGEREFPAGES. numinuse (kheaproots s ! r) < NPAGEREFS_PER_PAGE")
    case False
    then have "allocpageref s = allocpageref_from NUM_PAGEREFPAGES s"
      unfolding allocpageref_def by (intro allocpageref_skip [OF len]) auto
    then show ?thesis using that(1) by (simp add: allocpageref_from.simps)
  next
    case True
    then obtain r where r: "r < NUM_PAGEREFPAGES" "numinuse (kheaproots s ! r) < NPAGEREFS_PER_PAGE"
      "\<And>r'. r' < r \<Longrightarrow> \<not> (r' < NUM_PAGEREFPAGES \<and> numinuse (kheaproots s ! r') < NPAGEREFS_PER_PAGE)"
      using exists_least_iff [of "\<lambda>r. r < NUM_PAGEREFPAGES \<and> numinuse (kheaproots s ! r) < NPAGEREFS_PER_PAGE"] by blast
    then have before: "NPAGEREFS_PER_PAGE \<le> numinuse (kheaproots s ! r')" if "r' < r" for r'
      using that by (meson linorder_not_less order_less_trans)
    have skip: "allocpageref s = allocpageref_from r s"
      unfolding allocpageref_def using r(1) before by (intro allocpageref_skip [OF len]) auto
    let ?root = "kheaproots s ! r"
    have ok: "root_ok ?root" using assms(2) r(1) by (simp add: roots_ok_def)
    then have wl: "length (pagerefs_inuse ?root) = INUSE_WORDS" by (simp add: root_ok_def)
    obtain i where i: "inuse_word (pagerefs_inuse ?root) = Some i"
      using inuse_word_None [OF _ refl ok] r(2) by fastforce
    note iw = inuse_word_Some [OF i wl]
    obtain j where j: "clear_bit (pagerefs_inuse ?root ! i) = Some j" "j < 32" "\<not> bit (pagerefs_inuse ?root ! i) j"
      by (rule clear_bit_spec [OF iw(2)])
    define k where "k = i * 32 + j"
    have kd: "k div 32 = i" "k mod 32 = j" "k < NPAGEREFS_PER_PAGE" using iw(1) j(2) by (simp_all add: k_def)
    have ku: "k \<notin> used_slots ?root" using kd j(3) by (simp add: used_slots_def)
    let ?s = "with_root r (grab_slot k) s"
    have rp: "rpage (kheaproots ?s ! r) = rpage ?root" using r(1) len by (simp add: grab_slot_def)
    have step: "allocpageref s = (do {
        s2 \<leftarrow> (if rpage ?root = 0 then allocpagerefpage r ?s else Some ?s);
        root2 \<leftarrow> rd (kheaproots s2) r;
        if rpage root2 = 0 then Some (None, s2) else Some (Some (r * NPAGEREFS_PER_PAGE + k), s2) })"
      unfolding skip k_def using r(1,2) len i iw(1) wl j(1) kd(1,2) [unfolded k_def]
      by (subst allocpageref_from.simps) (simp add: with_root_def grab_slot_def)
    show ?thesis
    proof (cases "rpage ?root = 0")
      case False
      with step rp r(1) len have "allocpageref s = Some (Some (r * NPAGEREFS_PER_PAGE + k), ?s)" by simp
      with has [OF r(1) kd(3) ku before False] show ?thesis by blast
    next
      case True
      have cok: "coremap_ok ?s" using assms(1) by (simp add: coremap_ok_cong [of ?s s])
      have "r < length (kheaproots ?s)" "rpage (kheaproots ?s ! r) = 0" using r(1) len rp True by auto
      from cok this show ?thesis
      proof (cases rule: allocpagerefpage_cases)
        case full
        with step True rp r(1) len have "allocpageref s = Some (None, ?s)" by simp
        with leak [OF r(1) kd(3) ku True] show ?thesis by blast
      next
        case (got b)
        have "kheaproots (kpages_taken b 1 ?s) = kheaproots ?s" by (simp add: kpages_taken_def as_zero_region_def)
        moreover have "page_addr b \<noteq> 0" using page_addr_nonzero [OF assms(1)] got(3) by simp
        ultimately have "allocpageref s = Some (Some (r * NPAGEREFS_PER_PAGE + k),
            with_root r (rpage_update (\<lambda>_. page_addr b)) (kpages_taken b 1 ?s))"
          using step True got(1) r(1) len by simp
        with that(4) [OF r(1) kd(3) ku before True] got(2-4) show ?thesis by simp
      qed
    qed
  qed
qed

lemma freepageref_ok:
  assumes "roots_ok s" "p < NUM_PAGEREFPAGES * NPAGEREFS_PER_PAGE"
    and "p mod NPAGEREFS_PER_PAGE \<in> used_slots (kheaproots s ! (p div NPAGEREFS_PER_PAGE))"
    and pages: "\<And>r. r \<le> p div NPAGEREFS_PER_PAGE \<Longrightarrow> rpage (kheaproots s ! r) \<noteq> 0"
  shows "freepageref p s = Some (with_root (p div NPAGEREFS_PER_PAGE) (drop_slot (p mod NPAGEREFS_PER_PAGE)) s)"
proof -
  let ?r = "p div NPAGEREFS_PER_PAGE" and ?k = "p mod NPAGEREFS_PER_PAGE"
  have len: "length (kheaproots s) = NUM_PAGEREFPAGES" and r: "?r < NUM_PAGEREFPAGES"
    using assms(1,2) by (simp_all add: roots_ok_def less_mult_imp_div_less)
  have skip: "freepageref_from r p s = freepageref_from ?r p s" if "r \<le> ?r" for r
    using that
  proof (induction "?r - r" arbitrary: r)
    case 0
    then show ?case by simp
  next
    case (Suc n)
    have "?r \<noteq> r" "r < NUM_PAGEREFPAGES" using Suc.hyps(2) r by auto
    then have "freepageref_from r p s = freepageref_from (r + 1) p s"
      using len pages [OF Suc.prems] by (subst freepageref_from.simps) simp
    also have "\<dots> = freepageref_from ?r p s" using Suc.prems Suc.hyps(2) by (intro Suc.hyps(1)) auto
    finally show ?case .
  qed
  have "freepageref p s = freepageref_from ?r p s" unfolding freepageref_def by (rule skip) simp
  also have "\<dots> = Some (with_root ?r (drop_slot ?k) s)"
  proof -
    define k where "k = ?k"
    define r where "r = ?r"
    define w where "w = pagerefs_inuse (kheaproots s ! r) ! (k div 32)"
    have rl: "r < length (kheaproots s)" "r < NUM_PAGEREFPAGES" using len \<open>?r < NUM_PAGEREFPAGES\<close> by (simp_all add: r_def)
    have ok: "root_ok (kheaproots s ! r)" using assms(1) rl by (simp add: roots_ok_def)
    have used: "k \<in> used_slots (kheaproots s ! r)" using assms(3) by (simp add: k_def r_def)
    have "k div 32 < INUSE_WORDS" by (rule slot_index(1)) (simp add: k_def)
    with ok have kl: "k div 32 < length (pagerefs_inuse (kheaproots s ! r))" by (simp add: root_ok_def)
    have w: "w AND push_bit (k mod 32) 1 \<noteq> 0"
      using used unfolding and_push_bit_eq_0 by (simp add: used_slots_def w_def)
    have pg: "rpage (kheaproots s ! r) \<noteq> 0" using pages [of r] by (simp add: r_def)
    have "freepageref_from r p s = Some (with_root r (drop_slot k) s)"
      using rl kl w pg root_ok_drop(2) [OF ok used]
      unfolding freepageref_from.simps [of r] r_def [symmetric] k_def [symmetric]
      by (simp add: with_root_def drop_slot_def w_def [symmetric] del: push_bit_of_1)
    then show ?thesis by (simp only: r_def k_def)
  qed
  finally show ?thesis .
qed

end
