(* ===== verification/Kheap.thy ===== *)
theory Kheap
  imports Kmalloc
begin

text \<open>
  The kernel heap of \<^verbatim>\<open>kern/vm/kmalloc.c\<close> as its clients see it: an invariant over pagerefs, free lists
  and the coremap, the set of live blocks, and what \<^verbatim>\<open>kmalloc\<close> and \<^verbatim>\<open>kfree\<close> do to it. The pages of user
  address spaces are a frame: no heap operation touches them.
\<close>

section \<open>The heap invariant\<close>

definition hpage :: "kheap \<Rightarrow> nat \<Rightarrow> nat" where
  "hpage s p = unat (PR_PAGEADDR (prs s p) - MIPS_KSEG0) div PAGE_SIZE"

definition root_page :: "kheap \<Rightarrow> nat \<Rightarrow> nat" where
  "root_page s r = unat (rpage (kheaproots s ! r) - MIPS_KSEG0) div PAGE_SIZE"

definition live_roots :: "kheap \<Rightarrow> nat set" where
  "live_roots s = {r. r < NUM_PAGEREFPAGES \<and> rpage (kheaproots s ! r) \<noteq> 0}"

definition own_pages :: "kheap \<Rightarrow> nat set" where
  "own_pages s = hpage s ` set (allbase s) \<union> root_page s ` live_roots s"

text \<open>A single fixed page, as the page allocator hands it out.\<close>

definition kpage_ok :: "'a vm_scheme \<Rightarrow> nat \<Rightarrow> bool" where
  "kpage_ok s g \<longleftrightarrow> first_page s \<le> g \<and> g < length (coremap s) \<and> state (coremap s ! g) = Fixed \<and> chunk_size (coremap s ! g) = 1"

definition slot_ok :: "kheap \<Rightarrow> nat \<Rightarrow> bool" where
  "slot_ok s p \<longleftrightarrow> p < NUM_PAGEREFPAGES * NPAGEREFS_PER_PAGE
     \<and> p mod NPAGEREFS_PER_PAGE \<in> used_slots (kheaproots s ! (p div NPAGEREFS_PER_PAGE))
     \<and> (\<forall>r\<le>p div NPAGEREFS_PER_PAGE. rpage (kheaproots s ! r) \<noteq> 0)"

definition flist :: "kheap \<Rightarrow> nat \<Rightarrow> nat list" where
  "flist s p = fl_walk (ram s) (pr_head (prs s p)) (unat (nfree (prs s p)))"

definition heap_inv :: "kheap \<Rightarrow> bool" where
  "heap_inv s \<longleftrightarrow> coremap_ok s \<and> roots_ok s \<and> length (sizebases s) = NSIZES \<and> distinct (allbase s)
     \<and> (\<forall>b<NSIZES. sizebases s ! b = filter (\<lambda>p. PR_BLOCKTYPE (prs s p) = b) (allbase s))
     \<and> (\<forall>p\<in>set (allbase s). slot_ok s p \<and> pr_ok (ram s) (hpage s p) (prs s p) (flist s p))
     \<and> inj_on (hpage s) (set (allbase s)) \<and> inj_on (root_page s) (live_roots s)
     \<and> hpage s ` set (allbase s) \<inter> root_page s ` live_roots s = {}
     \<and> (\<forall>g\<in>own_pages s. kpage_ok s g)
     \<and> (\<forall>r\<in>live_roots s. rpage (kheaproots s ! r) = page_addr (root_page s r))
     \<and> (\<forall>r<NUM_PAGEREFPAGES. rpage (kheaproots s ! r) = 0 \<longrightarrow> numinuse (kheaproots s ! r) < NPAGEREFS_PER_PAGE)"

text \<open>No heap page is wholly free: such a page goes back to the page allocator.\<close>

definition heap_ok :: "kheap \<Rightarrow> bool" where
  "heap_ok s \<longleftrightarrow> heap_inv s \<and> (\<forall>p\<in>set (allbase s). unat (nfree (prs s p)) < pr_count (prs s p))"

text \<open>The blocks handed out and not yet freed, with their sizes.\<close>

definition live :: "kheap \<Rightarrow> (vaddr \<times> nat) set" where
  "live s = {(KV x, pr_size (prs s p)) | p x. p \<in> set (allbase s)
     \<and> x \<in> page_blocks (hpage s p) (pr_size (prs s p)) \<and> x \<notin> set (flist s p)}"

lemma pr_ok_unique:
  assumes "pr_ok (ram s) g (prs s p) xs"
  shows "hpage s p = g" "flist s p = xs"
proof -
  have pg: "PR_PAGEADDR (prs s p) = KV (g * PAGE_SIZE)" "g < 131072" using assms by (auto simp: pr_ok_def)
  have "g * PAGE_SIZE < 4294967296" using pg(2) by simp
  then show "hpage s p = g" using pg(1) by (simp add: hpage_def)
  have "\<forall>x\<in>set xs. x < 4294967296" using pr_okD(4) [OF assms] by fastforce
  moreover have "fl_list (ram s) (pr_head (prs s p)) xs" "length xs = unat (nfree (prs s p))"
    using assms by (auto simp: pr_ok_def)
  ultimately show "flist s p = xs" using fl_walk_list by (metis flist_def)
qed

lemma heap_inv_frame:
  assumes inv: "heap_inv s" and ok: "coremap_ok s'"
    and same: "kheaproots s' = kheaproots s" "prs s' = prs s" "sizebases s' = sizebases s" "allbase s' = allbase s"
    and pages: "\<And>g. g \<in> own_pages s \<Longrightarrow> kpage_ok s' g"
    and words: "\<And>g x. g \<in> own_pages s \<Longrightarrow> g * PAGE_SIZE \<le> x \<Longrightarrow> x < g * PAGE_SIZE + PAGE_SIZE \<Longrightarrow> ram s' x = ram s x"
  shows "heap_inv s'" "live s' = live s" "own_pages s' = own_pages s"
proof -
  have hp: "hpage s' = hpage s" "root_page s' = root_page s" "live_roots s' = live_roots s" "slot_ok s' = slot_ok s"
    using same by (auto simp: hpage_def root_page_def live_roots_def slot_ok_def fun_eq_iff)
  show op: "own_pages s' = own_pages s" using hp same by (simp add: own_pages_def)
  have pr: "pr_ok (ram s') (hpage s p) (prs s p) (flist s p)" if "p \<in> set (allbase s)" for p
    by (rule pr_ok_frame [of "ram s"]) (use inv that words in \<open>auto simp: heap_inv_def own_pages_def\<close>)
  then have fl: "flist s' p = flist s p" if "p \<in> set (allbase s)" for p
    using pr_ok_unique(2) [of s' "hpage s p" p "flist s p"] same that by simp
  show "heap_inv s'"
    using inv ok pr fl hp op pages same unfolding heap_inv_def roots_ok_def by simp
  show "live s' = live s"
    unfolding live_def same hp by (simp add: fl cong: conj_cong)
qed

lemma heap_inv_own: "heap_inv s \<Longrightarrow> g \<in> own_pages s \<Longrightarrow> kpage_ok s g"
  by (simp add: heap_inv_def)

lemma heap_inv_cm: "heap_inv s \<Longrightarrow> coremap_ok s" "heap_inv s \<Longrightarrow> roots_ok s"
  by (simp_all add: heap_inv_def)

lemma kheap_taken_fields [simp]:
  fixes s :: kheap
  shows "kheaproots (kpages_taken b n s) = kheaproots s" "prs (kpages_taken b n s) = prs s"
    "sizebases (kpages_taken b n s) = sizebases s" "allbase (kpages_taken b n s) = allbase s"
    "kheaproots (kpages_freed b n s) = kheaproots s" "prs (kpages_freed b n s) = prs s"
    "sizebases (kpages_freed b n s) = sizebases s" "allbase (kpages_freed b n s) = allbase s"
  by (simp_all add: kpages_taken_def kpages_freed_def as_zero_region_def)

lemma heap_inv_taken:
  fixes s :: kheap
  assumes inv: "heap_inv s" and run: "first_page s \<le> b" "0 < n" "b + n \<le> length (coremap s)" "free_run (coremap s) b n"
  shows "heap_inv (kpages_taken b n s)" "live (kpages_taken b n s) = live s"
    "own_pages (kpages_taken b n s) = own_pages s" "{b..<b + n} \<inter> own_pages s = {}"
proof -
  have out: "\<not> (b \<le> g \<and> g < b + n)" if "g \<in> own_pages s" for g
    using heap_inv_own [OF inv that] free_runD [OF run(4), of g] by (auto simp: kpage_ok_def)
  then show "{b..<b + n} \<inter> own_pages s = {}" by auto
  have ok: "coremap_ok (kpages_taken b n s)" by (rule kpages_taken_ok [OF heap_inv_cm(1) [OF inv] run])
  have pages: "kpage_ok (kpages_taken b n s) g" if "g \<in> own_pages s" for g
    using heap_inv_own [OF inv that] out [OF that] by (auto simp: kpage_ok_def nth_claim)
  have words: "ram (kpages_taken b n s) x = ram s x"
    if "g \<in> own_pages s" "g * PAGE_SIZE \<le> x" "x < g * PAGE_SIZE + PAGE_SIZE" for g x
    using out [OF that(1)] that(2,3) by (auto simp: bzero_words_def)
  show "heap_inv (kpages_taken b n s)" "live (kpages_taken b n s) = live s" "own_pages (kpages_taken b n s) = own_pages s"
    by (rule heap_inv_frame [OF inv ok]; (simp only: kheap_taken_fields | erule pages | erule (2) words))+
qed

lemma heap_inv_freed:
  fixes s :: kheap
  assumes inv: "heap_inv s" and b: "b < length (coremap s)" "n = chunk_size (coremap s ! b)" "0 < n" "b \<notin> own_pages s"
  shows "heap_inv (kpages_freed b n s)" "live (kpages_freed b n s) = live s" "own_pages (kpages_freed b n s) = own_pages s"
proof -
  have cm: "cm_ok (first_page s) (coremap s)" using heap_inv_cm(1) [OF inv] by (simp add: coremap_ok_def)
  have out: "\<not> (b \<le> g \<and> g < b + n)" if "g \<in> own_pages s" for g
  proof -
    have k: "kpage_ok s g" by (rule heap_inv_own [OF inv that])
    have "g \<noteq> b" using that b(4) by auto
    with chunk_disjoint [OF cm b(1) _ _ _ this] b(2,3) k show ?thesis by (auto simp: kpage_ok_def)
  qed
  have ok: "coremap_ok (kpages_freed b n s)" by (rule kpages_freed_ok [OF heap_inv_cm(1) [OF inv] b(1-3)])
  have pages: "kpage_ok (kpages_freed b n s) g" if "g \<in> own_pages s" for g
    using heap_inv_own [OF inv that] out [OF that] by (auto simp: kpage_ok_def nth_unclaim)
  note fr = heap_inv_frame [OF inv ok _ _ _ _ pages, simplified]
  show "heap_inv (kpages_freed b n s)" "live (kpages_freed b n s) = live s" "own_pages (kpages_freed b n s) = own_pages s"
    using fr by blast+
qed

text \<open>Changes to the pageref roots.\<close>

lemma heap_inv_roots:
  assumes inv: "heap_inv s" and r: "r < NUM_PAGEREFPAGES"
    and f: "root_ok (f (kheaproots s ! r))" "rpage (f (kheaproots s ! r)) = rpage (kheaproots s ! r)"
    and mono: "used_slots (kheaproots s ! r) \<subseteq> used_slots (f (kheaproots s ! r))"
    and room: "rpage (kheaproots s ! r) = 0 \<longrightarrow> numinuse (f (kheaproots s ! r)) < NPAGEREFS_PER_PAGE"
  shows "heap_inv (with_root r f s)" "live (with_root r f s) = live s" "own_pages (with_root r f s) = own_pages s"
proof -
  let ?s = "with_root r f s"
  have len: "length (kheaproots s) = NUM_PAGEREFPAGES" using inv by (simp add: heap_inv_def roots_ok_def)
  have nth: "kheaproots ?s ! i = (if i = r then f (kheaproots s ! r) else kheaproots s ! i)" for i
    using r len by simp
  have rp: "rpage (kheaproots ?s ! i) = rpage (kheaproots s ! i)" for i using f(2) nth by auto
  have hp: "hpage ?s = hpage s" "root_page ?s = root_page s" "live_roots ?s = live_roots s" "flist ?s = flist s"
    by (simp_all add: hpage_def root_page_def live_roots_def flist_def fun_eq_iff rp del: with_root_fields(9))
  then show op: "own_pages ?s = own_pages s" by (simp add: own_pages_def)
  have sl: "slot_ok ?s p" if "slot_ok s p" for p
    using that mono rp nth by (auto simp: slot_ok_def simp del: with_root_fields(9))
  have ro: "roots_ok ?s" using heap_inv_cm(2) [OF inv] f(1) nth len by (simp add: roots_ok_def)
  have co: "coremap_ok ?s" using heap_inv_cm(1) [OF inv] by (simp add: coremap_ok_cong [of ?s s])
  have kp: "kpage_ok ?s = kpage_ok s" by (simp add: kpage_ok_def fun_eq_iff)
  have ni: "numinuse (kheaproots ?s ! i) < NPAGEREFS_PER_PAGE" if "i < NUM_PAGEREFPAGES" "rpage (kheaproots s ! i) = 0" for i
    using inv room that unfolding nth by (auto simp: heap_inv_def)
  show "heap_inv ?s"
    using inv ro co sl ni unfolding heap_inv_def hp op kp rp with_root_fields(1-8) by simp
  show "live ?s = live s" by (simp add: live_def hp)
qed

lemma heap_inv_grab:
  assumes "heap_inv s" "r < NUM_PAGEREFPAGES" "k < NPAGEREFS_PER_PAGE" "k \<notin> used_slots (kheaproots s ! r)"
    and "rpage (kheaproots s ! r) = 0 \<longrightarrow> numinuse (kheaproots s ! r) + 1 < NPAGEREFS_PER_PAGE"
  shows "heap_inv (with_root r (grab_slot k) s)" "live (with_root r (grab_slot k) s) = live s"
    "own_pages (with_root r (grab_slot k) s) = own_pages s"
proof -
  have ok: "root_ok (kheaproots s ! r)" using heap_inv_cm(2) [OF assms(1)] assms(2) by (simp add: roots_ok_def)
  then have u: "used_slots (grab_slot k (kheaproots s ! r)) = insert k (used_slots (kheaproots s ! r))"
    by (intro used_slots_grab assms(3)) (simp add: root_ok_def)
  note fr = heap_inv_roots [OF assms(1,2), of "grab_slot k"]
  have "rpage (grab_slot k (kheaproots s ! r)) = rpage (kheaproots s ! r)"
    "numinuse (grab_slot k (kheaproots s ! r)) = numinuse (kheaproots s ! r) + 1" by (simp_all add: grab_slot_def)
  with fr root_ok_grab [OF ok assms(3,4)] u assms(5) show
    "heap_inv (with_root r (grab_slot k) s)" "live (with_root r (grab_slot k) s) = live s"
    "own_pages (with_root r (grab_slot k) s) = own_pages s" by auto
qed

lemma kpage_bound: "coremap_ok s \<Longrightarrow> kpage_ok s g \<Longrightarrow> g < 131072"
  using page_addr_bound [of s g] by (simp add: kpage_ok_def)

lemma heap_inv_set_root:
  assumes inv: "heap_inv s" and r: "r < NUM_PAGEREFPAGES" "rpage (kheaproots s ! r) = 0"
    and g: "kpage_ok s g" "g \<notin> own_pages s"
  shows "heap_inv (with_root r (rpage_update (\<lambda>_. page_addr g)) s)"
    "live (with_root r (rpage_update (\<lambda>_. page_addr g)) s) = live s"
    "own_pages (with_root r (rpage_update (\<lambda>_. page_addr g)) s) = insert g (own_pages s)"
proof -
  let ?f = "rpage_update (\<lambda>_. page_addr g)" let ?s = "with_root r ?f s"
  have len: "length (kheaproots s) = NUM_PAGEREFPAGES" using inv by (simp add: heap_inv_def roots_ok_def)
  have nth: "kheaproots ?s ! i = (if i = r then ?f (kheaproots s ! r) else kheaproots s ! i)" for i
    using r len by simp
  have gb: "g * PAGE_SIZE < 536870912" using kpage_bound [OF heap_inv_cm(1) [OF inv] g(1)] by simp
  then have nz: "page_addr g \<noteq> 0" and ph: "unat (page_addr g - MIPS_KSEG0) div PAGE_SIZE = g"
    using KV_nonzero [of "g * PAGE_SIZE"] by simp_all
  have hp: "hpage ?s = hpage s" "flist ?s = flist s" by (simp_all add: hpage_def flist_def fun_eq_iff)
  have lr: "live_roots ?s = insert r (live_roots s)"
    using r nz nth by (auto simp: live_roots_def simp del: with_root_fields(9))
  have rp: "root_page ?s i = (if i = r then g else root_page s i)" for i
    using ph nth by (simp add: root_page_def del: with_root_fields(9))
  have rn: "r \<notin> live_roots s" using r by (simp add: live_roots_def)
  have img: "root_page ?s ` live_roots ?s = insert g (root_page s ` live_roots s)"
  proof -
    have "root_page ?s i = root_page s i" if "i \<in> live_roots s" for i using rp [of i] rn that by auto
    then have "root_page ?s ` live_roots s = root_page s ` live_roots s" by (intro image_cong) auto
    then show ?thesis unfolding lr image_insert rp by simp
  qed
  show op: "own_pages ?s = insert g (own_pages s)" unfolding own_pages_def img hp by auto
  have ro: "roots_ok ?s" using heap_inv_cm(2) [OF inv] nth len
    by (auto simp: roots_ok_def root_ok_def used_slots_def simp del: with_root_fields(9)) simp
  have co: "coremap_ok ?s" using heap_inv_cm(1) [OF inv] by (simp add: coremap_ok_cong [of ?s s])
  have kp: "kpage_ok ?s = kpage_ok s" by (simp add: kpage_ok_def fun_eq_iff)
  have sl: "slot_ok ?s p" if "slot_ok s p" for p
    using that nz nth by (auto simp: slot_ok_def used_slots_def simp del: with_root_fields(9))
  have inj: "inj_on (root_page ?s) (live_roots ?s)"
    using inv g(2) rn unfolding lr by (auto simp: heap_inv_def inj_on_def rp own_pages_def)
  have dis: "hpage ?s ` set (allbase s) \<inter> root_page ?s ` live_roots ?s = {}"
    using inv g(2) unfolding img hp by (auto simp: heap_inv_def own_pages_def)
  have addr: "rpage (kheaproots ?s ! i) = page_addr (root_page ?s i)" if "i \<in> live_roots ?s" for i
    using that inv unfolding lr nth rp by (auto simp: heap_inv_def)
  have ni: "numinuse (kheaproots ?s ! i) < NPAGEREFS_PER_PAGE"
    if "i < NUM_PAGEREFPAGES" "rpage (kheaproots ?s ! i) = 0" for i
    using inv that nz unfolding nth by (auto simp: heap_inv_def split: if_splits)
  have kg: "\<forall>h\<in>insert g (own_pages s). kpage_ok s h" using inv g(1) by (simp add: heap_inv_def)
  show "heap_inv ?s"
    using inv ro co sl inj dis addr ni kg unfolding heap_inv_def op kp hp with_root_fields(1-8) by simp
  show "live ?s = live s" by (simp add: live_def hp)
qed

text \<open>Changes to one pageref.\<close>

definition with_pr :: "nat \<Rightarrow> pageref \<Rightarrow> (nat \<Rightarrow> u32) \<Rightarrow> kheap \<Rightarrow> kheap" where
  "with_pr p pr m s = s\<lparr>prs := (prs s)(p := pr), ram := m\<rparr>"

lemma with_pr_fields [simp]:
  "coremap (with_pr p pr m s) = coremap s" "memory_start (with_pr p pr m s) = memory_start s"
  "memory_end (with_pr p pr m s) = memory_end s" "ram (with_pr p pr m s) = m"
  "allocated_pages_count (with_pr p pr m s) = allocated_pages_count s"
  "prs (with_pr p pr m s) = (prs s)(p := pr)" "sizebases (with_pr p pr m s) = sizebases s"
  "allbase (with_pr p pr m s) = allbase s" "kheaproots (with_pr p pr m s) = kheaproots s"
  by (simp_all add: with_pr_def)

lemma heap_inv_with_pr:
  assumes inv: "heap_inv s" and p: "p \<in> set (allbase s)"
    and same: "PR_PAGEADDR pr = PR_PAGEADDR (prs s p)" "PR_BLOCKTYPE pr = PR_BLOCKTYPE (prs s p)"
    and ok: "pr_ok m (hpage s p) pr xs"
    and m: "\<forall>x. x < hpage s p * PAGE_SIZE \<or> hpage s p * PAGE_SIZE + PAGE_SIZE \<le> x \<longrightarrow> m x = ram s x"
  shows "heap_inv (with_pr p pr m s)" "flist (with_pr p pr m s) p = xs"
    "\<And>q. q \<in> set (allbase s) \<Longrightarrow> q \<noteq> p \<Longrightarrow> flist (with_pr p pr m s) q = flist s q"
    "hpage (with_pr p pr m s) = hpage s"
proof -
  let ?s = "with_pr p pr m s"
  show hp: "hpage ?s = hpage s" using same(1) by (simp add: hpage_def fun_eq_iff)
  have rp: "root_page ?s = root_page s" "live_roots ?s = live_roots s" "slot_ok ?s = slot_ok s"
    by (simp_all add: root_page_def live_roots_def slot_ok_def fun_eq_iff)
  have op: "own_pages ?s = own_pages s" by (simp add: own_pages_def hp rp)
  have self: "pr_ok (ram ?s) (hpage s p) (prs ?s p) xs" using ok by simp
  show fl: "flist ?s p = xs" by (rule pr_ok_unique(2) [OF self])
  have other: "pr_ok (ram ?s) (hpage s q) (prs ?s q) (flist s q)" if q: "q \<in> set (allbase s)" "q \<noteq> p" for q
  proof -
    have "hpage s q \<noteq> hpage s p" using inv p q by (auto simp: heap_inv_def dest: inj_onD)
    then have "m x = ram s x" if "hpage s q * PAGE_SIZE \<le> x" "x < hpage s q * PAGE_SIZE + PAGE_SIZE" for x
      using that by (intro m [rule_format]) auto
    moreover have "pr_ok (ram s) (hpage s q) (prs s q) (flist s q)" using inv q(1) by (simp add: heap_inv_def)
    ultimately show ?thesis using q(2) by (simp add: pr_ok_frame [of "ram s"])
  qed
  then show fo: "flist ?s q = flist s q" if "q \<in> set (allbase s)" "q \<noteq> p" for q
    using pr_ok_unique(2) that by blast
  have all: "slot_ok s q \<and> pr_ok m (hpage s q) (((prs s)(p := pr)) q) (flist ?s q)" if "q \<in> set (allbase s)" for q
    using inv that self other fl fo by (cases "q = p") (auto simp: heap_inv_def)
  have bt: "PR_BLOCKTYPE (((prs s)(p := pr)) q) = PR_BLOCKTYPE (prs s q)" for q using same(2) by simp
  have ro: "roots_ok ?s" "coremap_ok ?s" "kpage_ok ?s = kpage_ok s"
    using heap_inv_cm [OF inv] by (simp_all add: roots_ok_def coremap_ok_cong [of ?s s] kpage_ok_def fun_eq_iff)
  show "heap_inv ?s"
    using inv ro(1,2) all unfolding heap_inv_def op hp rp ro(3) with_pr_fields bt by simp
qed

section \<open>Live blocks\<close>

definition page_live :: "kheap \<Rightarrow> nat \<Rightarrow> (vaddr \<times> nat) set" where
  "page_live s p = (\<lambda>x. (KV x, pr_size (prs s p))) ` (page_blocks (hpage s p) (pr_size (prs s p)) - set (flist s p))"

lemma live_pages: "live s = (\<Union>p\<in>set (allbase s). page_live s p)"
  by (auto simp: live_def page_live_def)

lemma heap_pr_ok: "heap_inv s \<Longrightarrow> p \<in> set (allbase s) \<Longrightarrow> pr_ok (ram s) (hpage s p) (prs s p) (flist s p)"
  by (simp add: heap_inv_def)

lemma heap_block_bounds:
  assumes "heap_inv s" "p \<in> set (allbase s)" "x \<in> page_blocks (hpage s p) (pr_size (prs s p))"
  shows "hpage s p * PAGE_SIZE \<le> x" "x + pr_size (prs s p) \<le> hpage s p * PAGE_SIZE + PAGE_SIZE"
    "x < hpage s p * PAGE_SIZE + PAGE_SIZE" "x < 536870912" "16 \<le> pr_size (prs s p)"
    "(x - hpage s p * PAGE_SIZE) mod pr_size (prs s p) = 0"
proof -
  have b: "PR_BLOCKTYPE (prs s p) < NSIZES" "hpage s p < 131072" using heap_pr_ok [OF assms(1,2)] by (auto simp: pr_ok_def)
  note pb = page_block_bounds [OF assms(3) [unfolded pr_size_def] b(1), folded pr_size_def]
  show "hpage s p * PAGE_SIZE \<le> x" "x + pr_size (prs s p) \<le> hpage s p * PAGE_SIZE + PAGE_SIZE"
    "(x - hpage s p * PAGE_SIZE) mod pr_size (prs s p) = 0" using pb by blast+
  show sz: "16 \<le> pr_size (prs s p)" using sizes_facts(1) [OF b(1)] by (simp add: pr_size_def)
  then show "x < hpage s p * PAGE_SIZE + PAGE_SIZE" using pb(2) by simp
  then show "x < 536870912" using b(2) by linarith
qed

lemma heap_block_unique:
  assumes "heap_inv s" "p \<in> set (allbase s)" "q \<in> set (allbase s)"
    and "x \<in> page_blocks (hpage s p) (pr_size (prs s p))" "y \<in> page_blocks (hpage s q) (pr_size (prs s q))" "KV x = KV y"
  shows "p = q" "x = y"
proof -
  note xb = heap_block_bounds [OF assms(1,2,4)] and yb = heap_block_bounds [OF assms(1,3,5)]
  show xy: "x = y" using assms(6) KV_inj [of x y] xb(4) yb(4) by simp
  have "hpage s p = hpage s q" using xb(1,3) yb(1,3) unfolding xy by linarith
  then show "p = q" using assms(1-3) by (auto simp: heap_inv_def dest: inj_onD)
qed

text \<open>Live blocks never overlap.\<close>

lemma live_apart:
  assumes inv: "heap_inv s" and l: "(a, m) \<in> live s" "(b, n) \<in> live s" and ne: "a \<noteq> b"
  shows "unat a + m \<le> unat b \<or> unat b + n \<le> unat a"
proof -
  from l obtain p x q y where
    p: "p \<in> set (allbase s)" "x \<in> page_blocks (hpage s p) (pr_size (prs s p))" "a = KV x" "m = pr_size (prs s p)" and
    q: "q \<in> set (allbase s)" "y \<in> page_blocks (hpage s q) (pr_size (prs s q))" "b = KV y" "n = pr_size (prs s q)"
    by (auto simp: live_def)
  note xb = heap_block_bounds [OF inv p(1,2)] and yb = heap_block_bounds [OF inv q(1,2)]
  have u: "unat a = x + 2147483648" "unat b = y + 2147483648" using p(3) q(3) xb(4) yb(4) by (simp_all add: unat_KV)
  show ?thesis
  proof (cases "p = q")
    case True
    have "x \<noteq> y" using ne p(3) q(3) by auto
    with page_blocks_apart [OF p(2), of y] q(2) True show ?thesis unfolding u p(4) q(4) by auto
  next
    case False
    then have "hpage s p \<noteq> hpage s q" using inv p(1) q(1) by (auto simp: heap_inv_def dest: inj_onD)
    then have "hpage s p * PAGE_SIZE + PAGE_SIZE \<le> hpage s q * PAGE_SIZE \<or> hpage s q * PAGE_SIZE + PAGE_SIZE \<le> hpage s p * PAGE_SIZE"
      by (cases "hpage s p" "hpage s q" rule: linorder_cases) auto
    then show ?thesis unfolding u p(4) q(4) using xb(1,2) yb(1,2) by linarith
  qed
qed

lemma page_live_with_pr:
  assumes inv: "heap_inv s" and p: "p \<in> set (allbase s)"
    and same: "PR_PAGEADDR pr = PR_PAGEADDR (prs s p)" "PR_BLOCKTYPE pr = PR_BLOCKTYPE (prs s p)"
    and ok: "pr_ok m (hpage s p) pr xs"
    and m: "\<forall>x. x < hpage s p * PAGE_SIZE \<or> hpage s p * PAGE_SIZE + PAGE_SIZE \<le> x \<longrightarrow> m x = ram s x"
  shows "live (with_pr p pr m s) = (\<Union>q\<in>set (allbase s) - {p}. page_live s q)
    \<union> (\<lambda>x. (KV x, pr_size (prs s p))) ` (page_blocks (hpage s p) (pr_size (prs s p)) - set xs)"
proof -
  note w = heap_inv_with_pr [OF inv p same ok m]
  have "page_live (with_pr p pr m s) q = page_live s q" if "q \<in> set (allbase s)" "q \<noteq> p" for q
    using w(3) [OF that] that(2) by (simp add: page_live_def w(4))
  moreover have "page_live (with_pr p pr m s) p =
      (\<lambda>x. (KV x, pr_size (prs s p))) ` (page_blocks (hpage s p) (pr_size (prs s p)) - set xs)"
    using w(2) same(2) by (simp add: page_live_def w(4) pr_size_def)
  ultimately show ?thesis unfolding live_pages using p by auto
qed

lemma page_live_other:
  assumes "heap_inv s" "p \<in> set (allbase s)" "x \<in> page_blocks (hpage s p) (pr_size (prs s p))"
    "q \<in> set (allbase s) - {p}" "(KV x, n) \<in> page_live s q"
  shows False
  using assms heap_block_unique(1) [OF assms(1,2) _ assms(3), of q] by (auto simp: page_live_def)

lemma heap_doalloc:
  assumes inv: "heap_inv s" and p: "p \<in> set (allbase s)" and n: "0 < unat (nfree (prs s p))"
  obtains x s' where "doalloc p s = Some (KV x, s')" "heap_inv s'" "x < 536870912"
    "(KV x, pr_size (prs s p)) \<notin> live s" "live s' = insert (KV x, pr_size (prs s p)) (live s)"
    "allbase s' = allbase s" "own_pages s' = own_pages s" "coremap s' = coremap s" "memory_start s' = memory_start s"
    "memory_end s' = memory_end s" "ram s' = ram s" "unat (nfree (prs s' p)) = unat (nfree (prs s p)) - 1"
    "pr_size (prs s' p) = pr_size (prs s p)" "\<And>q. q \<noteq> p \<Longrightarrow> prs s' q = prs s q" "kheaproots s' = kheaproots s"
proof -
  note ok = heap_pr_ok [OF inv p]
  then have "length (flist s p) = unat (nfree (prs s p))" by (simp add: pr_ok_def)
  then obtain x xs where xs: "flist s p = x # xs" using n by (cases "flist s p") auto
  from doalloc_ok [OF ok [unfolded xs]] obtain pr' where
    d: "doalloc p s = Some (KV x, s\<lparr>prs := (prs s)(p := pr')\<rparr>)" "pr_ok (ram s) (hpage s p) pr' xs"
      "PR_PAGEADDR pr' = PR_PAGEADDR (prs s p)" "PR_BLOCKTYPE pr' = PR_BLOCKTYPE (prs s p)" by blast
  let ?s = "with_pr p pr' (ram s) s"
  have eq: "s\<lparr>prs := (prs s)(p := pr')\<rparr> = ?s" by (simp add: with_pr_def)
  note w = heap_inv_with_pr [OF inv p d(3,4,2), simplified]
  have xb: "x \<in> page_blocks (hpage s p) (pr_size (prs s p))" "x \<notin> set xs" "set xs \<subseteq> page_blocks (hpage s p) (pr_size (prs s p))"
    using ok xs by (auto simp: pr_ok_def)
  let ?B = "page_blocks (hpage s p) (pr_size (prs s p))" and ?f = "\<lambda>x. (KV x, pr_size (prs s p))"
  let ?O = "\<Union>q\<in>set (allbase s) - {p}. page_live s q"
  have L: "live s = ?O \<union> ?f ` (?B - set (x # xs))"
    unfolding live_pages using p xs by (auto simp: page_live_def [of s p])
  have L': "live ?s = ?O \<union> ?f ` (?B - set xs)"
    using page_live_with_pr [OF inv p d(3,4,2)] by simp
  have "?f x \<notin> live s"
  proof
    assume "?f x \<in> live s"
    then consider "?f x \<in> ?O" | y where "y \<in> ?B - set (x # xs)" "?f x = ?f y" unfolding L by auto
    then show False
    proof cases
      case 1
      then show ?thesis using page_live_other [OF inv p xb(1)] by blast
    next
      case 2
      then have "x = y" using heap_block_unique(2) [OF inv p p xb(1)] by auto
      with 2 show ?thesis by auto
    qed
  qed
  moreover have "live ?s = insert (?f x) (live s)" unfolding L L' using xb by auto
  moreover have "own_pages ?s = own_pages s"
    by (simp add: own_pages_def w(4) root_page_def live_roots_def)
  moreover have "Suc (unat (nfree pr')) = unat (nfree (prs s p))"
    using d(2) ok xs by (simp add: pr_ok_def)
  then have "unat (nfree pr') = unat (nfree (prs s p)) - 1" by linarith
  moreover have "x < 536870912" by (rule heap_block_bounds(4) [OF inv p xb(1)])
  ultimately show thesis
    using d(1) w(1) d(4) by (intro that [of x ?s]) (simp_all add: eq pr_size_def)
qed

lemma heap_newpage:
  assumes inv: "heap_inv s" and g: "kpage_ok s g" "g \<notin> own_pages s"
    and p: "slot_ok s p" "p \<notin> set (allbase s)" and b: "b < NSIZES"
  obtains s' where "newpage p (page_addr g) b s = Some s'" "heap_inv s'" "live s' = live s" "allbase s' = p # allbase s"
    "PR_BLOCKTYPE (prs s' p) = b" "unat (nfree (prs s' p)) = PAGE_SIZE div sizes ! b"
    "\<And>q. q \<noteq> p \<Longrightarrow> prs s' q = prs s q" "coremap s' = coremap s" "memory_start s' = memory_start s"
    "memory_end s' = memory_end s" "own_pages s' = insert g (own_pages s)" "kheaproots s' = kheaproots s"
    "\<And>x. x < g * PAGE_SIZE \<or> g * PAGE_SIZE + PAGE_SIZE \<le> x \<Longrightarrow> ram s' x = ram s x"
proof -
  have gb: "g < 131072" by (rule kpage_bound [OF heap_inv_cm(1) [OF inv] g(1)])
  have sb: "length (sizebases s) = NSIZES" using inv by (simp add: heap_inv_def)
  from newpage_ok [OF gb b sb, of p] obtain m' pr where
    np: "newpage p (page_addr g) b s = Some (s\<lparr>ram := m', prs := (prs s)(p := pr),
      sizebases := (sizebases s)[b := p # sizebases s ! b], allbase := p # allbase s\<rparr>)"
    and ok: "pr_ok m' g pr (all_blocks g (sizes ! b))" and pr: "PR_BLOCKTYPE pr = b" "PR_PAGEADDR pr = page_addr g"
    and m': "\<And>x. x < g * PAGE_SIZE \<or> g * PAGE_SIZE + PAGE_SIZE \<le> x \<Longrightarrow> m' x = ram s x" by metis
  define s' where "s' = s\<lparr>ram := m', prs := (prs s)(p := pr),
      sizebases := (sizebases s)[b := p # sizebases s ! b], allbase := p # allbase s\<rparr>"
  have self: "pr_ok (ram s') g (prs s' p) (all_blocks g (sizes ! b))" using ok by (simp add: s'_def)
  note u = pr_ok_unique [OF self]
  have hq: "hpage s' q = hpage s q" if "q \<noteq> p" for q using that by (simp add: hpage_def s'_def)
  have hqa: "hpage s' q = hpage s q" if "q \<in> set (allbase s)" for q using hq [of q] p(2) that by blast
  have other: "pr_ok (ram s') (hpage s' q) (prs s' q) (flist s q)" if q: "q \<in> set (allbase s)" for q
  proof -
    have "hpage s q \<noteq> g" "q \<noteq> p" using g(2) q p(2) by (auto simp: own_pages_def)
    moreover have "m' x = ram s x" if "hpage s q * PAGE_SIZE \<le> x" "x < hpage s q * PAGE_SIZE + PAGE_SIZE" for x
      using that \<open>hpage s q \<noteq> g\<close> by (intro m') auto
    ultimately show ?thesis using heap_pr_ok [OF inv q] hq by (simp add: s'_def pr_ok_frame [of "ram s"])
  qed
  have fq: "flist s' q = flist s q" if "q \<in> set (allbase s)" for q using pr_ok_unique(2) [OF other [OF that]] .
  have him: "hpage s' ` set (allbase s) = hpage s ` set (allbase s)"
    using hqa by (intro image_cong) simp_all
  have rt: "root_page s' = root_page s" "live_roots s' = live_roots s" "slot_ok s' = slot_ok s" "kpage_ok s' = kpage_ok s"
    "kheaproots s' = kheaproots s" "allbase s' = p # allbase s" "ram s' = m'"
    by (simp_all add: root_page_def live_roots_def slot_ok_def kpage_ok_def fun_eq_iff s'_def)
  have op: "own_pages s' = insert g (own_pages s)" by (simp add: own_pages_def rt u(1) him)
  have inj: "inj_on (hpage s') (set (allbase s'))"
  proof -
    have "inj_on (hpage s') (set (allbase s))"
      using inv inj_on_cong [of "set (allbase s)" "hpage s'" "hpage s"] hqa by (auto simp: heap_inv_def)
    then show ?thesis using g(2) him u(1) by (auto simp: rt own_pages_def)
  qed
  have sbs: "sizebases s' ! c = filter (\<lambda>q. PR_BLOCKTYPE (prs s' q) = c) (allbase s')" if "c < NSIZES" for c
  proof -
    have "filter (\<lambda>q. PR_BLOCKTYPE (prs s' q) = c) (allbase s) = filter (\<lambda>q. PR_BLOCKTYPE (prs s q) = c) (allbase s)"
      using p(2) by (intro filter_cong) (auto simp: s'_def)
    then show ?thesis using inv that sb pr(1) by (auto simp: heap_inv_def rt) (auto simp: s'_def heap_inv_def)
  qed
  have "heap_inv s'"
    unfolding heap_inv_def
  proof (intro conjI)
    show "coremap_ok s'" "roots_ok s'" using heap_inv_cm [OF inv] by (simp_all add: coremap_ok_def roots_ok_def s'_def)
    show "length (sizebases s') = NSIZES" using sb by (simp add: s'_def)
    show "distinct (allbase s')" using inv p(2) by (simp add: rt heap_inv_def)
    show "\<forall>q\<in>set (allbase s'). slot_ok s' q \<and> pr_ok (ram s') (hpage s' q) (prs s' q) (flist s' q)"
      using self u other fq p(1) inv by (auto simp: rt heap_inv_def)
    show "hpage s' ` set (allbase s') \<inter> root_page s' ` live_roots s' = {}"
      using inv g(2) him u(1) by (auto simp: rt heap_inv_def own_pages_def)
  qed (use inv g(1) inj sbs in \<open>auto simp: op rt heap_inv_def\<close>)
  moreover have "live s' = live s"
  proof -
    have "prs s' p = pr" by (simp add: s'_def)
    then have "page_live s' p = {}" by (simp add: page_live_def u set_all_blocks pr_size_def pr(1))
    moreover have "page_live s' q = page_live s q" if "q \<in> set (allbase s)" for q
    proof -
      have "prs s' q = prs s q" using that p(2) by (auto simp: s'_def)
      then show ?thesis using fq [OF that] hqa [OF that] by (simp add: page_live_def)
    qed
    ultimately show ?thesis unfolding live_pages rt by simp
  qed
  moreover have "unat (nfree pr) = PAGE_SIZE div sizes ! b"
    using ok by (simp add: pr_ok_def all_blocks_def)
  ultimately show thesis
    using np m' pr(1) op by (intro that [of s']) (simp_all add: s'_def)
qed

section \<open>What the heap leaves alone\<close>

definition user_page :: "coremap_page \<Rightarrow> bool" where
  "user_page p \<longleftrightarrow> state p = Used \<or> state p = In_eviction"

definition kframe :: "'a vm_scheme \<Rightarrow> 'a vm_scheme \<Rightarrow> bool" where
  "kframe s s' \<longleftrightarrow> memory_start s' = memory_start s \<and> memory_end s' = memory_end s
     \<and> length (coremap s') = length (coremap s)
     \<and> (\<forall>i<length (coremap s). user_page (coremap s ! i) \<or> user_page (coremap s' ! i) \<longrightarrow>
          coremap s' ! i = coremap s ! i
          \<and> (\<forall>x. i * PAGE_SIZE \<le> x \<and> x < i * PAGE_SIZE + PAGE_SIZE \<longrightarrow> ram s' x = ram s x))"

lemma kframe_refl [simp]: "kframe s s"
  by (simp add: kframe_def)

lemma kframe_trans [trans]: "kframe s s' \<Longrightarrow> kframe s' s'' \<Longrightarrow> kframe s s''"
  unfolding kframe_def by metis

lemma kframeI:
  assumes "memory_start s' = memory_start s" "memory_end s' = memory_end s" "length (coremap s') = length (coremap s)"
    and "\<And>i. i < length (coremap s) \<Longrightarrow> i \<in> A \<Longrightarrow> \<not> user_page (coremap s ! i) \<and> \<not> user_page (coremap s' ! i)"
    and "\<And>i. i < length (coremap s) \<Longrightarrow> i \<notin> A \<Longrightarrow> coremap s' ! i = coremap s ! i"
    and "\<And>i x. i < length (coremap s) \<Longrightarrow> i \<notin> A \<Longrightarrow> i * PAGE_SIZE \<le> x \<Longrightarrow> x < i * PAGE_SIZE + PAGE_SIZE \<Longrightarrow> ram s' x = ram s x"
  shows "kframe s s'"
  unfolding kframe_def using assms by metis

lemma kframe_taken:
  assumes "b + n \<le> length (coremap s)" "free_run (coremap s) b n"
  shows "kframe s (kpages_taken b n s)"
  by (rule kframeI [where A = "{b..<b + n}"])
    (auto simp: user_page_def nth_claim bzero_words_def dest: free_runD [OF assms(2)])

lemma kframe_freed:
  assumes ok: "coremap_ok s" and b: "b < length (coremap s)" "state (coremap s ! b) = Fixed" "n = chunk_size (coremap s ! b)"
  shows "kframe s (kpages_freed b n s)"
proof -
  have cm: "cm_ok (first_page s) (coremap s)" using ok by (simp add: coremap_ok_def)
  have fx: "state (coremap s ! i) = Fixed" if "b \<le> i" "i < b + n" for i
    using cm_okD(6) [OF cm b(1,2), of i] that b(2,3) by (cases "i = b") auto
  show ?thesis
    by (rule kframeI [where A = "{b..<b + n}"]) (auto simp: user_page_def nth_unclaim fx)
qed

text \<open>Writes to a fixed page.\<close>

lemma kframe_page:
  assumes "memory_start s' = memory_start s" "memory_end s' = memory_end s" "coremap s' = coremap s"
    and "state (coremap s ! g) = Fixed"
    and "\<And>x. x < g * PAGE_SIZE \<or> g * PAGE_SIZE + PAGE_SIZE \<le> x \<Longrightarrow> ram s' x = ram s x"
  shows "kframe s s'"
proof -
  have "ram s' x = ram s x" if "user_page (coremap s ! i)" "i * PAGE_SIZE \<le> x" "x < i * PAGE_SIZE + PAGE_SIZE" for i x
  proof -
    have "i \<noteq> g" using that(1) assms(4) by (auto simp: user_page_def)
    then show ?thesis using that(2,3) by (intro assms(5)) auto
  qed
  then show ?thesis using assms(1-3) by (simp add: kframe_def)
qed

lemma kframe_with_root [simp]: "kframe s (with_root r f s)"
  by (simp add: kframe_def)

section \<open>Allocation\<close>

lemma blocktype_ok:
  assumes "sz \<le> 2048"
  obtains b where "blocktype sz = Some b" "b < NSIZES" "sz \<le> sizes ! b"
proof -
  have "\<not> (\<forall>j. 0 \<le> j \<longrightarrow> j < NSIZES \<longrightarrow> \<not> sz \<le> sizes ! j)"
    using assms by (auto simp: sizes_def intro!: exI [of _ 7])
  then have "blocktype sz \<noteq> None" unfolding blocktype_def find_upt_None by simp
  then obtain b where b: "blocktype sz = Some b" by blast
  with find_upt_Some(2,3) [OF b [unfolded blocktype_def]] that show thesis by blast
qed

lemma find_page_cases:
  assumes "\<forall>p\<in>set l. PR_BLOCKTYPE (prs s p) = b"
  obtains (none) "find_page b l s = Some None"
  | (found) p where "find_page b l s = Some (Some p)" "p \<in> set l" "0 < unat (nfree (prs s p))"
  using assms
proof (induction l arbitrary: thesis)
  case Nil
  then show ?case by simp
next
  case (Cons q l)
  show ?case
  proof (cases "0 < nfree (prs s q)")
    case True
    then have "0 < unat (nfree (prs s q))" by (simp add: word_less_nat_alt)
    with True Cons.prems show ?thesis by auto
  next
    case False
    then have e: "find_page b (q # l) s = find_page b l s" using Cons.prems(3) by simp
    show ?thesis
    proof (rule Cons.IH)
      show "thesis" if "find_page b l s = Some None" using that e Cons.prems(1) by simp
      show "thesis" if "find_page b l s = Some (Some p)" "p \<in> set l" "0 < unat (nfree (prs s p))" for p
        using that e Cons.prems(2) by simp
    qed (use Cons.prems(3) in simp)
  qed
qed

text \<open>No root that lacks its page is about to lose its last slot to failed attempts.\<close>

definition roots_room :: "kheap \<Rightarrow> bool" where
  "roots_room s \<longleftrightarrow> (\<forall>r<NUM_PAGEREFPAGES. rpage (kheaproots s ! r) = 0 \<longrightarrow> numinuse (kheaproots s ! r) + 1 < NPAGEREFS_PER_PAGE)"

lemma kpage_ok_with_root [simp]: "kpage_ok (with_root r f s) = kpage_ok s"
  by (simp add: kpage_ok_def fun_eq_iff)

lemma kpage_ok_taken:
  assumes "kpage_ok s g" "state (coremap s ! b) = Free"
  shows "kpage_ok (kpages_taken b 1 s) g"
proof -
  have "g \<noteq> b" using assms by (auto simp: kpage_ok_def)
  then have "\<not> (b \<le> g \<and> g < b + 1)" by simp
  then show ?thesis using assms(1) by (auto simp: kpage_ok_def nth_claim)
qed

lemma kpage_ok_new:
  "first_page s \<le> b \<Longrightarrow> b < length (coremap s) \<Longrightarrow> kpage_ok (kpages_taken b 1 s) b"
  by (simp add: kpage_ok_def nth_claim)

text \<open>A slot for a page \<open>g\<close> that the heap does not own yet.\<close>

lemma heap_allocpageref:
  assumes inv: "heap_inv s" and room: "roots_room s" and g: "kpage_ok s g" "g \<notin> own_pages s"
  obtains (none) s' where "allocpageref s = Some (None, s')" "heap_inv s'" "live s' = live s" "kframe s s'"
      "kpage_ok s' g" "g \<notin> own_pages s'" "allbase s' = allbase s" "prs s' = prs s" "coremap s' = coremap s"
  | (some) p s' where "allocpageref s = Some (Some p, s')" "heap_inv s'" "live s' = live s" "kframe s s'"
      "kpage_ok s' g" "g \<notin> own_pages s'" "allbase s' = allbase s" "prs s' = prs s" "slot_ok s' p" "p \<notin> set (allbase s')"
      "roots_room s'"
proof -
  have len: "length (kheaproots s) = NUM_PAGEREFPAGES" using inv by (simp add: heap_inv_def roots_ok_def)
  have rm: "rpage (kheaproots s ! r) = 0 \<longrightarrow> numinuse (kheaproots s ! r) + 1 < NPAGEREFS_PER_PAGE"
    if "r < NUM_PAGEREFPAGES" for r using room that by (simp add: roots_room_def)
  have notin: "r * NPAGEREFS_PER_PAGE + k \<notin> set (allbase s)"
    if "k < NPAGEREFS_PER_PAGE" "k \<notin> used_slots (kheaproots s ! r)" for r k
    using inv that by (auto simp: heap_inv_def slot_ok_def)
  have early: "rpage (kheaproots s ! r') \<noteq> 0"
    if "r' < r" "r < NUM_PAGEREFPAGES" "\<And>r'. r' < r \<Longrightarrow> NPAGEREFS_PER_PAGE \<le> numinuse (kheaproots s ! r')" for r r'
  proof
    assume "rpage (kheaproots s ! r') = 0"
    moreover have "r' < NUM_PAGEREFPAGES" using that(1,2) by simp
    ultimately have "numinuse (kheaproots s ! r') < NPAGEREFS_PER_PAGE" using inv by (simp add: heap_inv_def)
    with that(3) [OF that(1)] show False by simp
  qed
  from heap_inv_cm [OF inv] show thesis
  proof (cases rule: allocpageref_cases)
    case none
    then show ?thesis using that(1) inv g by simp
  next
    case (leak r k)
    note gr = heap_inv_grab [OF inv leak(1-3) rm [OF leak(1)]]
    from leak(5) gr g show ?thesis by (intro that(1) [of "with_root r (grab_slot k) s"]) simp_all
  next
    case (has r k)
    let ?s = "with_root r (grab_slot k) s" and ?p = "r * NPAGEREFS_PER_PAGE + k"
    note gr = heap_inv_grab [OF inv has(1-3) rm [OF has(1)]]
    have "k \<in> used_slots (grab_slot k (kheaproots s ! r))"
      using used_slots_grab [of "kheaproots s ! r" k] has(1,2) heap_inv_cm(2) [OF inv] by (simp add: roots_ok_def root_ok_def)
    moreover have "rpage (grab_slot k (kheaproots s ! r)) = rpage (kheaproots s ! r)" by (simp add: grab_slot_def)
    ultimately have "slot_ok ?s ?p"
      using has(1,2,5) len early [OF _ has(1,4)] by (auto simp: slot_ok_def nth_list_update le_less)
    moreover have "roots_room ?s" using room has(1,5) len by (auto simp: roots_room_def nth_list_update grab_slot_def)
    ultimately show ?thesis using has(6) gr g notin [OF has(2,3)] by (intro that(2) [of ?p ?s]) simp_all
  next
    case (got r k b)
    let ?s1 = "with_root r (grab_slot k) s" and ?p = "r * NPAGEREFS_PER_PAGE + k"
    let ?s2 = "kpages_taken b 1 ?s1" let ?s3 = "with_root r (rpage_update (\<lambda>_. page_addr b)) ?s2"
    note gr = heap_inv_grab [OF inv got(1-3) rm [OF got(1)]]
    have run: "free_run (coremap ?s1) b 1" using got(8) by (simp add: free_run_def)
    note tk = heap_inv_taken [OF gr(1), of b 1, simplified, OF got(6) _ run [simplified]]
    have bl: "Suc b \<le> length (coremap s)" using got(7) by simp
    note tk = tk [OF this]
    have bo: "b \<notin> own_pages ?s2" using tk(3,4) by simp
    have rg: "rpage (grab_slot k (kheaproots s ! r)) = rpage (kheaproots s ! r)" by (simp add: grab_slot_def)
    have r0: "rpage (kheaproots ?s2 ! r) = 0" using got(1,5) len rg by simp
    have kb: "kpage_ok ?s2 b" using got(6,7) by (intro kpage_ok_new) simp_all
    note sr = heap_inv_set_root [OF tk(1) [folded One_nat_def] got(1) r0 kb bo]
    have gb: "g \<noteq> b" using g(1) got(8) by (auto simp: kpage_ok_def)
    have "kpage_ok ?s2 g" using g(1) got(8) by (intro kpage_ok_taken) simp_all
    then have kg: "kpage_ok ?s3 g" "g \<notin> own_pages ?s3" using g(2) gb sr(3) tk(3) gr(3) by simp_all
    have "k \<in> used_slots (grab_slot k (kheaproots s ! r))"
      using used_slots_grab [of "kheaproots s ! r" k] got(1,2) heap_inv_cm(2) [OF inv] by (simp add: roots_ok_def root_ok_def)
    then have ku: "k \<in> used_slots (rpage_update (\<lambda>_. page_addr b) (grab_slot k (kheaproots s ! r)))" by (simp add: used_slots_def)
    moreover have "page_addr b \<noteq> 0" by (rule page_addr_nonzero [OF heap_inv_cm(1) [OF inv] got(7)])
    ultimately have rr: "roots_room ?s3"
      using room got(1) len by (auto simp: roots_room_def nth_list_update)
    have "page_addr b \<noteq> 0" by (rule page_addr_nonzero [OF heap_inv_cm(1) [OF inv] got(7)])
    with ku have sl: "slot_ok ?s3 ?p"
      using got(1,2) len early [OF _ got(1,4)] by (auto simp: slot_ok_def nth_list_update le_less)
    have "kframe s ?s2" using kframe_taken [of b 1 ?s1] run bl kframe_trans [OF kframe_with_root] by fastforce
    then have "kframe s ?s3" using kframe_with_root kframe_trans by blast
    with got(9) sr kg sl rr tk(2) gr(2) notin [OF got(2,3)] show ?thesis by (intro that(2) [of ?p ?s3]) simp_all
  qed
qed

definition alloc_effect :: "nat \<Rightarrow> kheap \<Rightarrow> vaddr \<Rightarrow> kheap \<Rightarrow> bool" where
  "alloc_effect sz s a s' \<longleftrightarrow> heap_ok s' \<and> kframe s s' \<and> (a = 0 \<longrightarrow> live s' = live s)
     \<and> (a \<noteq> 0 \<and> roots_room s \<longrightarrow> roots_room s')
     \<and> (a \<noteq> 0 \<longrightarrow> (\<exists>bsz. sz \<le> bsz \<and> (a, bsz) \<notin> live s \<and> live s' = insert (a, bsz) (live s)))"

lemma heap_ok_inv: "heap_ok s \<Longrightarrow> heap_inv s"
  by (simp add: heap_ok_def)

lemma doalloc_effect:
  assumes inv: "heap_inv s" and p: "p \<in> set (allbase s)" and n: "0 < unat (nfree (prs s p))"
    and strict: "\<And>q. q \<in> set (allbase s) \<Longrightarrow> q \<noteq> p \<Longrightarrow> unat (nfree (prs s q)) < pr_count (prs s q)"
    and le: "unat (nfree (prs s p)) \<le> pr_count (prs s p)" and sz: "sz \<le> pr_size (prs s p)"
  obtains a s' where "doalloc p s = Some (a, s')" "a \<noteq> 0" "alloc_effect sz s a s'"
proof -
  obtain x s' where d: "doalloc p s = Some (KV x, s')" "heap_inv s'" "x < 536870912"
    "(KV x, pr_size (prs s p)) \<notin> live s" "live s' = insert (KV x, pr_size (prs s p)) (live s)"
    "allbase s' = allbase s" "own_pages s' = own_pages s" "coremap s' = coremap s" "memory_start s' = memory_start s"
    "memory_end s' = memory_end s" "ram s' = ram s" "unat (nfree (prs s' p)) = unat (nfree (prs s p)) - 1"
    "pr_size (prs s' p) = pr_size (prs s p)" "\<And>q. q \<noteq> p \<Longrightarrow> prs s' q = prs s q" "kheaproots s' = kheaproots s"
    by (rule heap_doalloc [OF inv p n]) (rule that)
  have "unat (nfree (prs s' q)) < pr_count (prs s' q)" if "q \<in> set (allbase s)" for q
  proof (cases "q = p")
    case True
    then show ?thesis using d(12,13) n le by (simp add: pr_count_def)
  next
    case False
    then show ?thesis using d(14) strict that by simp
  qed
  then have "heap_ok s'" using d(2,6) by (simp add: heap_ok_def)
  moreover have "kframe s s'" using d(8-11) by (simp add: kframe_def)
  moreover have "KV x \<noteq> 0" using KV_nonzero [of x] d(3) by simp
  moreover have "roots_room s' = roots_room s" using d(15) by (simp add: roots_room_def)
  ultimately show thesis
    using that [OF d(1)] d(4,5) sz by (auto simp: alloc_effect_def)
qed

lemma thread_blocks_roots [simp]: "kheaproots (thread_blocks fla sz i n s) = kheaproots s"
  by (induction fla sz i n s rule: thread_blocks.induct) (subst thread_blocks.simps, simp add: kstore_def)

lemma newpage_roots: "newpage p va b s = Some s' \<Longrightarrow> kheaproots s' = kheaproots s"
  by (auto simp: newpage_def Let_def kstore_def fill_deadbeef_def split: bind_splits if_splits)

lemma subpage_kmalloc_ok:
  assumes ok: "heap_ok s" and room: "roots_room s" and sz: "sz \<le> 2048"
  obtains a s' where "subpage_kmalloc sz s = Some (a, s')" "alloc_effect sz s a s'"
proof -
  note inv = heap_ok_inv [OF ok]
  obtain b where b: "blocktype sz = Some b" "b < NSIZES" "sz \<le> sizes ! b" by (rule blocktype_ok [OF sz])
  have l: "b < length (sizebases s)" "sizebases s ! b = filter (\<lambda>p. PR_BLOCKTYPE (prs s p) = b) (allbase s)"
    using inv b(2) by (auto simp: heap_inv_def)
  let ?l = "sizebases s ! b"
  have strict: "unat (nfree (prs s q)) < pr_count (prs s q)" if "q \<in> set (allbase s)" for q
    using ok that by (simp add: heap_ok_def)
  have "\<forall>p\<in>set ?l. PR_BLOCKTYPE (prs s p) = b" using l(2) by simp
  then show thesis
  proof (cases rule: find_page_cases)
    case (found p)
    then have p: "p \<in> set (allbase s)" "PR_BLOCKTYPE (prs s p) = b" using l(2) by auto
    obtain a s' where "doalloc p s = Some (a, s')" "a \<noteq> 0" "alloc_effect sz s a s'"
      by (rule doalloc_effect [OF inv p(1) found(3)])
        (use strict p b(3) in \<open>auto simp: pr_size_def intro: less_imp_le\<close>)
    moreover have "subpage_kmalloc sz s = doalloc p s"
      using b(1) l(1) found(1) by (simp add: subpage_kmalloc_def)
    ultimately show ?thesis using that by simp
  next
    case none
    have cm: "coremap_ok s" by (rule heap_inv_cm(1) [OF inv])
    have "0 < (1 :: nat)" by simp
    with cm show ?thesis
    proof (cases rule: alloc_kpages_cases)
      case full
      then have "subpage_kmalloc sz s = Some (0, s)"
        using b(1) l(1) none by (simp add: subpage_kmalloc_def)
      then show ?thesis using that ok by (simp add: alloc_effect_def)
    next
      case (got g)
      let ?s1 = "kpages_taken g 1 s"
      have gl: "g < length (coremap s)" using got(3) by simp
      note tk = heap_inv_taken [OF inv got(2) \<open>0 < 1\<close> got(3,4)]
      have kf1: "kframe s ?s1" by (rule kframe_taken [OF got(3,4)])
      have g1: "kpage_ok ?s1 g" "g \<notin> own_pages ?s1" using kpage_ok_new [OF got(2) gl] tk(3,4) by auto
      have rm: "roots_room ?s1" using room by (simp add: roots_room_def)
      have al: "unat (page_addr g) mod PAGE_SIZE = 0"
        unfolding KV_page(2) [OF cm gl] by (simp add: mod_add_eq [symmetric])
      have step: "subpage_kmalloc sz s = (do {
          (pr, s2) \<leftarrow> allocpageref ?s1;
          (case pr of None \<Rightarrow> do { s3 \<leftarrow> free_kpages (page_addr g) s2; Some (0, s3) }
           | Some p \<Rightarrow> do { s3 \<leftarrow> newpage p (page_addr g) b s2; doalloc p s3 }) })"
        using b(1) l(1) none got(1) page_addr_nonzero [OF cm gl] al
        by (simp add: subpage_kmalloc_def)
      from tk(1) rm g1 show ?thesis
      proof (cases rule: heap_allocpageref)
        case (none s2)
        have g2: "g < length (coremap s2)" "chunk_size (coremap s2 ! g) = 1" "state (coremap s2 ! g) = Fixed"
          using none(5) by (auto simp: kpage_ok_def)
        note fr = heap_inv_freed [OF none(2) g2(1) refl _ none(6), simplified g2(2), simplified]
        have "free_kpages (page_addr g) s2 = Some (kpages_freed g 1 s2)"
          using free_kpages_head [OF heap_inv_cm(1) [OF none(2)] g2(1)] g2(2) by simp
        then have "subpage_kmalloc sz s = Some (0, kpages_freed g 1 s2)" using step none(1) by simp
        moreover have "kframe s (kpages_freed g 1 s2)"
          using kf1 none(4) kframe_freed [OF heap_inv_cm(1) [OF none(2)] g2(1,3)] g2(2) kframe_trans by metis
        moreover have "heap_ok (kpages_freed g 1 s2)"
          using fr(1) none(7,8) strict by (simp add: heap_ok_def)
        ultimately show ?thesis using that fr(2) none(3) tk(2) by (simp add: alloc_effect_def)
      next
        case (some p s2)
        obtain s3 where n: "newpage p (page_addr g) b s2 = Some s3" "heap_inv s3" "live s3 = live s2"
          "allbase s3 = p # allbase s2" "PR_BLOCKTYPE (prs s3 p) = b" "unat (nfree (prs s3 p)) = PAGE_SIZE div sizes ! b"
          "\<And>q. q \<noteq> p \<Longrightarrow> prs s3 q = prs s2 q" "coremap s3 = coremap s2" "memory_start s3 = memory_start s2"
          "memory_end s3 = memory_end s2"
          "\<And>x. x < g * PAGE_SIZE \<or> g * PAGE_SIZE + PAGE_SIZE \<le> x \<Longrightarrow> ram s3 x = ram s2 x"
          by (rule heap_newpage [OF some(2,5,6,9,10) b(2)]) (rule that)
        have p3: "p \<in> set (allbase s3)" "0 < unat (nfree (prs s3 p))" "unat (nfree (prs s3 p)) \<le> pr_count (prs s3 p)"
          "sz \<le> pr_size (prs s3 p)"
          using n(4-6) sizes_facts(4) [OF b(2)] b(3) by (auto simp: pr_count_def pr_size_def)
        have st: "unat (nfree (prs s3 q)) < pr_count (prs s3 q)" if "q \<in> set (allbase s3)" "q \<noteq> p" for q
          using that n(4,7) some(7,8) strict by simp
        obtain a s' where da: "doalloc p s3 = Some (a, s')" "a \<noteq> 0" "alloc_effect sz s3 a s'"
          by (rule doalloc_effect [OF n(2) p3(1,2) st p3(3,4)])
        have "state (coremap s2 ! g) = Fixed" using some(5) by (simp add: kpage_ok_def)
        with n(8-11) have "kframe s2 s3" by (intro kframe_page [where g = g]) auto
        then have "kframe s s3" using kf1 some(4) kframe_trans by metis
        moreover have "roots_room s3" using some(11) newpage_roots [OF n(1)] by (simp add: roots_room_def)
        ultimately have "alloc_effect sz s a s'"
          using da(2,3) n(3) some(3) tk(2) kframe_trans [of s s3 s'] by (simp add: alloc_effect_def)
        moreover have "subpage_kmalloc sz s = Some (a, s')" using step some(1) n(1) da(1) by simp
        ultimately show ?thesis using that by blast
      qed
    qed
  qed
qed

section \<open>Release\<close>

lemma page_contains:
  assumes "heap_inv s" "q \<in> set (allbase s)" "x < 536870912"
  shows "PR_PAGEADDR (prs s q) \<le> KV x \<and> KV x < PR_PAGEADDR (prs s q) + 4096 \<longleftrightarrow>
    hpage s q * PAGE_SIZE \<le> x \<and> x < hpage s q * PAGE_SIZE + PAGE_SIZE"
proof -
  have pg: "PR_PAGEADDR (prs s q) = KV (hpage s q * PAGE_SIZE)" and lt: "hpage s q < 131072"
    using heap_pr_ok [OF assms(1,2)] by (auto simp: pr_ok_def)
  have "PR_PAGEADDR (prs s q) + 4096 = KV (hpage s q * PAGE_SIZE + PAGE_SIZE)"
    unfolding pg using KV_add [of "hpage s q * PAGE_SIZE" PAGE_SIZE] by simp
  then show ?thesis using lt assms(3) by (simp add: pg KV_le KV_less)
qed

lemma find_owner_ok:
  assumes inv: "heap_inv s" and x: "x < 536870912" "hpage s p * PAGE_SIZE \<le> x" "x < hpage s p * PAGE_SIZE + PAGE_SIZE"
    and l: "p \<in> set l" "set l \<subseteq> set (allbase s)"
  shows "find_owner (KV x) l s = Some (Some p)"
  using l
proof (induction l)
  case (Cons q l)
  have q: "q \<in> set (allbase s)" and p: "p \<in> set (allbase s)" using Cons.prems by auto
  have bt: "PR_BLOCKTYPE (prs s q) < NSIZES" using heap_pr_ok [OF inv q] by (simp add: pr_ok_def)
  note c = page_contains [OF inv q x(1)]
  show ?case
  proof (cases "q = p")
    case True
    with c x(2,3) bt show ?thesis by simp
  next
    case False
    then have "hpage s q \<noteq> hpage s p" using inv p q by (auto simp: heap_inv_def dest: inj_onD)
    then have "\<not> (hpage s q * PAGE_SIZE \<le> x \<and> x < hpage s q * PAGE_SIZE + PAGE_SIZE)" using x(2,3) by auto
    with c bt have "find_owner (KV x) (q # l) s = find_owner (KV x) l s" by auto
    with Cons False show ?thesis by auto
  qed
qed simp

lemma find_owner_none:
  assumes inv: "heap_inv s" and x: "x < 536870912" "x div PAGE_SIZE \<notin> hpage s ` set (allbase s)"
    and l: "set l \<subseteq> set (allbase s)"
  shows "find_owner (KV x) l s = Some None"
  using l
proof (induction l)
  case (Cons q l)
  have q: "q \<in> set (allbase s)" using Cons.prems by auto
  have bt: "PR_BLOCKTYPE (prs s q) < NSIZES" using heap_pr_ok [OF inv q] by (simp add: pr_ok_def)
  have "\<not> (hpage s q * PAGE_SIZE \<le> x \<and> x < hpage s q * PAGE_SIZE + PAGE_SIZE)"
  proof
    assume "hpage s q * PAGE_SIZE \<le> x \<and> x < hpage s q * PAGE_SIZE + PAGE_SIZE"
    then have "x div PAGE_SIZE = hpage s q" by (intro div_nat_eqI) simp_all
    with x(2) q show False by auto
  qed
  with page_contains [OF inv q x(1)] bt have "find_owner (KV x) (q # l) s = find_owner (KV x) l s" by auto
  with Cons show ?case by auto
qed simp

text \<open>Putting a live block back on its page's free list.\<close>

lemma heap_put:
  assumes inv: "heap_inv s" and p: "p \<in> set (allbase s)" and n: "unat (nfree (prs s p)) < PAGE_SIZE"
    and x: "x \<in> page_blocks (hpage s p) (pr_size (prs s p))" "x \<notin> set (flist s p)"
  defines "pr1 \<equiv> (prs s p)\<lparr>freelist_offset := ucast (KV x - PR_PAGEADDR (prs s p)), nfree := nfree (prs s p) + 1\<rparr>"
  defines "s1 \<equiv> with_pr p pr1 (put_block x (pr_size (prs s p)) (pr_head (prs s p)) (ram s)) s"
  shows "heap_inv s1" "live s1 = live s - {(KV x, pr_size (prs s p))}" "flist s1 p = x # flist s p"
    "hpage s1 = hpage s" "own_pages s1 = own_pages s"
proof -
  have ok: "pr_ok (put_block x (pr_size (prs s p)) (pr_head (prs s p)) (ram s)) (hpage s p) pr1 (x # flist s p)"
    unfolding pr1_def by (rule pr_ok_put [OF heap_pr_ok [OF inv p] x n])
  have same: "PR_PAGEADDR pr1 = PR_PAGEADDR (prs s p)" "PR_BLOCKTYPE pr1 = PR_BLOCKTYPE (prs s p)"
    by (simp_all add: pr1_def)
  note xb = heap_block_bounds [OF inv p x(1)]
  have m: "\<forall>y. y < hpage s p * PAGE_SIZE \<or> hpage s p * PAGE_SIZE + PAGE_SIZE \<le> y \<longrightarrow>
      put_block x (pr_size (prs s p)) (pr_head (prs s p)) (ram s) y = ram s y"
    using xb by (auto intro!: put_block_other)
  note w = heap_inv_with_pr [OF inv p same ok m, folded s1_def]
  show "heap_inv s1" "flist s1 p = x # flist s p" "hpage s1 = hpage s" by (rule w)+
  show "own_pages s1 = own_pages s" by (simp add: own_pages_def w(4)) (simp add: s1_def root_page_def live_roots_def)
  let ?B = "page_blocks (hpage s p) (pr_size (prs s p))" and ?f = "\<lambda>x. (KV x, pr_size (prs s p))"
  let ?O = "\<Union>q\<in>set (allbase s) - {p}. page_live s q"
  have L: "live s = ?O \<union> ?f ` (?B - set (flist s p))"
    unfolding live_pages using p by (auto simp: page_live_def [of s p])
  have L': "live s1 = ?O \<union> ?f ` (?B - set (x # flist s p))"
    using page_live_with_pr [OF inv p same ok m] by (simp add: s1_def)
  have "?f x \<notin> ?O" using page_live_other [OF inv p x(1)] by blast
  moreover have "inj_on ?f ?B" using heap_block_unique(2) [OF inv p p] by (auto intro!: inj_onI)
  then have "?f ` ((?B - set (flist s p)) - {x}) = ?f ` (?B - set (flist s p)) - ?f ` {x}"
    using x(1) by (intro inj_on_image_set_diff) auto
  moreover have "?B - set (x # flist s p) = (?B - set (flist s p)) - {x}" by auto
  ultimately show "live s1 = live s - {?f x}" unfolding L L' by auto
qed

lemma rpage_drop_slot [simp]: "rpage (drop_slot k root) = rpage root"
  by (simp add: drop_slot_def)

text \<open>A page all of whose blocks are free leaves the heap.\<close>

lemma heap_drop_page:
  assumes inv: "heap_inv s" and p: "p \<in> set (allbase s)" and full: "unat (nfree (prs s p)) = pr_count (prs s p)"
  obtains s' where "remove_lists p (PR_BLOCKTYPE (prs s p)) s \<bind> freepageref p = Some s'" "heap_inv s'" "live s' = live s"
    "allbase s' = remove1 p (allbase s)" "prs s' = prs s" "coremap s' = coremap s" "memory_start s' = memory_start s"
    "memory_end s' = memory_end s" "ram s' = ram s" "hpage s p \<notin> own_pages s'" "kpage_ok s' (hpage s p)"
    "roots_room s \<longrightarrow> roots_room s'"
proof -
  let ?b = "PR_BLOCKTYPE (prs s p)" and ?r = "p div NPAGEREFS_PER_PAGE" and ?k = "p mod NPAGEREFS_PER_PAGE"
  have ok: "pr_ok (ram s) (hpage s p) (prs s p) (flist s p)" by (rule heap_pr_ok [OF inv p])
  then have b: "?b < NSIZES" by (simp add: pr_ok_def)
  have sb: "length (sizebases s) = NSIZES" "distinct (allbase s)"
    "\<And>c. c < NSIZES \<Longrightarrow> sizebases s ! c = filter (\<lambda>q. PR_BLOCKTYPE (prs s q) = c) (allbase s)"
    using inv by (auto simp: heap_inv_def)
  define s1 where "s1 = s\<lparr>sizebases := (sizebases s)[?b := remove1 p (sizebases s ! ?b)], allbase := remove1 p (allbase s)\<rparr>"
  have rl: "remove_lists p ?b s = Some s1" using b sb(1) by (simp add: remove_lists_def s1_def)
  have sl: "slot_ok s p" using inv p by (simp add: heap_inv_def)
  have ro: "roots_ok s1" using heap_inv_cm(2) [OF inv] by (simp add: roots_ok_def s1_def)
  define s' where "s' = with_root ?r (drop_slot ?k) s1"
  have fp: "freepageref p s1 = Some s'"
    unfolding s'_def using ro sl by (intro freepageref_ok) (auto simp: slot_ok_def s1_def)
  have r: "?r < NUM_PAGEREFPAGES" using sl by (simp add: slot_ok_def less_mult_imp_div_less)
  have len: "length (kheaproots s) = NUM_PAGEREFPAGES" using inv by (simp add: heap_inv_def roots_ok_def)
  have nth: "kheaproots s' ! i = (if i = ?r then drop_slot ?k (kheaproots s ! ?r) else kheaproots s ! i)" for i
    using r len by (simp add: s'_def s1_def)
  have rok: "root_ok (kheaproots s ! ?r)" using heap_inv_cm(2) [OF inv] r by (simp add: roots_ok_def)
  have ku: "?k \<in> used_slots (kheaproots s ! ?r)" using sl by (simp add: slot_ok_def)
  have us: "used_slots (drop_slot ?k (kheaproots s ! ?r)) = used_slots (kheaproots s ! ?r) - {?k}"
    using rok by (intro used_slots_drop) (auto simp: root_ok_def)
  have rp: "rpage (kheaproots s' ! i) = rpage (kheaproots s ! i)" for i unfolding nth by (simp add: drop_slot_def)
  have f: "allbase s' = remove1 p (allbase s)" "prs s' = prs s" "coremap s' = coremap s" "memory_start s' = memory_start s"
    "memory_end s' = memory_end s" "ram s' = ram s" "hpage s' = hpage s" "flist s' = flist s" "kpage_ok s' = kpage_ok s"
    "allocated_pages_count s' = allocated_pages_count s"
    by (simp_all add: s'_def s1_def hpage_def flist_def kpage_ok_def fun_eq_iff)
  have f': "live_roots s' = live_roots s" "root_page s' = root_page s"
    by (simp_all add: live_roots_def root_page_def rp fun_eq_iff)
  have set: "set (allbase s') = set (allbase s) - {p}" using sb(2) by (simp add: f(1))
  have inj: "inj_on (hpage s) (set (allbase s))" using inv by (simp add: heap_inv_def)
  have him: "hpage s ` (set (allbase s) - {p}) = hpage s ` set (allbase s) - {hpage s p}"
    using inj p by (auto simp: inj_on_def)
  have op: "own_pages s' = own_pages s - {hpage s p}"
  proof -
    have "hpage s p \<notin> root_page s ` live_roots s" using inv p unfolding heap_inv_def by blast
    then show ?thesis unfolding own_pages_def f(7) f' set him by blast
  qed
  have slq: "slot_ok s' q" if "q \<in> set (allbase s')" for q
  proof -
    have q: "q \<noteq> p" "slot_ok s q" using that set inv by (auto simp: heap_inv_def)
    then have "q div NPAGEREFS_PER_PAGE = ?r \<Longrightarrow> q mod NPAGEREFS_PER_PAGE \<noteq> ?k" by (metis div_mult_mod_eq)
    then show ?thesis using q(2) us unfolding slot_ok_def rp nth by auto
  qed
  have "heap_inv s'"
    unfolding heap_inv_def
  proof (intro conjI)
    show "coremap_ok s'" using heap_inv_cm(1) [OF inv] by (simp add: coremap_ok_cong [of s' s] f)
    show "roots_ok s'"
      using heap_inv_cm(2) [OF inv] root_ok_drop(1) [OF rok ku] len unfolding roots_ok_def nth
      by (simp add: s'_def s1_def)
    show "length (sizebases s') = NSIZES" using sb(1) by (simp add: s'_def s1_def)
    show "\<forall>c<NSIZES. sizebases s' ! c = filter (\<lambda>q. PR_BLOCKTYPE (prs s' q) = c) (allbase s')"
    proof (intro allI impI)
      fix c assume c: "c < NSIZES"
      have "filter (\<lambda>q. PR_BLOCKTYPE (prs s q) = c) (remove1 p (allbase s)) = remove1 p (sizebases s ! c)"
        unfolding sb(3) [OF c] by (rule filter_remove1)
      moreover have "remove1 p (sizebases s ! c) = sizebases s ! c" if "c \<noteq> ?b"
        using that sb(3) [OF c] by (intro remove1_idem) auto
      ultimately show "sizebases s' ! c = filter (\<lambda>q. PR_BLOCKTYPE (prs s' q) = c) (allbase s')"
        using b sb(1) unfolding f(1,2) by (auto simp: s'_def s1_def nth_list_update)
    qed
    show "inj_on (hpage s') (set (allbase s'))" unfolding f(7) set using inj by (rule inj_on_subset) auto
    show "\<forall>q\<in>set (allbase s'). slot_ok s' q \<and> pr_ok (ram s') (hpage s' q) (prs s' q) (flist s' q)"
      using slq inv set unfolding f by (auto simp: heap_inv_def)
    show "\<forall>i<NUM_PAGEREFPAGES. rpage (kheaproots s' ! i) = 0 \<longrightarrow> numinuse (kheaproots s' ! i) < NPAGEREFS_PER_PAGE"
      using inv sl unfolding rp nth by (auto simp: heap_inv_def slot_ok_def)
    show "\<forall>i\<in>live_roots s'. rpage (kheaproots s' ! i) = page_addr (root_page s' i)"
      using inv unfolding rp f f' by (simp add: heap_inv_def)
  qed (use inv sb(2) in \<open>auto simp: f f' op set heap_inv_def\<close>)
  moreover have "live s' = live s"
  proof -
    have "card (set (flist s p)) = pr_count (prs s p)"
      using ok full by (simp add: pr_ok_def distinct_card)
    moreover have "card (page_blocks (hpage s p) (pr_size (prs s p))) = pr_count (prs s p)"
      using distinct_card [OF distinct_all_blocks, of "pr_size (prs s p)" "hpage s p"] sizes_facts(1) [OF b]
      by (simp add: set_all_blocks pr_size_def pr_count_def) (simp add: all_blocks_def)
    moreover have "finite (page_blocks (hpage s p) (pr_size (prs s p)))" by (simp add: page_blocks_def)
    ultimately have "set (flist s p) = page_blocks (hpage s p) (pr_size (prs s p))"
      using ok by (intro card_subset_eq) (auto simp: pr_ok_def)
    then have "page_live s p = {}" by (simp add: page_live_def)
    moreover have "page_live s' = page_live s" by (simp add: page_live_def f fun_eq_iff)
    ultimately show ?thesis unfolding live_pages set using p by auto
  qed
  moreover have "kpage_ok s (hpage s p)" using inv p by (auto simp: heap_inv_def own_pages_def)
  moreover have "roots_room s'" if "roots_room s"
  proof -
    have "numinuse (kheaproots s' ! i) \<le> numinuse (kheaproots s ! i)" for i unfolding nth by (simp add: drop_slot_def)
    then show ?thesis using that unfolding roots_room_def rp by (meson add_le_mono1 le_less_trans)
  qed
  ultimately show thesis using that [of s'] rl fp f op by simp
qed

lemma subpage_kfree_ok:
  assumes ok: "heap_ok s" and l: "(a, sz) \<in> live s"
  obtains s' where "subpage_kfree a s = Some (True, s')" "heap_ok s'" "live s' = live s - {(a, sz)}" "kframe s s'" "a \<noteq> 0"
    "roots_room s \<longrightarrow> roots_room s'"
proof -
  note inv = heap_ok_inv [OF ok]
  from l obtain p x where p: "p \<in> set (allbase s)" and a: "a = KV x" "sz = pr_size (prs s p)"
    and x: "x \<in> page_blocks (hpage s p) (pr_size (prs s p))" "x \<notin> set (flist s p)" by (auto simp: live_def)
  let ?pr = "prs s p" and ?g = "hpage s p"
  note prok = heap_pr_ok [OF inv p] and xb = heap_block_bounds [OF inv p x(1)]
  have pg: "PR_PAGEADDR ?pr = KV (?g * PAGE_SIZE)" and bt: "PR_BLOCKTYPE ?pr < NSIZES" and gb: "?g < 131072"
    using prok by (auto simp: pr_ok_def)
  note sf = sizes_facts [OF bt, folded pr_size_def]
  have nf: "unat (nfree ?pr) < pr_count ?pr" using ok p by (simp add: heap_ok_def)
  have nf': "unat (nfree ?pr) < PAGE_SIZE" using nf sf(5) by (simp add: pr_count_def)
  have off: "KV x - PR_PAGEADDR ?pr = of_nat (x - ?g * PAGE_SIZE)"
    unfolding pg using KV_diff [of "?g * PAGE_SIZE" "x - ?g * PAGE_SIZE"] xb(1) by simp
  have uoff: "unat (KV x - PR_PAGEADDR ?pr) = x - ?g * PAGE_SIZE"
    unfolding off using xb(1,3) by (intro unat_of_nat_u32) linarith
  have offok: "\<not> (PAGE_SIZE \<le> unat (KV x - PR_PAGEADDR ?pr) \<or> unat (KV x - PR_PAGEADDR ?pr) mod pr_size ?pr \<noteq> 0)"
    unfolding uoff using xb(1,3,6) by linarith
  have nxt: "freelist_offset ?pr = INVALID_OFFSET \<or> KV x \<noteq> PR_PAGEADDR ?pr + ucast (freelist_offset ?pr)"
  proof (cases "flist s p")
    case Nil
    then show ?thesis using prok KV_nonzero [of x] xb(4) by (auto simp: pr_ok_def pr_head_def)
  next
    case (Cons y ys)
    then have "pr_head ?pr = KV y" "y \<noteq> x" using prok x(2) by (auto simp: pr_ok_def)
    moreover have "y < 536870912" using pr_okD(4) [OF prok] Cons by simp
    ultimately have "pr_head ?pr \<noteq> KV x" using KV_inj [of x y] xb(4) by auto
    then show ?thesis by (auto simp: pr_head_def)
  qed
  define pr1 where "pr1 = ?pr\<lparr>freelist_offset := ucast (KV x - PR_PAGEADDR ?pr), nfree := nfree ?pr + 1\<rparr>"
  define s1 where "s1 = with_pr p pr1 (put_block x (pr_size ?pr) (pr_head ?pr) (ram s)) s"
  note put = heap_put [OF inv p nf' x, folded pr1_def, folded s1_def]
  have n1: "unat (nfree pr1) = unat (nfree ?pr) + 1" using nf' by (simp add: pr1_def unat_word_ariths)
  have n1': "nfree pr1 = nfree ?pr + 1" by (simp add: pr1_def)
  have nxt': "freelist_offset ?pr = INVALID_OFFSET \<or> KV x \<noteq> pr_head ?pr" using nxt by (auto simp: pr_head_def)
  have mem: "kstore (KV x) (pr_head ?pr) (fill_deadbeef (KV x) (pr_size ?pr) s) =
      s\<lparr>ram := put_block x (pr_size ?pr) (pr_head ?pr) (ram s)\<rparr>"
    using xb(4) by (simp add: kstore_def fill_deadbeef_def put_block_def)
  have own: "find_owner (KV x) (allbase s) s = Some (Some p)" by (rule find_owner_ok [OF inv xb(4,1,3) p]) simp
  have s1eq: "s\<lparr>ram := put_block x (pr_size ?pr) (pr_head ?pr) (ram s), prs := (prs s)(p := pr1)\<rparr> = s1"
    by (simp add: s1_def with_pr_def)
  have step: "subpage_kfree (KV x) s =
      (if unat (nfree pr1) = pr_count ?pr then do {
          s5 \<leftarrow> remove_lists p (PR_BLOCKTYPE ?pr) s1 \<bind> freepageref p;
          s6 \<leftarrow> free_kpages (PR_PAGEADDR ?pr) s5; Some (True, s6) }
       else Some (True, s1))"
    using own offok nxt' n1 nf
    unfolding subpage_kfree_def Let_def pr_size_def [symmetric] pr_count_def [symmetric] pr_head_def [symmetric]
    by (simp add: mem s1eq [unfolded pr1_def] n1 [unfolded n1'])
  have kx: "KV x \<noteq> 0" using KV_nonzero [of x] xb(4) by simp
  have fx: "kpage_ok s ?g" using inv p by (auto simp: heap_inv_def own_pages_def)
  have kf1: "kframe s s1"
    by (rule kframe_page [where g = ?g])
      (use fx xb in \<open>auto simp: s1_def kpage_ok_def intro!: put_block_other\<close>)
  have pr1s: "prs s1 p = pr1" "allbase s1 = allbase s" "\<And>q. q \<noteq> p \<Longrightarrow> prs s1 q = prs s q" by (simp_all add: s1_def)
  have cnt: "pr_count pr1 = pr_count ?pr" by (simp add: pr_count_def pr1_def)
  have strict: "unat (nfree (prs s1 q)) < pr_count (prs s1 q)" if "q \<in> set (allbase s)" "q \<noteq> p" for q
    using ok that pr1s(3) by (simp add: heap_ok_def)
  show thesis
  proof (cases "unat (nfree pr1) = pr_count ?pr")
    case False
    then have "unat (nfree (prs s1 p)) < pr_count (prs s1 p)" using n1 nf cnt pr1s by simp
    then have "heap_ok s1" using put(1) strict unfolding heap_ok_def pr1s(2) by metis
    moreover have "roots_room s1 = roots_room s" by (simp add: roots_room_def s1_def)
    ultimately show ?thesis using that [of s1] False step put(2) kf1 kx unfolding a by simp
  next
    case True
    have p1: "p \<in> set (allbase s1)" "unat (nfree (prs s1 p)) = pr_count (prs s1 p)" using p True pr1s cnt by auto
    have bt1: "PR_BLOCKTYPE (prs s1 p) = PR_BLOCKTYPE ?pr" by (simp add: pr1s pr1_def)
    obtain s5 where d: "remove_lists p (PR_BLOCKTYPE ?pr) s1 \<bind> freepageref p = Some s5" "heap_inv s5" "live s5 = live s1"
      "allbase s5 = remove1 p (allbase s1)" "prs s5 = prs s1" "coremap s5 = coremap s1" "memory_start s5 = memory_start s1"
      "memory_end s5 = memory_end s1" "ram s5 = ram s1" "?g \<notin> own_pages s5" "kpage_ok s5 ?g"
      "roots_room s1 \<longrightarrow> roots_room s5"
      using heap_drop_page [OF put(1) p1, unfolded bt1 put(4)] by metis
    have g5: "?g < length (coremap s5)" "chunk_size (coremap s5 ! ?g) = 1" "state (coremap s5 ! ?g) = Fixed"
      using d(11) by (auto simp: kpage_ok_def)
    note fr = heap_inv_freed [OF d(2) g5(1) refl _ d(10), simplified g5(2), simplified]
    have "free_kpages (PR_PAGEADDR ?pr) s5 = Some (kpages_freed ?g 1 s5)"
      unfolding pg using free_kpages_head [OF heap_inv_cm(1) [OF d(2)] g5(1)] g5(2) by simp
    then have run: "subpage_kfree (KV x) s = Some (True, kpages_freed ?g 1 s5)" using step True d(1) by simp
    have "set (remove1 p (allbase s)) = set (allbase s) - {p}" using inv by (simp add: heap_inv_def)
    then have "heap_ok (kpages_freed ?g 1 s5)" using fr(1) strict d(4,5) pr1s(2) by (auto simp: heap_ok_def)
    moreover have "kframe s1 s5" using d(6-9) by (simp add: kframe_def)
    then have "kframe s (kpages_freed ?g 1 s5)"
      using kf1 kframe_freed [OF heap_inv_cm(1) [OF d(2)] g5(1,3)] g5(2) kframe_trans by metis
    moreover have "roots_room (kpages_freed ?g 1 s5)" if "roots_room s"
      using that d(12) by (simp add: roots_room_def s1_def)
    ultimately show ?thesis using that [of "kpages_freed ?g 1 s5"] run fr(2) d(3) put(2) kx unfolding a by simp
  qed
qed

section \<open>The interface\<close>

lemma kmalloc_small_ok:
  assumes "heap_ok s" "roots_room s" "sz < LARGEST_SUBPAGE_SIZE"
  obtains a s' where "kmalloc sz s = Some (a, s')" "alloc_effect (unat sz) s a s'"
proof -
  have "unat sz < 2048" using assms(3) by (simp add: word_less_nat_alt)
  then have "unat sz \<le> 2048" by simp
  from subpage_kmalloc_ok [OF assms(1,2) this] obtain a s' where
    "subpage_kmalloc (unat sz) s = Some (a, s')" "alloc_effect (unat sz) s a s'" .
  with that assms(3) show thesis by (simp add: kmalloc_def not_le [symmetric])
qed

lemma kmalloc_large_ok:
  assumes ok: "heap_ok s" and sz: "LARGEST_SUBPAGE_SIZE \<le> sz"
    and n: "n = unat ((sz + 4096 - 1) div 4096)" "0 < n"
  obtains (full) "kmalloc sz s = Some (0, s)"
      "\<And>b. first_page s \<le> b \<Longrightarrow> b + n \<le> length (coremap s) \<Longrightarrow> \<not> free_run (coremap s) b n"
  | (got) b where "kmalloc sz s = Some (page_addr b, kpages_taken b n s)" "heap_ok (kpages_taken b n s)"
      "live (kpages_taken b n s) = live s" "kframe s (kpages_taken b n s)" "b + n \<le> length (coremap s)"
      "free_run (coremap s) b n" "{b..<b + n} \<inter> own_pages (kpages_taken b n s) = {}" "page_addr b \<noteq> 0" "first_page s \<le> b"
proof -
  note inv = heap_ok_inv [OF ok]
  note cm = heap_inv_cm(1) [OF inv]
  from cm n(2) show thesis
  proof (cases rule: alloc_kpages_cases)
    case full
    with sz show ?thesis by (intro that(1)) (auto simp: kmalloc_def n(1))
  next
    case (got b)
    have bl: "b < length (coremap s)" using got(3) n(2) by simp
    have al: "unat (page_addr b) mod PAGE_SIZE = 0"
      unfolding KV_page(2) [OF cm bl] by (simp add: mod_add_eq [symmetric])
    note tk = heap_inv_taken [OF inv got(2) n(2) got(3,4)]
    have "kmalloc sz s = Some (page_addr b, kpages_taken b n s)"
      using sz got(1) al page_addr_nonzero [OF cm bl] unfolding kmalloc_def Let_def n(1) [symmetric] by simp
    moreover have "heap_ok (kpages_taken b n s)" using ok tk(1) by (simp add: heap_ok_def)
    ultimately show ?thesis
      using that(2) tk(2-4) kframe_taken [OF got(3,4)] got(2-4) page_addr_nonzero [OF cm bl] by simp
  qed
qed

lemma kfree_live_ok:
  assumes "heap_ok s" "(a, sz) \<in> live s"
  obtains s' where "kfree a s = Some s'" "heap_ok s'" "live s' = live s - {(a, sz)}" "kframe s s'"
    "roots_room s \<longrightarrow> roots_room s'"
proof -
  obtain s' where "subpage_kfree a s = Some (True, s')" "heap_ok s'" "live s' = live s - {(a, sz)}" "kframe s s'" "a \<noteq> 0"
    "roots_room s \<longrightarrow> roots_room s'"
    by (rule subpage_kfree_ok [OF assms])
  with that show thesis by (simp add: kfree_def)
qed

lemma kfree_chunk_ok:
  assumes ok: "heap_ok s" and b: "b < length (coremap s)" "state (coremap s ! b) = Fixed" "b \<notin> own_pages s"
    and n: "n = chunk_size (coremap s ! b)" "0 < n"
  shows "kfree (page_addr b) s = Some (kpages_freed b n s)" "heap_ok (kpages_freed b n s)"
    "live (kpages_freed b n s) = live s" "kframe s (kpages_freed b n s)"
proof -
  note inv = heap_ok_inv [OF ok]
  note cm = heap_inv_cm(1) [OF inv] and fr = heap_inv_freed [OF inv b(1) n b(3)]
  have "find_owner (page_addr b) (allbase s) s = Some None"
    by (rule find_owner_none [OF inv page_addr_bound [OF cm b(1)]]) (use b(3) in \<open>auto simp: own_pages_def\<close>)
  then have "subpage_kfree (page_addr b) s = Some (False, s)" by (simp add: subpage_kfree_def)
  moreover have al: "unat (page_addr b) mod PAGE_SIZE = 0"
    unfolding KV_page(2) [OF cm b(1)] by (simp add: mod_add_eq [symmetric])
  ultimately show "kfree (page_addr b) s = Some (kpages_freed b n s)"
    using free_kpages_head [OF cm b(1)] page_addr_nonzero [OF cm b(1)] n(1) by (simp add: kfree_def)
  show "heap_ok (kpages_freed b n s)" using ok fr(1) by (simp add: heap_ok_def kpages_freed_def)
  show "live (kpages_freed b n s) = live s" by (rule fr(2))
  show "kframe s (kpages_freed b n s)" by (rule kframe_freed [OF cm b(1,2) n(1)])
qed

text \<open>The same facts with a block named by its address alone: a live address belongs to one block.\<close>

definition live_addrs :: "kheap \<Rightarrow> vaddr set" where
  "live_addrs s = fst ` live s"

lemma live_size_unique:
  assumes "heap_inv s" "(a, m) \<in> live s" "(a, n) \<in> live s"
  shows "m = n"
proof -
  from assms(2,3) obtain p x q y where
    p: "p \<in> set (allbase s)" "x \<in> page_blocks (hpage s p) (pr_size (prs s p))" "a = KV x" "m = pr_size (prs s p)" and
    q: "q \<in> set (allbase s)" "y \<in> page_blocks (hpage s q) (pr_size (prs s q))" "a = KV y" "n = pr_size (prs s q)"
    by (auto simp: live_def)
  then have "p = q" using heap_block_unique [OF assms(1) p(1) q(1) p(2) q(2)] by simp
  with p q show ?thesis by simp
qed

lemma live_addrs_bound:
  assumes "heap_inv s"
  shows "finite (live_addrs s)" "card (live_addrs s) \<le> 33554432" "0 \<notin> live_addrs s"
proof -
  let ?A = "(\<lambda>i. KV (16 * i)) ` {..<33554432}"
  have "KV x \<in> ?A \<and> KV x \<noteq> 0" if p: "p \<in> set (allbase s)" and x: "x \<in> page_blocks (hpage s p) (pr_size (prs s p))" for p x
  proof -
    note xb = heap_block_bounds [OF assms p x]
    have "PR_BLOCKTYPE (prs s p) < NSIZES" using heap_pr_ok [OF assms p] by (simp add: pr_ok_def)
    then have "sizes ! PR_BLOCKTYPE (prs s p) \<in> set sizes" by (intro nth_mem) (simp add: sizes_def)
    moreover have "\<forall>n\<in>set sizes. 16 dvd n" by (simp add: sizes_def)
    ultimately have "16 dvd pr_size (prs s p)" unfolding pr_size_def by blast
    then have "16 dvd x - hpage s p * PAGE_SIZE" using xb(6) by (meson dvd_trans mod_0_imp_dvd)
    moreover have "16 dvd hpage s p * PAGE_SIZE" by simp
    ultimately have "16 dvd x" using xb(1) dvd_diffD by blast
    then obtain i where "x = 16 * i" by blast
    with xb(4) show ?thesis using KV_nonzero [of x] by auto
  qed
  then have sub: "live_addrs s \<subseteq> ?A" and nz: "0 \<notin> live_addrs s" by (fastforce simp: live_addrs_def live_def)+
  show "0 \<notin> live_addrs s" by (rule nz)
  have fin: "finite ?A" by simp
  show "finite (live_addrs s)" using sub fin by (rule finite_subset)
  have "card (live_addrs s) \<le> card ?A" using fin sub by (rule card_mono)
  also have "card ?A \<le> 33554432" using card_image_le [of "{..<33554432}" "\<lambda>i. KV (16 * i)"] by simp
  finally show "card (live_addrs s) \<le> 33554432" .
qed

lemma kmalloc_addr_ok:
  assumes "heap_ok s" "roots_room s" "sz < LARGEST_SUBPAGE_SIZE"
  obtains (fail) s' where "kmalloc sz s = Some (0, s')" "heap_ok s'" "kframe s s'" "live_addrs s' = live_addrs s"
  | (got) a s' where "kmalloc sz s = Some (a, s')" "a \<noteq> 0" "heap_ok s'" "kframe s s'" "roots_room s'"
      "a \<notin> live_addrs s" "live_addrs s' = insert a (live_addrs s)"
proof -
  obtain a s' where k: "kmalloc sz s = Some (a, s')" "alloc_effect (unat sz) s a s'" by (rule kmalloc_small_ok [OF assms])
  show thesis
  proof (cases "a = 0")
    case True
    with k show ?thesis by (intro fail [of s']) (auto simp: alloc_effect_def live_addrs_def)
  next
    case False
    with k(2) obtain n where n: "(a, n) \<notin> live s" "live s' = insert (a, n) (live s)" "heap_ok s'" by (auto simp: alloc_effect_def)
    have "a \<notin> live_addrs s"
    proof
      assume "a \<in> live_addrs s"
      then obtain m where m: "(a, m) \<in> live s" by (auto simp: live_addrs_def)
      then have "m = n" using live_size_unique [OF heap_ok_inv [OF n(3)], of a m n] n(2) by simp
      with m n(1) show False by simp
    qed
    with k False n(2) assms(2) show ?thesis by (intro got [of a s']) (auto simp: alloc_effect_def live_addrs_def)
  qed
qed

lemma kfree_addr_ok:
  assumes "heap_ok s" "a \<in> live_addrs s"
  obtains s' where "kfree a s = Some s'" "heap_ok s'" "live_addrs s' = live_addrs s - {a}" "kframe s s'"
    "roots_room s \<longrightarrow> roots_room s'"
proof -
  from assms(2) obtain n where n: "(a, n) \<in> live s" by (auto simp: live_addrs_def)
  obtain s' where f: "kfree a s = Some s'" "heap_ok s'" "live s' = live s - {(a, n)}" "kframe s s'"
    "roots_room s \<longrightarrow> roots_room s'" by (rule kfree_live_ok [OF assms(1) n])
  have "live_addrs s' = live_addrs s - {a}"
    using live_size_unique [OF heap_ok_inv [OF assms(1)] n] unfolding live_addrs_def f(3) by force
  with f that show thesis by blast
qed

text \<open>The empty heap over a freshly bootstrapped coremap: the initial values of the static variables.\<close>

definition kheap_boot :: "vm \<Rightarrow> kheap" where
  "kheap_boot s = vm.extend s \<lparr>
     kheaproots = replicate NUM_PAGEREFPAGES \<lparr>rpage = 0, pagerefs_inuse = replicate INUSE_WORDS 0, numinuse = 0\<rparr>,
     prs = (\<lambda>p. \<lparr>pageaddr_and_blocktype = 0, freelist_offset = 0, nfree = 0\<rparr>),
     sizebases = replicate NSIZES [], allbase = []\<rparr>"

lemma kheap_boot_ok:
  assumes "coremap_ok s"
  shows "heap_ok (kheap_boot s)" "roots_room (kheap_boot s)" "live (kheap_boot s) = {}"
proof -
  have "coremap_ok (kheap_boot s)"
    using assms by (simp add: kheap_boot_def vm.extend_def coremap_ok_def)
  moreover have "root_ok \<lparr>rpage = 0, pagerefs_inuse = replicate INUSE_WORDS 0, numinuse = 0\<rparr>"
    by (auto simp: root_ok_def used_slots_def)
  moreover have "live_roots (kheap_boot s) = {}" by (auto simp: live_roots_def kheap_boot_def vm.extend_def)
  moreover have "allbase (kheap_boot s) = []" by (simp add: kheap_boot_def vm.extend_def)
  ultimately show "heap_ok (kheap_boot s)"
    unfolding heap_ok_def heap_inv_def own_pages_def
    by (simp add: roots_ok_def) (simp add: kheap_boot_def vm.extend_def)
  show "roots_room (kheap_boot s)" "live (kheap_boot s) = {}"
    by (simp_all add: roots_room_def live_def kheap_boot_def vm.extend_def)
qed

text \<open>
  What the rest of the kernel relies on: a request either fails and changes nothing or adds one fresh block, a live block can be
  freed and takes only itself away, and live blocks never overlap.
\<close>

locale block_heap =
  fixes invar ready :: "'s \<Rightarrow> bool" and blocks :: "'s \<Rightarrow> (vaddr \<times> nat) set" and limit :: u32
    and alloc :: "u32 \<Rightarrow> 's \<Rightarrow> (vaddr \<times> 's) option" and release :: "vaddr \<Rightarrow> 's \<Rightarrow> 's option"
  assumes alloc_law: "invar s \<Longrightarrow> ready s \<Longrightarrow> sz < limit \<Longrightarrow>
      \<exists>a s'. alloc sz s = Some (a, s') \<and> invar s' \<and> (a = 0 \<longrightarrow> blocks s' = blocks s)
        \<and> (a \<noteq> 0 \<longrightarrow> (\<exists>n\<ge>unat sz. (a, n) \<notin> blocks s \<and> blocks s' = insert (a, n) (blocks s)))"
    and release_law: "invar s \<Longrightarrow> (a, n) \<in> blocks s \<Longrightarrow>
      \<exists>s'. release a s = Some s' \<and> invar s' \<and> blocks s' = blocks s - {(a, n)}"
    and apart_law: "invar s \<Longrightarrow> (a, m) \<in> blocks s \<Longrightarrow> (b, n) \<in> blocks s \<Longrightarrow> a \<noteq> b \<Longrightarrow>
      unat a + m \<le> unat b \<or> unat b + n \<le> unat a"
begin

lemma alloc_apart:
  assumes "invar s" "ready s" "sz < limit"
  shows "\<exists>a s'. alloc sz s = Some (a, s') \<and> invar s' \<and> (a = 0 \<longrightarrow> blocks s' = blocks s)
    \<and> (a \<noteq> 0 \<longrightarrow> (\<exists>n\<ge>unat sz. (a, n) \<notin> blocks s \<and> blocks s' = insert (a, n) (blocks s)
        \<and> (\<forall>(b, m)\<in>blocks s. a \<noteq> b \<longrightarrow> unat a + n \<le> unat b \<or> unat b + m \<le> unat a)))"
proof -
  from alloc_law [OF assms] obtain a s' where al: "alloc sz s = Some (a, s')" "invar s'" "a = 0 \<longrightarrow> blocks s' = blocks s"
    "a \<noteq> 0 \<longrightarrow> (\<exists>n\<ge>unat sz. (a, n) \<notin> blocks s \<and> blocks s' = insert (a, n) (blocks s))" by blast
  have "\<exists>n\<ge>unat sz. (a, n) \<notin> blocks s \<and> blocks s' = insert (a, n) (blocks s)
        \<and> (\<forall>(b, m)\<in>blocks s. a \<noteq> b \<longrightarrow> unat a + n \<le> unat b \<or> unat b + m \<le> unat a)" if nz: "a \<noteq> 0"
  proof -
    from al(4) nz obtain n where n: "unat sz \<le> n" "(a, n) \<notin> blocks s" "blocks s' = insert (a, n) (blocks s)" by blast
    have "unat a + n \<le> unat b \<or> unat b + m \<le> unat a" if "(b, m) \<in> blocks s" "a \<noteq> b" for b m
      using apart_law [OF al(2), of a n b m] that n(3) by simp
    with n show ?thesis by (intro exI [of _ n]) auto
  qed
  with al show ?thesis by blast
qed

lemma release_blocks:
  assumes "invar s" "distinct bs" "set bs \<subseteq> blocks s"
  shows "\<exists>s'. release_all release (map fst bs) s = Some s' \<and> invar s' \<and> blocks s' = blocks s - set bs"
  using assms
proof (induction bs arbitrary: s)
  case (Cons b bs)
  obtain a n where b: "b = (a, n)" by (cases b)
  from release_law [OF Cons.prems(1), of a n] Cons.prems(3) b obtain s1 where
    s1: "release a s = Some s1" "invar s1" "blocks s1 = blocks s - {b}" by auto
  have "set bs \<subseteq> blocks s1" using Cons.prems(2,3) s1(3) by auto
  from Cons.IH [OF s1(2) _ this] Cons.prems(2) obtain s' where
    "release_all release (map fst bs) s1 = Some s'" "invar s'" "blocks s' = blocks s1 - set bs" by auto
  with s1 b show ?case by auto
qed simp

end

interpretation kernel_heap: block_heap heap_ok roots_room live LARGEST_SUBPAGE_SIZE kmalloc kfree
proof (unfold_locales, goal_cases)
  case (1 s sz)
  obtain a s' where "kmalloc sz s = Some (a, s')" "alloc_effect (unat sz) s a s'"
    by (rule kmalloc_small_ok [OF 1])
  then show ?case unfolding alloc_effect_def by (intro exI [of _ a] exI [of _ s']) simp
next
  case (2 s a n)
  obtain s' where "kfree a s = Some s'" "heap_ok s'" "live s' = live s - {(a, n)}" by (rule kfree_live_ok [OF 2])
  then show ?case by (intro exI [of _ s']) simp
next
  case (3 s a m b n)
  show ?case by (rule live_apart [OF heap_ok_inv [OF 3(1)] 3(2-4)])
qed

section \<open>Properties\<close>

text \<open>C6. On a well-formed heap a request below the page-allocation threshold runs to completion without tripping an
  assertion. It either returns NULL and leaves the live blocks as they were, or returns a block that is at least as large as
  requested, was not live before, overlaps no live block and is now the only new live block. Pages of user address spaces, contents
  included, are untouched.\<close>

theorem kmalloc_fresh_block:
  assumes "heap_ok s" and "roots_room s" and "sz < LARGEST_SUBPAGE_SIZE"
  shows "\<exists>a s'. kmalloc sz s = Some (a, s') \<and> heap_ok s' \<and> kframe s s' \<and> (a = 0 \<longrightarrow> live s' = live s)
    \<and> (a \<noteq> 0 \<longrightarrow> (\<exists>n\<ge>unat sz. (a, n) \<notin> live s \<and> live s' = insert (a, n) (live s)
        \<and> (\<forall>(b, m)\<in>live s. a \<noteq> b \<longrightarrow> unat a + n \<le> unat b \<or> unat b + m \<le> unat a)))"
proof -
  obtain a s' where "kmalloc sz s = Some (a, s')" "alloc_effect (unat sz) s a s'" by (rule kmalloc_small_ok [OF assms])
  with kernel_heap.alloc_apart [OF assms] show ?thesis by (auto simp: alloc_effect_def)
qed

text \<open>C8. Any selection of live subpage blocks can be freed in any order: no call trips one of the allocator's assertions, no block
  outside the selection is affected, and the heap stays well formed (a page whose last block goes returns to the page
  allocator).\<close>

theorem kfree_any_order:
  assumes "heap_ok s" and "distinct bs" and "set bs \<subseteq> live s"
  shows "\<exists>s'. release_all kfree (map fst bs) s = Some s' \<and> heap_ok s' \<and> live s' = live s - set bs"
  by (rule kernel_heap.release_blocks [OF assms])

text \<open>C32. A request of at least half a page that does not wrap is served with whole pages from outside the subpage heap, rounded
  up to the page, and freeing the result gives exactly those pages back: the coremap is as before and the subpage heap never
  notices.\<close>

theorem kmalloc_pages_roundtrip:
  assumes "heap_ok s" and "LARGEST_SUBPAGE_SIZE \<le> sz" and "unat sz + 4095 < 4294967296"
    and "kmalloc sz s = Some (a, s1)" and "a \<noteq> 0"
  shows "\<exists>s2. kfree a s1 = Some s2 \<and> heap_ok s1 \<and> heap_ok s2 \<and> live s1 = live s \<and> live s2 = live s
    \<and> cm_avail s2 = cm_avail s \<and> card (cm_avail s - cm_avail s1) = (unat sz + 4095) div PAGE_SIZE"
proof -
  define n where "n = unat ((sz + 4096 - 1) div 4096)"
  have "unat (sz + 4095) = unat sz + 4095" using assms(3) by (simp add: unat_word_ariths)
  moreover have "sz + 4096 - 1 = sz + 4095" by simp
  ultimately have n: "n = (unat sz + 4095) div PAGE_SIZE" unfolding n_def by (simp only: unat_div) simp
  have "2048 \<le> unat sz" using assms(2) by (simp add: word_le_nat_alt)
  then have n0: "0 < n" unfolding n by (simp add: div_greater_zero_iff)
  from assms(1,2) n_def n0 show ?thesis
  proof (cases rule: kmalloc_large_ok)
    case full
    with assms(4,5) show ?thesis by simp
  next
    case (got b)
    then have a: "a = page_addr b" "s1 = kpages_taken b n s" using assms(4) by auto
    have b: "b < length (coremap s1)" "chunk_size (coremap s1 ! b) = n" "state (coremap s1 ! b) = Fixed" "b \<notin> own_pages s1"
      using got(5,7) n0 unfolding a by (auto simp: nth_claim disjoint_iff)
    note fr = kfree_chunk_ok [OF got(2) [folded a] b(1,3,4) b(2) [symmetric] n0]
    have "cm_avail (kpages_freed b n s1) = cm_avail s"
      using got(5,6) unfolding a cm_avail_def by (auto simp: nth_claim nth_unclaim split: if_splits dest: free_runD)
    moreover have "cm_avail s - cm_avail s1 = {b..<b + n}"
      using got(5,6,9) unfolding a cm_avail_def by (auto simp: nth_claim split: if_splits dest: free_runD)
    ultimately show ?thesis using fr got(2,3) n unfolding a by auto
  qed
qed

text \<open>A heap over the small machine of the page allocator's examples.\<close>

definition demo_heap :: kheap where
  "demo_heap = kheap_boot demo_vm"

lemma demo_heap_ok: "heap_ok demo_heap" "roots_room demo_heap" "live demo_heap = {}"
  unfolding demo_heap_def by (rule kheap_boot_ok [OF demo_vm_ok])+

lemma demo_kmalloc: "map_option fst (kmalloc 1500 demo_heap) = Some 0x80002800"
  by code_simp

theorem kmalloc_fresh_block_witness: "\<exists>s' n. kmalloc 1500 demo_heap = Some (0x80002800, s') \<and> live s' = {(0x80002800, n)} \<and> 1500 \<le> n"
  using kmalloc_fresh_block [OF demo_heap_ok(1,2), of 1500] demo_kmalloc demo_heap_ok(3) by auto

theorem kfree_any_order_witness:
  "\<exists>s1 s2. kmalloc 1500 demo_heap = Some (0x80002800, s1) \<and> release_all kfree [0x80002800] s1 = Some s2 \<and> live s2 = {}"
proof -
  obtain a s1 where k: "kmalloc 1500 demo_heap = Some (a, s1)" "alloc_effect (unat (1500 :: u32)) demo_heap a s1"
    by (rule kmalloc_small_ok [OF demo_heap_ok(1,2), of 1500]) simp
  have a: "a = 0x80002800" using k(1) demo_kmalloc by simp
  then obtain n where "heap_ok s1" "live s1 = {(a, n)}" using k(2) demo_heap_ok(3) by (auto simp: alloc_effect_def)
  with kfree_any_order [of s1 "[(a, n)]"] k(1) a show ?thesis by auto
qed

theorem kmalloc_pages_roundtrip_witness:
  "\<exists>s1 s2. kmalloc 9000 demo_heap = Some (0x80002000, s1) \<and> kfree 0x80002000 s1 = Some s2
     \<and> cm_avail s2 = cm_avail demo_heap \<and> card (cm_avail demo_heap - cm_avail s1) = 3"
proof -
  have "map_option fst (kmalloc 9000 demo_heap) = Some 0x80002000" by code_simp
  then obtain s1 where "kmalloc 9000 demo_heap = Some (0x80002000, s1)" by auto
  with kmalloc_pages_roundtrip [OF demo_heap_ok(1) _ _ this] show ?thesis by auto
qed

end
