(* ===== verification/Karray.thy ===== *)
theory Karray
  imports Prelude
begin

text \<open>
  \<^verbatim>\<open>kern/lib/array.c\<close> and the inline part of \<^verbatim>\<open>kern/include/array.h\<close>: the resizeable array of
  pointers behind \<^verbatim>\<open>proc->children\<close>, \<^verbatim>\<open>threadarray\<close> and \<^verbatim>\<open>vnodearray\<close>. Its clients see a list;
  that view is the locale \<open>dynamic_array\<close>. \<^verbatim>\<open>ARRAYS_CHECKED\<close> is defined, so \<^verbatim>\<open>ARRAYASSERT\<close> is
  \<^verbatim>\<open>KASSERT\<close>.
\<close>

section \<open>The array\<close>

text \<open>\<^verbatim>\<open>num\<close> and \<^verbatim>\<open>max\<close> are 32-bit; a slot the code has not stored into is \<open>None\<close>.\<close>

record 'a array =
  arr_v :: "'a option list"
  arr_num :: u32
  arr_max :: u32

definition array_init :: "'a array" where
  "array_init = \<lparr>arr_v = [], arr_num = 0, arr_max = 0\<rparr>"

definition array_create :: "heap_oracle \<Rightarrow> 'a array option \<times> heap_oracle" where
  "array_create ms = (let (ok, ms') = kmalloc_ok ms in (if ok then Some array_init else None, ms'))"

definition array_cleanup :: "'a array \<Rightarrow> 'a array option" where
  "array_cleanup a = do { kassert (arr_num a = 0); Some (a\<lparr>arr_v := []\<rparr>) }"

definition array_destroy :: "'a array \<Rightarrow> unit option" where
  "array_destroy a = do { _ \<leftarrow> array_cleanup a; Some () }"

text \<open>The doubling loop; the product wraps, so the loop need not end.\<close>

partial_function (option) array_grow :: "u32 \<Rightarrow> u32 \<Rightarrow> u32 option" where
  "array_grow num newmax =
     (if newmax < num then array_grow num (if newmax \<noteq> 0 then newmax * 2 else 4) else Some newmax)"

definition array_preallocate ::
  "'a array \<Rightarrow> u32 \<Rightarrow> heap_oracle \<Rightarrow> ((errno + unit) \<times> 'a array \<times> heap_oracle) option" where
  "array_preallocate a num ms =
     (if arr_max a < num then do {
        newmax \<leftarrow> array_grow num (arr_max a);
        let (ok, ms') = kmalloc_ok ms;
        if \<not> ok then Some (Inl ENOMEM, a, ms')
        else do {
          let slots = unat (newmax * 4) div 4;
          kassert (unat (arr_num a) \<le> slots \<and> unat (arr_num a) \<le> length (arr_v a));
          Some (Inr (), a\<lparr>arr_v := take (unat (arr_num a)) (arr_v a) @ replicate (slots - unat (arr_num a)) None,
                          arr_max := newmax\<rparr>, ms')
        }
      } else Some (Inr (), a, ms))"

definition array_setsize ::
  "'a array \<Rightarrow> u32 \<Rightarrow> heap_oracle \<Rightarrow> ((errno + unit) \<times> 'a array \<times> heap_oracle) option" where
  "array_setsize a num ms = do {
     (r, a', ms') \<leftarrow> array_preallocate a num ms;
     case r of Inl e \<Rightarrow> Some (Inl e, a', ms') | Inr _ \<Rightarrow> Some (Inr (), a'\<lparr>arr_num := num\<rparr>, ms') }"

definition array_get :: "'a array \<Rightarrow> u32 \<Rightarrow> 'a option option" where
  "array_get a index = do { kassert (index < arr_num a); rd (arr_v a) (unat index) }"

definition array_set :: "'a array \<Rightarrow> u32 \<Rightarrow> 'a \<Rightarrow> 'a array option" where
  "array_set a index val = do {
     kassert (index < arr_num a);
     v \<leftarrow> wr (arr_v a) (unat index) (Some val);
     Some (a\<lparr>arr_v := v\<rparr>) }"

definition array_add ::
  "'a array \<Rightarrow> 'a \<Rightarrow> heap_oracle \<Rightarrow> ((errno + u32) \<times> 'a array \<times> heap_oracle) option" where
  "array_add a val ms = do {
     let index = arr_num a;
     (r, a', ms') \<leftarrow> array_setsize a (index + 1) ms;
     case r of
       Inl e \<Rightarrow> Some (Inl e, a', ms')
     | Inr _ \<Rightarrow> do {
         v \<leftarrow> wr (arr_v a') (unat index) (Some val);
         Some (Inr index, a'\<lparr>arr_v := v\<rparr>, ms') } }"

text \<open>\<^verbatim>\<open>memmove(v+index, v+index+1, num_to_move)\<close> inside the vector.\<close>

definition array_remove :: "'a array \<Rightarrow> u32 \<Rightarrow> 'a array option" where
  "array_remove a index = do {
     kassert (arr_num a \<le> arr_max a);
     kassert (index < arr_num a);
     let num_to_move = unat (arr_num a - (index + 1));
     let i = unat index;
     kassert (i + 1 + num_to_move \<le> length (arr_v a));
     Some (a\<lparr>arr_v := take i (arr_v a) @ take num_to_move (drop (i + 1) (arr_v a)) @ drop (i + num_to_move) (arr_v a),
             arr_num := arr_num a - 1\<rparr>) }"

section \<open>The list a client sees\<close>

definition arr_list :: "'a array \<Rightarrow> 'a list" where
  "arr_list a = map the (take (unat (arr_num a)) (arr_v a))"

text \<open>Capacities are 0 or \<open>4 \<cdot> 2\<^sup>k\<close>; \<open>k \<le> 27\<close> keeps the byte count below \<open>2\<^sup>3\<^sup>2\<close>.\<close>

definition array_cap_ok :: "u32 \<Rightarrow> bool" where
  "array_cap_ok c \<longleftrightarrow> (c = 0 \<or> (\<exists>k\<le>27. unat c = 4 * 2 ^ k))"

definition array_ok :: "'a array \<Rightarrow> bool" where
  "array_ok a \<longleftrightarrow> arr_num a \<le> arr_max a \<and> length (arr_v a) = unat (arr_max a) \<and> array_cap_ok (arr_max a)
     \<and> (\<forall>i < unat (arr_num a). arr_v a ! i \<noteq> None)"

lemma array_ok_num: "array_ok a \<Longrightarrow> unat (arr_num a) \<le> length (arr_v a)"
  by (simp add: array_ok_def word_le_nat_alt)

lemma arr_list_length: "array_ok a \<Longrightarrow> length (arr_list a) = unat (arr_num a)"
  using array_ok_num by (fastforce simp: arr_list_def)

lemma array_cap_le: "array_cap_ok c \<Longrightarrow> unat c \<le> 2 ^ 29"
proof (unfold array_cap_ok_def, elim disjE exE conjE)
  fix k :: nat assume "k \<le> 27" "unat c = 4 * 2 ^ k"
  then have "(2::nat) ^ k \<le> 2 ^ 27" by (intro power_increasing) simp_all
  with \<open>unat c = 4 * 2 ^ k\<close> show ?thesis by simp
qed simp

text \<open>The loop ends for every request up to \<open>2\<^sup>2\<^sup>9\<close> and gives a capacity that is enough and less
  than twice the request (or the minimum, 4).\<close>

lemma array_grow_pow:
  assumes "unat num \<le> 2 ^ 29" and "k \<le> 27" and "unat c = 4 * 2 ^ k"
  shows "\<exists>c'. array_grow num c = Some c' \<and> num \<le> c' \<and> array_cap_ok c' \<and> c \<le> c'
    \<and> (c' = c \<or> unat c' < 2 * unat num)"
  using assms(2,3)
proof (induction "27 - k" arbitrary: k c)
  case 0
  then have "unat c = 2 ^ 29" by simp
  then have "num \<le> c" using assms(1) by (simp add: word_le_nat_alt)
  moreover have "array_cap_ok c" using 0 by (auto simp: array_cap_ok_def)
  ultimately show ?case by (subst array_grow.simps) (auto simp: not_less)
next
  case (Suc n)
  show ?case
  proof (cases "c < num")
    case False
    then show ?thesis using Suc.prems
      by (subst array_grow.simps) (auto simp: not_less array_cap_ok_def)
  next
    case True
    have k: "k < 27" using Suc.hyps(2) by simp
    then have "(2::nat) ^ k \<le> 2 ^ 26" by (intro power_increasing) simp_all
    then have dbl: "unat (c * 2) = 4 * 2 ^ Suc k" using Suc.prems(2)
      by (simp add: unat_word_ariths)
    have "n = 27 - Suc k" "Suc k \<le> 27" using Suc.hyps(2) k by simp_all
    from Suc.hyps(1) [OF this dbl] obtain c' where c':
      "array_grow num (c * 2) = Some c'" "num \<le> c'" "array_cap_ok c'" "c * 2 \<le> c'"
      "c' = c * 2 \<or> unat c' < 2 * unat num" by blast
    have "c \<noteq> 0" using Suc.prems(2) by auto
    then have "array_grow num c = Some c'" using c'(1) True by (subst array_grow.simps) simp
    moreover have "c \<le> c'" using c'(4) dbl Suc.prems(2) by (simp add: word_le_nat_alt)
    moreover have "unat c' < 2 * unat num"
      using c'(5) True dbl Suc.prems(2) by (auto simp: word_less_nat_alt)
    ultimately show ?thesis using c'(2,3) by blast
  qed
qed

lemma array_grow_ok:
  assumes "unat num \<le> 2 ^ 29" and "array_cap_ok c" and "c < num"
  shows "\<exists>c'. array_grow num c = Some c' \<and> num \<le> c' \<and> array_cap_ok c' \<and> unat c' \<le> max 4 (2 * unat num)"
proof (cases "c = 0")
  case True
  have four: "unat (4 :: u32) = 4 * 2 ^ 0" by simp
  from array_grow_pow [OF assms(1) _ four] obtain c' where
    "array_grow num 4 = Some c'" "num \<le> c'" "array_cap_ok c'" "c' = 4 \<or> unat c' < 2 * unat num" by auto
  then show ?thesis using True assms(3) by (subst array_grow.simps) auto
next
  case False
  then obtain k where "k \<le> 27" "unat c = 4 * 2 ^ k" using assms(2) by (auto simp: array_cap_ok_def)
  from array_grow_pow [OF assms(1) this] assms(3) show ?thesis by fastforce
qed

lemma cap_slots:
  assumes "array_cap_ok c"
  shows "unat (c * 4) div 4 = unat c"
  using array_cap_le [OF assms] by (simp add: unat_word_ariths)

text \<open>\<^verbatim>\<open>array_setsize\<close> for a request in range: failure leaves the array alone; success keeps the
  elements below the new size.\<close>

lemma array_preallocate_ok:
  assumes ok: "array_ok a" and n: "unat num \<le> 2 ^ 29"
  shows "\<exists>r a' ms'. array_preallocate a num ms = Some (r, a', ms') \<and>
     (case r of
        Inl e \<Rightarrow> e = ENOMEM \<and> a' = a
      | Inr _ \<Rightarrow> array_ok a' \<and> arr_num a' = arr_num a \<and> num \<le> arr_max a' \<and> arr_list a' = arr_list a)"
proof (cases "arr_max a < num")
  case False
  then show ?thesis using ok by (auto simp: array_preallocate_def not_less)
next
  case True
  have cap: "array_cap_ok (arr_max a)" using ok by (simp add: array_ok_def)
  from array_grow_ok [OF n cap True] obtain c where
    c: "array_grow num (arr_max a) = Some c" "num \<le> c" "array_cap_ok c" by blast
  obtain b ms' where b: "kmalloc_ok ms = (b, ms')" by fastforce
  have num: "unat (arr_num a) \<le> length (arr_v a)" by (rule array_ok_num [OF ok])
  have "arr_num a < num" using True ok le_less_trans unfolding array_ok_def by blast
  then have le: "unat (arr_num a) \<le> unat c" "arr_num a \<le> c"
    using c(2) by (auto simp: word_less_nat_alt word_le_nat_alt)
  define a' where "a' = a\<lparr>arr_v := take (unat (arr_num a)) (arr_v a) @
    replicate (unat c - unat (arr_num a)) None, arr_max := c\<rparr>"
  have run: "array_preallocate a num ms = Some (if b then (Inr (), a', ms') else (Inl ENOMEM, a, ms'))"
    using True c(1) b num le by (simp add: array_preallocate_def cap_slots [OF c(3)] a'_def)
  have "array_ok a'" using ok num le c(3)
    by (auto simp: array_ok_def a'_def nth_append)
  moreover have "arr_list a' = arr_list a" using num by (simp add: arr_list_def a'_def)
  ultimately show ?thesis using run c(2) by (auto simp: a'_def)
qed

lemma array_num_succ:
  assumes "unat (n :: u32) < 2 ^ 29"
  shows "unat (n + 1) = Suc (unat n)"
  using assms by (simp add: unat_word_ariths)

lemma array_add_ok:
  assumes ok: "array_ok a" and n: "unat (arr_num a) < 2 ^ 29"
  shows "\<exists>r a' ms'. array_add a x ms = Some (r, a', ms') \<and>
     (case r of
        Inl e \<Rightarrow> e = ENOMEM \<and> a' = a
      | Inr i \<Rightarrow> array_ok a' \<and> unat i = length (arr_list a) \<and> arr_list a' = arr_list a @ [x])"
proof -
  let ?n = "unat (arr_num a)"
  have suc: "unat (arr_num a + 1) = Suc ?n" by (rule array_num_succ [OF n])
  then have "unat (arr_num a + 1) \<le> 2 ^ 29" using n by simp
  from array_preallocate_ok [OF ok this, of ms] obtain r a1 ms1 where
    p: "array_preallocate a (arr_num a + 1) ms = Some (r, a1, ms1)"
    "case r of Inl e \<Rightarrow> e = ENOMEM \<and> a1 = a
      | Inr _ \<Rightarrow> array_ok a1 \<and> arr_num a1 = arr_num a \<and> arr_num a + 1 \<le> arr_max a1 \<and> arr_list a1 = arr_list a"
    by blast
  show ?thesis
  proof (cases r)
    case (Inl e)
    with p show ?thesis by (simp add: array_add_def array_setsize_def Let_def)
  next
    case (Inr u)
    with p(2) have a1: "array_ok a1" "arr_num a1 = arr_num a" "arr_num a + 1 \<le> arr_max a1"
      "arr_list a1 = arr_list a" by simp_all
    have room: "?n < length (arr_v a1)" using a1(1,3) suc by (simp add: array_ok_def word_le_nat_alt)
    define a' where "a' = a1\<lparr>arr_num := arr_num a + 1, arr_v := (arr_v a1)[?n := Some x]\<rparr>"
    have run: "array_add a x ms = Some (Inr (arr_num a), a', ms1)"
      using p(1) Inr room by (simp add: array_add_def array_setsize_def a'_def Let_def)
    have "array_ok a'" using a1 suc room by (auto simp: array_ok_def a'_def nth_list_update less_Suc_eq)
    moreover have "arr_list a' = arr_list a1 @ [x]"
      using room a1(2) suc by (simp add: arr_list_def a'_def take_Suc_conv_app_nth)
    ultimately show ?thesis using run a1(4) arr_list_length [OF ok] by simp
  qed
qed

lemma array_remove_ok:
  assumes ok: "array_ok a" and i: "unat i < length (arr_list a)"
  shows "\<exists>a'. array_remove a i = Some a' \<and> array_ok a'
    \<and> arr_list a' = take (unat i) (arr_list a) @ drop (Suc (unat i)) (arr_list a)"
proof -
  let ?n = "unat (arr_num a)" and ?i = "unat i" and ?v = "arr_v a"
  have lt: "?i < ?n" using i arr_list_length [OF ok] by simp
  then have lt': "i < arr_num a" by (simp add: word_less_nat_alt)
  have n: "?n \<le> length ?v" by (rule array_ok_num [OF ok])
  have suci: "unat (i + 1) = Suc ?i"
    using lt unat_u32_less [of "arr_num a"] by (simp add: unat_word_ariths)
  then have move: "unat (arr_num a - (i + 1)) = ?n - Suc ?i"
    using lt by (simp add: unat_sub_if')
  have pred: "unat (arr_num a - 1) = ?n - 1" using lt by (simp add: unat_sub_if')
  define a' where "a' = a\<lparr>arr_v := take ?i ?v @ take (?n - Suc ?i) (drop (?i + 1) ?v) @ drop (?i + (?n - Suc ?i)) ?v,
    arr_num := arr_num a - 1\<rparr>"
  have run: "array_remove a i = Some a'"
    using ok lt lt' n by (simp add: array_remove_def array_ok_def move a'_def Let_def)
  have v': "take (?n - 1) (arr_v a') = take ?i ?v @ take (?n - Suc ?i) (drop (Suc ?i) ?v)"
    using lt n by (simp add: a'_def)
  have list: "arr_list a' = take ?i (arr_list a) @ drop (Suc ?i) (arr_list a)"
    using v' pred lt n
    by (simp add: arr_list_def a'_def take_map drop_map drop_take min_def)
  have "arr_v a' ! j \<noteq> None" if "j < ?n - 1" for j
  proof -
    have "arr_v a' ! j = take (?n - 1) (arr_v a') ! j" using that by simp
    also have "\<dots> = ?v ! (if j < ?i then j else Suc j)"
      unfolding v' using that lt n by (auto simp: nth_append)
    finally show ?thesis using ok that lt by (auto simp: array_ok_def)
  qed
  moreover have "arr_num a - 1 \<le> arr_max a"
    using ok pred by (auto simp: array_ok_def word_le_nat_alt)
  ultimately have "array_ok a'"
    using ok n lt pred by (simp add: array_ok_def a'_def)
  with run list show ?thesis by blast
qed

section \<open>The interface of a dynamic array\<close>

text \<open>The laws the clients of the array rely on. \<open>limit\<close> bounds the number of elements.\<close>

locale dynamic_array =
  fixes invar :: "'a \<Rightarrow> bool"
    and elems :: "'a \<Rightarrow> 'e list"
    and limit :: nat
    and empty :: 'a
    and add :: "'a \<Rightarrow> 'e \<Rightarrow> heap_oracle \<Rightarrow> ((errno + u32) \<times> 'a \<times> heap_oracle) option"
    and remove :: "'a \<Rightarrow> u32 \<Rightarrow> 'a option"
    and get :: "'a \<Rightarrow> u32 \<Rightarrow> 'e option option"
  assumes empty_ok: "invar empty" "elems empty = []"
    and add_ok: "invar a \<Longrightarrow> length (elems a) < limit \<Longrightarrow> \<exists>r a' ms'. add a x ms = Some (r, a', ms') \<and>
      (case r of Inl e \<Rightarrow> e = ENOMEM \<and> a' = a
               | Inr i \<Rightarrow> invar a' \<and> unat i = length (elems a) \<and> elems a' = elems a @ [x])"
    and remove_ok: "invar a \<Longrightarrow> unat i < length (elems a) \<Longrightarrow> \<exists>a'. remove a i = Some a' \<and> invar a'
      \<and> elems a' = take (unat i) (elems a) @ drop (Suc (unat i)) (elems a)"
    and remove_bad: "invar a \<Longrightarrow> length (elems a) \<le> unat i \<Longrightarrow> remove a i = None"
    and get_ok: "invar a \<Longrightarrow> unat i < length (elems a) \<Longrightarrow> get a i = Some (Some (elems a ! unat i))"
    and get_bad: "invar a \<Longrightarrow> length (elems a) \<le> unat i \<Longrightarrow> get a i = None"
    and small: "invar a \<Longrightarrow> length (elems a) \<le> limit"

text \<open>Appending the elements of a list one by one, giving up at the first failure.\<close>

fun add_all :: "('a \<Rightarrow> 'e \<Rightarrow> heap_oracle \<Rightarrow> ((errno + u32) \<times> 'a \<times> heap_oracle) option) \<Rightarrow>
    'e list \<Rightarrow> 'a \<Rightarrow> heap_oracle \<Rightarrow> ((errno + unit) \<times> 'a \<times> heap_oracle) option" where
  "add_all add [] a ms = Some (Inr (), a, ms)"
| "add_all add (x # xs) a ms = do {
     (r, a', ms') \<leftarrow> add a x ms;
     case r of Inl e \<Rightarrow> Some (Inl e, a', ms') | Inr _ \<Rightarrow> add_all add xs a' ms' }"

text \<open>\<^verbatim>\<open>for (i = 0; i < n; i++) array_remove(a, 0)\<close>, as \<^verbatim>\<open>proc_destroy\<close> empties its arrays.\<close>

fun remove_first :: "('a \<Rightarrow> u32 \<Rightarrow> 'a option) \<Rightarrow> nat \<Rightarrow> 'a \<Rightarrow> 'a option" where
  "remove_first remove 0 a = Some a"
| "remove_first remove (Suc n) a = do { a' \<leftarrow> remove a 0; remove_first remove n a' }"

context dynamic_array
begin

lemma add_all_ok:
  assumes "invar a" and "length (elems a) + length xs \<le> limit"
  shows "\<exists>r a' ms'. add_all add xs a ms = Some (r, a', ms') \<and> invar a' \<and>
    (case r of Inl e \<Rightarrow> e = ENOMEM \<and> (\<exists>k. elems a' = elems a @ take k xs) | Inr _ \<Rightarrow> elems a' = elems a @ xs)"
  using assms
proof (induction xs arbitrary: a ms)
  case Nil
  then show ?case by simp
next
  case (Cons x xs)
  have "length (elems a) < limit" using Cons.prems(2) by simp
  from add_ok [OF Cons.prems(1) this] obtain r a1 ms1 where
    a1: "add a x ms = Some (r, a1, ms1)"
    "case r of Inl e \<Rightarrow> e = ENOMEM \<and> a1 = a
      | Inr i \<Rightarrow> invar a1 \<and> unat i = length (elems a) \<and> elems a1 = elems a @ [x]" by blast
  show ?case
  proof (cases r)
    case (Inl e)
    with a1 Cons.prems show ?thesis by (auto intro: exI [of _ 0])
  next
    case (Inr i)
    with a1(2) have "invar a1" "length (elems a1) + length xs \<le> limit" "elems a1 = elems a @ [x]"
      using Cons.prems(2) by auto
    from Cons.IH [OF this(1,2), of ms1] obtain r' a' ms' where
      r': "add_all add xs a1 ms1 = Some (r', a', ms')" "invar a'"
      "case r' of Inl e \<Rightarrow> e = ENOMEM \<and> (\<exists>k. elems a' = elems a1 @ take k xs)
        | Inr _ \<Rightarrow> elems a' = elems a1 @ xs" by blast
    have "\<exists>k'. elems a' = elems a @ take k' (x # xs)" if "elems a' = elems a1 @ take k xs" for k
      using that \<open>elems a1 = elems a @ [x]\<close> by (intro exI [of _ "Suc k"]) simp
    with r' show ?thesis using a1(1) Inr \<open>elems a1 = elems a @ [x]\<close> by (cases r') auto
  qed
qed

lemma remove_first_ok:
  assumes "invar a" and "n \<le> length (elems a)"
  shows "\<exists>a'. remove_first remove n a = Some a' \<and> invar a' \<and> elems a' = drop n (elems a)"
  using assms
proof (induction n arbitrary: a)
  case 0
  then show ?case by simp
next
  case (Suc n)
  then have "unat (0 :: u32) < length (elems a)" by (cases "elems a") simp_all
  from remove_ok [OF Suc.prems(1) this] obtain a1 where
    a1: "remove a 0 = Some a1" "invar a1" "elems a1 = drop 1 (elems a)" by auto
  moreover have "n \<le> length (elems a1)" using Suc.prems(2) a1(3) by simp
  ultimately show ?case using Suc.IH [of a1] by auto
qed

end

interpretation karr: dynamic_array array_ok arr_list "2 ^ 29" array_init array_add array_remove array_get
proof unfold_locales
  show "array_ok array_init" "arr_list array_init = []"
    by (simp_all add: array_ok_def array_init_def array_cap_ok_def arr_list_def)
next
  fix a :: "'a array" and x ms
  assume "array_ok a" "length (arr_list a) < 2 ^ 29"
  then show "\<exists>r a' ms'. array_add a x ms = Some (r, a', ms') \<and>
      (case r of Inl e \<Rightarrow> e = ENOMEM \<and> a' = a
       | Inr i \<Rightarrow> array_ok a' \<and> unat i = length (arr_list a) \<and> arr_list a' = arr_list a @ [x])"
    using array_add_ok [of a x ms] by (simp add: arr_list_length)
next
  fix a :: "'a array" and i :: u32
  assume ok: "array_ok a"
  {
    assume "unat i < length (arr_list a)"
    then show "\<exists>a'. array_remove a i = Some a' \<and> array_ok a'
        \<and> arr_list a' = take (unat i) (arr_list a) @ drop (Suc (unat i)) (arr_list a)"
      by (rule array_remove_ok [OF ok])
  }
  {
    assume "length (arr_list a) \<le> unat i"
    then have "\<not> i < arr_num a" by (simp add: arr_list_length [OF ok] word_less_nat_alt)
    then show "array_remove a i = None" "array_get a i = None"
      by (simp_all add: array_remove_def array_get_def kassert_bind)
  }
  {
    assume "unat i < length (arr_list a)"
    then have i: "unat i < unat (arr_num a)" by (simp add: arr_list_length [OF ok])
    with array_ok_num [OF ok] have "unat i < length (arr_v a)" by simp
    with i ok show "array_get a i = Some (Some (arr_list a ! unat i))"
      by (auto simp: array_get_def word_less_nat_alt arr_list_def array_ok_def)
  }
  have "unat (arr_num a) \<le> unat (arr_max a)" using ok by (simp add: array_ok_def word_le_nat_alt)
  then show "length (arr_list a) \<le> 2 ^ 29"
    using array_cap_le [of "arr_max a"] ok by (simp add: arr_list_length [OF ok] array_ok_def)
qed

section \<open>Properties\<close>

text \<open>C22. \<^verbatim>\<open>array_add\<close> on a well-formed array of fewer than \<open>2\<^sup>2\<^sup>9\<close> elements either fails with
  \<^verbatim>\<open>ENOMEM\<close> and leaves the array unchanged, or appends the value and returns its index; the growth
  loop ends and the copied vector holds every old element.\<close>

theorem array_add_appends:
  assumes "array_ok a" and "length (arr_list a) < 2 ^ 29"
  shows "\<exists>r a' ms'. array_add a x ms = Some (r, a', ms') \<and>
     (case r of
        Inl e \<Rightarrow> e = ENOMEM \<and> a' = a
      | Inr i \<Rightarrow> array_ok a' \<and> unat i = length (arr_list a) \<and> arr_list a' = arr_list a @ [x])"
  by (rule karr.add_ok [OF assms])

theorem array_add_appends_witness:
  "\<exists>a' ms'. array_add array_init (7 :: nat) [] = Some (Inr 0, a', ms') \<and> arr_list a' = [7] \<and> array_ok a'"
proof -
  have ok: "array_ok (array_init :: nat array)" and len: "length (arr_list (array_init :: nat array)) < 2 ^ 29"
    by (simp_all add: karr.empty_ok)
  have "array_grow 1 0 = Some 4" by (simp add: array_grow.simps)
  then have "\<exists>a' ms'. array_add array_init (7 :: nat) [] = Some (Inr 0, a', ms')"
    by (simp add: array_add_def array_setsize_def array_preallocate_def array_init_def Let_def)
  with array_add_appends [OF ok len, of 7 "[]"] karr.empty_ok show ?thesis by auto
qed

text \<open>C23. \<^verbatim>\<open>array_remove\<close> of a valid index takes out exactly that element, the later ones moving
  down by one; an index out of range trips the assertion.\<close>

theorem array_remove_excises:
  assumes "array_ok a"
  shows "case array_remove a i of
      Some a' \<Rightarrow> unat i < length (arr_list a) \<and> array_ok a'
        \<and> arr_list a' = take (unat i) (arr_list a) @ drop (Suc (unat i)) (arr_list a)
    | None \<Rightarrow> length (arr_list a) \<le> unat i"
  using karr.remove_ok [OF assms, of i] karr.remove_bad [OF assms, of i]
  by (cases "unat i < length (arr_list a)") auto

theorem array_remove_excises_witness:
  "\<exists>a. array_ok a \<and> arr_list a = [10, 20, 30 :: nat] \<and> (\<exists>a'. array_remove a 1 = Some a' \<and> arr_list a' = [10, 30])"
proof -
  define a :: "nat array" where "a = \<lparr>arr_v = [Some 10, Some 20, Some 30, None], arr_num = 3, arr_max = 4\<rparr>"
  have "\<forall>i<3. [Some 10, Some 20, Some 30, None :: nat option] ! i \<noteq> None"
    by (auto simp: numeral_3_eq_3 less_Suc_eq)
  then have ok: "array_ok a"
    by (auto simp: a_def array_ok_def array_cap_ok_def intro: exI [of _ 0])
  have list: "arr_list a = [10, 20, 30]" by (simp add: a_def arr_list_def take_Cons')
  have "array_remove a 1 \<noteq> None" by (simp add: a_def array_remove_def)
  then obtain a' where "array_remove a 1 = Some a'" by blast
  with array_remove_excises [OF ok, of 1] list have "arr_list a' = [10, 30]" by simp
  with ok list \<open>array_remove a 1 = Some a'\<close> show ?thesis by blast
qed



end
