(* ===== verification/Kobj.thy ===== *)
theory Kobj
  imports Kheap Karray
begin

text \<open>
  Kernel objects made of heap blocks: wait channels (\<^verbatim>\<open>wchan_create\<close>, \<^verbatim>\<open>wchan_destroy\<close> of
  \<^verbatim>\<open>kern/thread/thread.c\<close>), locks (\<^verbatim>\<open>lock_create\<close>, \<^verbatim>\<open>lock_destroy\<close> of \<^verbatim>\<open>kern/thread/synch.c\<close>) and
  \<^verbatim>\<open>kstrdup\<close>. The blocks come from the modelled heap. The vector of the master array \<^verbatim>\<open>allwchans\<close> is the
  array of \<^verbatim>\<open>kern/lib/array.c\<close>, whose growth succeeds or fails as the oracle says. How threads wait on a
  channel and contend for a lock is the subject of the theory \<open>Synch\<close>.
\<close>

section \<open>State and operations\<close>

record kobjs =
  kh :: kheap
  allwchans :: "vaddr array"
  wc_index :: "vaddr \<Rightarrow> u32"
  koracle :: heap_oracle

definition obj_alloc :: "u32 \<Rightarrow> 'a kobjs_scheme \<Rightarrow> (vaddr \<times> 'a kobjs_scheme) option" where
  "obj_alloc sz s = do { (a, h) \<leftarrow> kmalloc sz (kh s); Some (a, s\<lparr>kh := h\<rparr>) }"

definition obj_free :: "vaddr \<Rightarrow> 'a kobjs_scheme \<Rightarrow> 'a kobjs_scheme option" where
  "obj_free a s = do { h \<leftarrow> kfree a (kh s); Some (s\<lparr>kh := h\<rparr>) }"

text \<open>The copied characters play no role; only the block does.\<close>

definition kstrdup :: "string \<Rightarrow> 'a kobjs_scheme \<Rightarrow> (vaddr \<times> 'a kobjs_scheme) option" where
  "kstrdup str s = obj_alloc (of_nat (length str + 1)) s"

text \<open>\<^verbatim>\<open>sizeof(struct wchan)\<close> is 36: a name, a thread list of seven words, an index.\<close>

definition wchan_create :: "'a kobjs_scheme \<Rightarrow> (vaddr option \<times> 'a kobjs_scheme) option" where
  "wchan_create s = do {
     (wc, s1) \<leftarrow> obj_alloc 36 s;
     if wc = 0 then Some (None, s1)
     else do {
       (r, arr, ms) \<leftarrow> array_add (allwchans s1) wc (koracle s1);
       let s2 = s1\<lparr>allwchans := arr, koracle := ms\<rparr>;
       (case r of
          Inl e \<Rightarrow> do { _ \<leftarrow> kassert (e = ENOMEM); s3 \<leftarrow> obj_free wc s2; Some (None, s3) }
        | Inr i \<Rightarrow> Some (Some wc, s2\<lparr>wc_index := (wc_index s2)(wc := i)\<rparr>)) } }"

definition wchan_destroy :: "vaddr \<Rightarrow> 'a kobjs_scheme \<Rightarrow> 'a kobjs_scheme option" where
  "wchan_destroy wc s = do {
     let num = arr_num (allwchans s);
     self \<leftarrow> array_get (allwchans s) (wc_index s wc);
     _ \<leftarrow> kassert (self = Some wc);
     s1 \<leftarrow> (if wc_index s wc < num - 1 then do {
         x \<leftarrow> array_get (allwchans s) (num - 1);
         wc2 \<leftarrow> x;
         arr \<leftarrow> array_set (allwchans s) (wc_index s wc) wc2;
         Some (s\<lparr>allwchans := arr, wc_index := (wc_index s)(wc2 := wc_index s wc)\<rparr>) }
       else Some s);
     (r, arr, ms) \<leftarrow> array_setsize (allwchans s1) (num - 1) (koracle s1);
     obj_free wc (s1\<lparr>allwchans := arr, koracle := ms\<rparr>) }"

record klock =
  lk_addr :: vaddr
  lk_name :: vaddr
  lk_wchan :: vaddr

text \<open>\<^verbatim>\<open>sizeof(struct lock)\<close> is 24.\<close>

definition lock_create :: "string \<Rightarrow> 'a kobjs_scheme \<Rightarrow> (klock option \<times> 'a kobjs_scheme) option" where
  "lock_create name s = do {
     (lock, s1) \<leftarrow> obj_alloc 24 s;
     if lock = 0 then Some (None, s1)
     else do {
       (nm, s2) \<leftarrow> kstrdup name s1;
       if nm = 0 then do { s3 \<leftarrow> obj_free lock s2; Some (None, s3) }
       else do {
         (wc, s3) \<leftarrow> wchan_create s2;
         (case wc of
            None \<Rightarrow> do { s4 \<leftarrow> obj_free nm s3; s5 \<leftarrow> obj_free lock s4; Some (None, s5) }
          | Some w \<Rightarrow> Some (Some \<lparr>lk_addr = lock, lk_name = nm, lk_wchan = w\<rparr>, s3)) } } }"

definition lock_destroy :: "klock \<Rightarrow> 'a kobjs_scheme \<Rightarrow> 'a kobjs_scheme option" where
  "lock_destroy lk s = do {
     s1 \<leftarrow> wchan_destroy (lk_wchan lk) s;
     s2 \<leftarrow> obj_free (lk_name lk) s1;
     obj_free (lk_addr lk) s2 }"

section \<open>Invariant\<close>

abbreviation lv :: "'a kobjs_scheme \<Rightarrow> vaddr set" where "lv s \<equiv> live_addrs (kh s)"
abbreviation kroom :: "'a kobjs_scheme \<Rightarrow> bool" where "kroom s \<equiv> roots_room (kh s)"

definition wchans :: "'a kobjs_scheme \<Rightarrow> vaddr list" where
  "wchans s = arr_list (allwchans s)"

definition kobj_ok :: "'a kobjs_scheme \<Rightarrow> bool" where
  "kobj_ok s \<longleftrightarrow> heap_ok (kh s) \<and> array_ok (allwchans s) \<and> distinct (wchans s) \<and> set (wchans s) \<subseteq> lv s
     \<and> (\<forall>i<length (wchans s). unat (wc_index s (wchans s ! i)) = i)"

text \<open>A step of the object layer: well-formedness is kept, user pages and whatever extends the state are untouched.\<close>

definition kstep :: "'a kobjs_scheme \<Rightarrow> 'a kobjs_scheme \<Rightarrow> bool" where
  "kstep s s' \<longleftrightarrow> kobj_ok s' \<and> kframe (kh s) (kh s') \<and> kobjs.more s' = kobjs.more s"

lemma kstep_trans [trans]: "kstep s s' \<Longrightarrow> kstep s' s'' \<Longrightarrow> kstep s s''"
  unfolding kstep_def using kframe_trans by metis

lemma kstep_ok: "kstep s s' \<Longrightarrow> kobj_ok s'"
  by (simp add: kstep_def)

lemma wchans_kh [simp]: "wchans (s\<lparr>kh := h\<rparr>) = wchans s"
  by (simp add: wchans_def)

lemma obj_alloc_ok:
  assumes ok: "kobj_ok s" "kroom s" and sz: "sz < LARGEST_SUBPAGE_SIZE"
  obtains (fail) s' where "obj_alloc sz s = Some (0, s')" "kstep s s'" "lv s' = lv s" "wchans s' = wchans s"
  | (got) a s' where "obj_alloc sz s = Some (a, s')" "a \<noteq> 0" "kstep s s'" "kroom s'" "a \<notin> lv s" "lv s' = insert a (lv s)"
      "wchans s' = wchans s" "allwchans s' = allwchans s" "wc_index s' = wc_index s"
proof -
  have h: "heap_ok (kh s)" using ok(1) by (simp add: kobj_ok_def)
  from h ok(2) sz show thesis
  proof (cases rule: kmalloc_addr_ok)
    case (fail h')
    then show ?thesis using ok(1) by (intro that(1) [of "s\<lparr>kh := h'\<rparr>"]) (auto simp: obj_alloc_def kstep_def kobj_ok_def)
  next
    case (got a h')
    then show ?thesis using ok(1) by (intro that(2) [of a "s\<lparr>kh := h'\<rparr>"]) (auto simp: obj_alloc_def kstep_def kobj_ok_def)
  qed
qed

lemma obj_free_ok:
  assumes ok: "kobj_ok s" and a: "a \<in> lv s" "a \<notin> set (wchans s)"
  obtains s' where "obj_free a s = Some s'" "kstep s s'" "lv s' = lv s - {a}" "wchans s' = wchans s" "kroom s \<longrightarrow> kroom s'"
proof -
  have h: "heap_ok (kh s)" using ok(1) by (simp add: kobj_ok_def)
  obtain h' where h': "kfree a (kh s) = Some h'" "heap_ok h'" "live_addrs h' = lv s - {a}" "kframe (kh s) h'"
    "roots_room (kh s) \<longrightarrow> roots_room h'" by (rule kfree_addr_ok [OF h a(1)])
  then show thesis using ok a by (intro that [of "s\<lparr>kh := h'\<rparr>"]) (auto simp: obj_free_def kstep_def kobj_ok_def)
qed

text \<open>Shrinking and overwriting the master array.\<close>

lemma array_set_list:
  assumes ok: "array_ok a" and i: "unat i < length (arr_list a)"
  shows "\<exists>a'. array_set a i x = Some a' \<and> array_ok a' \<and> arr_num a' = arr_num a \<and> arr_list a' = (arr_list a)[unat i := x]"
proof -
  have lt: "unat i < unat (arr_num a)" using i arr_list_length [OF ok] by simp
  then have v: "unat i < length (arr_v a)" using array_ok_num [OF ok] by simp
  let ?a = "a\<lparr>arr_v := (arr_v a)[unat i := Some x]\<rparr>"
  have "array_set a i x = Some ?a" using lt v by (simp add: array_set_def word_less_nat_alt)
  moreover have "(arr_v a)[unat i := Some x] ! j \<noteq> None" if "j < unat (arr_num a)" for j
    using that ok v by (cases "j = unat i") (auto simp: array_ok_def)
  then have "array_ok ?a" using ok by (simp add: array_ok_def)
  moreover have "arr_list ?a = (arr_list a)[unat i := x]"
    using lt by (simp add: arr_list_def take_update_swap map_update)
  ultimately show ?thesis by auto
qed

lemma array_setsize_shrink:
  assumes ok: "array_ok a" and n: "n \<le> arr_num a"
  shows "array_setsize a n ms = Some (Inr (), a\<lparr>arr_num := n\<rparr>, ms)" "array_ok (a\<lparr>arr_num := n\<rparr>)"
    "arr_list (a\<lparr>arr_num := n\<rparr>) = take (unat n) (arr_list a)"
proof -
  have "n \<le> arr_max a" using ok n order_trans unfolding array_ok_def by blast
  then show "array_setsize a n ms = Some (Inr (), a\<lparr>arr_num := n\<rparr>, ms)"
    by (simp add: array_setsize_def array_preallocate_def not_less [symmetric])
  show "array_ok (a\<lparr>arr_num := n\<rparr>)" using ok n \<open>n \<le> arr_max a\<close> by (auto simp: array_ok_def word_le_nat_alt)
  show "arr_list (a\<lparr>arr_num := n\<rparr>) = take (unat n) (arr_list a)"
    using n by (simp add: arr_list_def take_map min_def word_le_nat_alt)
qed

text \<open>Every channel is a distinct heap block, so there is always room for one more index.\<close>

lemma wchans_few:
  assumes "kobj_ok s"
  shows "length (wchans s) = unat (arr_num (allwchans s))" "unat (arr_num (allwchans s)) < 2 ^ 29"
proof -
  have inv: "heap_inv (kh s)" and d: "distinct (wchans s)" and sub: "set (wchans s) \<subseteq> lv s" and a: "array_ok (allwchans s)"
    using assms by (auto simp: kobj_ok_def heap_ok_def)
  show len: "length (wchans s) = unat (arr_num (allwchans s))" using arr_list_length [OF a] by (simp add: wchans_def)
  have "length (wchans s) = card (set (wchans s))" using d by (simp add: distinct_card)
  also have "\<dots> \<le> card (lv s)" using live_addrs_bound(1) [OF inv] sub by (rule card_mono)
  also have "\<dots> \<le> 33554432" by (rule live_addrs_bound(2) [OF inv])
  finally show "unat (arr_num (allwchans s)) < 2 ^ 29" using len by simp
qed

lemma wchan_create_ok:
  assumes ok: "kobj_ok s" "kroom s"
  obtains (fail) s' where "wchan_create s = Some (None, s')" "kstep s s'" "lv s' = lv s" "wchans s' = wchans s"
  | (got) w s' where "wchan_create s = Some (Some w, s')" "kstep s s'" "kroom s'" "w \<notin> lv s" "lv s' = insert w (lv s)"
      "set (wchans s') = insert w (set (wchans s))"
proof -
  have "(36 :: u32) < LARGEST_SUBPAGE_SIZE" by simp
  with ok show thesis
  proof (cases rule: obj_alloc_ok)
    case (fail s1)
    then show ?thesis using that(1) [of s1] by (simp add: wchan_create_def)
  next
    case (got w s1)
    note ok1 = kstep_ok [OF got(3)]
    have arr1: "array_ok (allwchans s1)" using ok1 by (simp add: kobj_ok_def)
    from array_add_ok [OF arr1 wchans_few(2) [OF ok1], of w "koracle s1"] obtain r arr ms where
      add: "array_add (allwchans s1) w (koracle s1) = Some (r, arr, ms)" and
      r: "case r of Inl e \<Rightarrow> e = ENOMEM \<and> arr = allwchans s1
        | Inr i \<Rightarrow> array_ok arr \<and> unat i = length (wchans s1) \<and> arr_list arr = wchans s1 @ [w]"
      unfolding wchans_def by blast
    have wn: "w \<notin> set (wchans s1)" using got(5,7) ok(1) by (auto simp: kobj_ok_def)
    show ?thesis
    proof (cases r)
      case (Inl e)
      let ?s2 = "s1\<lparr>allwchans := arr, koracle := ms\<rparr>"
      have e: "e = ENOMEM" "arr = allwchans s1" using r Inl by auto
      have w2: "wchans ?s2 = wchans s1" by (simp add: wchans_def e)
      have ok2: "kobj_ok ?s2" using ok1 w2 e by (simp add: kobj_ok_def)
      obtain s3 where f: "obj_free w ?s2 = Some s3" "kstep ?s2 s3" "lv s3 = lv ?s2 - {w}" "wchans s3 = wchans ?s2"
        by (rule obj_free_ok [OF ok2, of w]) (use got(6) wn w2 in auto)
      have "kstep s1 ?s2" using ok2 by (simp add: kstep_def)
      from kstep_trans [OF kstep_trans [OF got(3) this] f(2)] have "kstep s s3" .
      moreover have "lv s3 = lv s" using f(3) got(5,6) by simp
      ultimately show ?thesis using that(1) [of s3] got(1,2,7) add Inl e(1) f(1,4) w2 by (simp add: wchan_create_def)
    next
      case (Inr i)
      let ?s2 = "s1\<lparr>allwchans := arr, koracle := ms, wc_index := (wc_index s1)(w := i)\<rparr>"
      have i: "array_ok arr" "unat i = length (wchans s1)" "arr_list arr = wchans s1 @ [w]" using r Inr by auto
      have w2: "wchans ?s2 = wchans s1 @ [w]" by (simp add: wchans_def i(3))
      have "unat (((wc_index s1)(w := i)) ((wchans s1 @ [w]) ! j)) = j" if "j < Suc (length (wchans s1))" for j
        using that ok1 wn i(2) by (auto simp: kobj_ok_def nth_append less_Suc_eq)
      then have ok2: "kobj_ok ?s2"
        using ok1 got(6) i(1) wn unfolding kobj_ok_def w2 by auto
      then have "kstep s1 ?s2" by (simp add: kstep_def)
      from kstep_trans [OF got(3) this] show ?thesis using that(2) [of w ?s2] got(1,2,4-7) add Inr w2 by (simp add: wchan_create_def)
    qed
  qed
qed

text \<open>The last channel takes the place of the one that goes.\<close>

lemma swap_out_list:
  assumes d: "distinct l" and i: "i < length l"
  defines "l' \<equiv> take (length l - 1) (if i < length l - 1 then l[i := l ! (length l - 1)] else l)"
  shows "distinct l'" "set l' = set l - {l ! i}" "length l' = length l - 1"
    "\<And>j. j < length l - 1 \<Longrightarrow> l' ! j = (if j = i then l ! (length l - 1) else l ! j)"
proof -
  show len: "length l' = length l - 1" using i by (simp add: l'_def)
  show nth: "l' ! j = (if j = i then l ! (length l - 1) else l ! j)" if "j < length l - 1" for j
    using that by (simp add: l'_def)
  show "distinct l'" unfolding distinct_conv_nth len
    using nth d i by (auto simp: nth_eq_iff_index_eq)
  show "set l' = set l - {l ! i}"
  proof (intro set_eqI iffI)
    fix x assume "x \<in> set l'"
    then obtain j where "j < length l - 1" "x = l' ! j" unfolding in_set_conv_nth len by auto
    then show "x \<in> set l - {l ! i}" using nth d i by (auto simp: nth_eq_iff_index_eq split: if_splits)
  next
    fix x assume "x \<in> set l - {l ! i}"
    then obtain j where j: "j < length l" "x = l ! j" "j \<noteq> i" by (auto simp: in_set_conv_nth)
    show "x \<in> set l'"
    proof (cases "j = length l - 1")
      case True
      then have "i < length l - 1" using i j by simp
      then have "l' ! i = x" "i < length l'" using nth [of i] j True len by auto
      then show ?thesis by (metis nth_mem)
    next
      case False
      then have "l' ! j = x" "j < length l'" using nth [of j] j len by auto
      then show ?thesis by (metis nth_mem)
    qed
  qed
qed

lemma wchan_destroy_ok:
  assumes ok: "kobj_ok s" and w: "w \<in> set (wchans s)"
  obtains s' where "wchan_destroy w s = Some s'" "kstep s s'" "lv s' = lv s - {w}" "set (wchans s') = set (wchans s) - {w}"
    "kroom s \<longrightarrow> kroom s'"
proof -
  let ?a = "allwchans s" and ?l = "wchans s" and ?i = "wc_index s w"
  have arr: "array_ok ?a" and d: "distinct ?l" and ix: "\<forall>i<length ?l. unat (wc_index s (?l ! i)) = i" and sub: "set ?l \<subseteq> lv s"
    using ok by (auto simp: kobj_ok_def)
  have len: "length ?l = unat (arr_num ?a)" by (rule wchans_few(1) [OF ok])
  from w ix have i: "unat ?i < length ?l" "?l ! unat ?i = w" by (auto simp: in_set_conv_nth)
  have n1: "unat (arr_num ?a - 1) = length ?l - 1" using i(1) len by (simp add: unat_sub_if')
  have self: "array_get ?a ?i = Some (Some w)" using karr.get_ok [OF arr] i by (simp add: wchans_def)
  have lasti: "array_get ?a (arr_num ?a - 1) = Some (Some (?l ! (length ?l - 1)))"
    using karr.get_ok [OF arr, of "arr_num ?a - 1"] i(1) n1 by (simp add: wchans_def)
  have cond: "?i < arr_num ?a - 1 \<longleftrightarrow> unat ?i < length ?l - 1" by (simp add: word_less_nat_alt n1)
  obtain a1 where a1: "array_ok a1" "arr_num a1 = arr_num ?a"
    "arr_list a1 = (if unat ?i < length ?l - 1 then ?l[unat ?i := ?l ! (length ?l - 1)] else ?l)"
    "unat ?i < length ?l - 1 \<Longrightarrow> array_set ?a ?i (?l ! (length ?l - 1)) = Some a1" "\<not> unat ?i < length ?l - 1 \<Longrightarrow> a1 = ?a"
  proof (cases "unat ?i < length ?l - 1")
    case True
    with array_set_list [OF arr, of ?i "?l ! (length ?l - 1)"] i(1) that show ?thesis by (auto simp: wchans_def)
  next
    case False
    with that [of ?a] arr show ?thesis by (auto simp: wchans_def)
  qed
  define ix' where "ix' = (if unat ?i < length ?l - 1 then (wc_index s)(?l ! (length ?l - 1) := ?i) else wc_index s)"
  let ?a2 = "a1\<lparr>arr_num := arr_num ?a - 1\<rparr>"
  let ?s2 = "s\<lparr>allwchans := ?a2, wc_index := ix'\<rparr>"
  have "arr_num ?a - 1 \<le> arr_num a1" using a1(2) n1 len by (simp add: word_le_nat_alt)
  note sh = array_setsize_shrink [OF a1(1) this]
  note sw = swap_out_list [OF d i(1)]
  have w2: "wchans ?s2 = take (length ?l - 1) (if unat ?i < length ?l - 1 then ?l[unat ?i := ?l ! (length ?l - 1)] else ?l)"
    by (simp add: wchans_def sh(3) n1 a1(3) [unfolded wchans_def])
  have "unat (ix' (wchans ?s2 ! j)) = j" if j: "j < length ?l - 1" for j
  proof (cases "unat ?i < length ?l - 1 \<and> j = unat ?i")
    case True
    then have jl: "wchans ?s2 ! j = ?l ! (length ?l - 1)" using sw(4) [OF j] unfolding w2 by auto
    show ?thesis unfolding jl using True by (simp add: ix'_def)
  next
    case False
    then have jl: "wchans ?s2 ! j = ?l ! j" using sw(4) [OF j] j unfolding w2 by auto
    have "?l ! j \<noteq> ?l ! (length ?l - 1)" using d j by (simp add: nth_eq_iff_index_eq)
    then show ?thesis unfolding jl using ix j by (simp add: ix'_def)
  qed
  then have ok2: "kobj_ok ?s2"
    using ok sub sw(1-3) sh(2) unfolding kobj_ok_def w2 by auto
  have wn: "w \<notin> set (wchans ?s2)" using sw(2) i(2) unfolding w2 by simp
  obtain s' where f: "obj_free w ?s2 = Some s'" "kstep ?s2 s'" "lv s' = lv ?s2 - {w}" "wchans s' = wchans ?s2" "kroom ?s2 \<longrightarrow> kroom s'"
    by (rule obj_free_ok [OF ok2 _ wn]) (use w sub in auto)
  have upd: "s\<lparr>wc_index := f, allwchans := b\<rparr> = s\<lparr>allwchans := b, wc_index := f\<rparr>" for f b by (cases s) simp
  have run: "wchan_destroy w s = obj_free w ?s2"
  proof (cases "unat ?i < length ?l - 1")
    case True
    then show ?thesis using self lasti a1(4) sh(1) by (simp add: wchan_destroy_def cond ix'_def Let_def upd)
  next
    case False
    then show ?thesis using self a1(5) sh(1) by (simp add: wchan_destroy_def cond ix'_def Let_def)
  qed
  have "kstep s ?s2" using ok2 by (simp add: kstep_def)
  from kstep_trans [OF this f(2)] show thesis
    using that [of s'] run f sw(2) i(2) unfolding w2 by simp
qed

lemma lock_create_ok:
  assumes ok: "kobj_ok s" "kroom s" and len: "length name < 2047"
  obtains (fail) s' where "lock_create name s = Some (None, s')" "kstep s s'" "lv s' = lv s" "set (wchans s') = set (wchans s)"
  | (got) lk s' where "lock_create name s = Some (Some lk, s')" "kstep s s'" "kroom s'"
      "distinct [lk_addr lk, lk_name lk, lk_wchan lk]" "{lk_addr lk, lk_name lk, lk_wchan lk} \<inter> lv s = {}"
      "lv s' = {lk_addr lk, lk_name lk, lk_wchan lk} \<union> lv s" "set (wchans s') = insert (lk_wchan lk) (set (wchans s))"
proof -
  have sz: "(24 :: u32) < LARGEST_SUBPAGE_SIZE" by simp
  have "unat (of_nat (length name + 1) :: u32) = length name + 1" using len by (intro unat_of_nat_u32) simp
  then have sz': "of_nat (length name + 1) < LARGEST_SUBPAGE_SIZE" using len by (simp add: word_less_nat_alt)
  have wl: "set (wchans s) \<subseteq> lv s" using ok(1) by (simp add: kobj_ok_def)
  from ok sz show thesis
  proof (cases rule: obj_alloc_ok)
    case (fail s1)
    then show ?thesis using that(1) [of s1] by (simp add: lock_create_def)
  next
    case (got a s1)
    note ok1 = kstep_ok [OF got(3)]
    have an: "a \<notin> set (wchans s)" using got(5) wl by auto
    from ok1 got(4) sz' show ?thesis
    proof (cases rule: obj_alloc_ok)
      case (fail s2)
      obtain s3 where f: "obj_free a s2 = Some s3" "kstep s2 s3" "lv s3 = lv s2 - {a}" "wchans s3 = wchans s2"
        by (rule obj_free_ok [OF kstep_ok [OF fail(2)], of a]) (use fail(3,4) got(6,7) an in auto)
      from kstep_trans [OF kstep_trans [OF got(3) fail(2)] f(2)] show ?thesis
        using that(1) [of s3] got(1,2,5-7) fail f by (simp add: lock_create_def kstrdup_def)
    next
      case (got b s2)
      note g1 = \<open>obj_alloc 24 s = Some (a, s1)\<close> \<open>a \<noteq> 0\<close> \<open>kstep s s1\<close> \<open>a \<notin> lv s\<close> \<open>lv s1 = insert a (lv s)\<close> \<open>wchans s1 = wchans s\<close>
      note ok2 = kstep_ok [OF got(3)]
      have run: "lock_create name s = wchan_create s2 \<bind> (\<lambda>(wc, s3). case wc of
            None \<Rightarrow> do { s4 \<leftarrow> obj_free b s3; s5 \<leftarrow> obj_free a s4; Some (None, s5) }
          | Some w \<Rightarrow> Some (Some \<lparr>lk_addr = a, lk_name = b, lk_wchan = w\<rparr>, s3))"
        using g1(1,2) got(1,2) by (simp add: lock_create_def kstrdup_def)
      have bn: "b \<notin> set (wchans s)" "b \<noteq> a" using got(5) wl g1(5) by auto
      from ok2 got(4) show ?thesis
      proof (cases rule: wchan_create_ok)
        case (fail s3)
        obtain s4 where f4: "obj_free b s3 = Some s4" "kstep s3 s4" "lv s4 = lv s3 - {b}" "wchans s4 = wchans s3"
          by (rule obj_free_ok [OF kstep_ok [OF fail(2)], of b]) (use fail got(6,7) g1(6) bn in auto)
        obtain s5 where f5: "obj_free a s4 = Some s5" "kstep s4 s5" "lv s5 = lv s4 - {a}" "wchans s5 = wchans s4"
          by (rule obj_free_ok [OF kstep_ok [OF f4(2)], of a]) (use f4(3,4) fail got(6,7) g1(5,6) bn an in auto)
        have "lv s5 = lv s" using f5(3) f4(3) fail(3) got(5,6) g1(4,5) by auto
        with kstep_trans [OF kstep_trans [OF kstep_trans [OF kstep_trans [OF g1(3) got(3)] fail(2)] f4(2)] f5(2)] show ?thesis
          using that(1) [of s5] run fail(1,4) f4(1,4) f5(1,4) got(7) g1(6) by simp
      next
        case (got w s3)
        note g2 = \<open>lv s2 = insert b (lv s1)\<close> \<open>b \<notin> lv s1\<close> \<open>wchans s2 = wchans s1\<close> \<open>kstep s1 s2\<close>
        let ?lk = "\<lparr>lk_addr = a, lk_name = b, lk_wchan = w\<rparr>"
        from kstep_trans [OF kstep_trans [OF g1(3) g2(4)] got(2)] show ?thesis
          using that(2) [of ?lk s3] run got g1(4-6) g2(1-3) by auto
      qed
    qed
  qed
qed

lemma lock_destroy_ok:
  assumes ok: "kobj_ok s" and d: "distinct [lk_addr lk, lk_name lk, lk_wchan lk]"
    and l: "lk_addr lk \<in> lv s - set (wchans s)" "lk_name lk \<in> lv s - set (wchans s)" "lk_wchan lk \<in> set (wchans s)"
  obtains s' where "lock_destroy lk s = Some s'" "kstep s s'" "lv s' = lv s - {lk_addr lk, lk_name lk, lk_wchan lk}"
    "set (wchans s') = set (wchans s) - {lk_wchan lk}" "kroom s \<longrightarrow> kroom s'"
proof -
  obtain s1 where 1: "wchan_destroy (lk_wchan lk) s = Some s1" "kstep s s1" "lv s1 = lv s - {lk_wchan lk}"
    "set (wchans s1) = set (wchans s) - {lk_wchan lk}" "kroom s \<longrightarrow> kroom s1" by (rule wchan_destroy_ok [OF ok l(3)])
  obtain s2 where 2: "obj_free (lk_name lk) s1 = Some s2" "kstep s1 s2" "lv s2 = lv s1 - {lk_name lk}" "wchans s2 = wchans s1"
    "kroom s1 \<longrightarrow> kroom s2"
    by (rule obj_free_ok [OF kstep_ok [OF 1(2)], of "lk_name lk"]) (use 1 l d in auto)
  obtain s3 where 3: "obj_free (lk_addr lk) s2 = Some s3" "kstep s2 s3" "lv s3 = lv s2 - {lk_addr lk}" "wchans s3 = wchans s2"
    "kroom s2 \<longrightarrow> kroom s3"
    by (rule obj_free_ok [OF kstep_ok [OF 2(2)], of "lk_addr lk"]) (use 1 2 l d in auto)
  from kstep_trans [OF kstep_trans [OF 1(2) 2(2)] 3(2)] show thesis
    using that [of s3] 1 2 3 by (auto simp: lock_destroy_def)
qed

end
