(* ===== verification/Addrspace.thy ===== *)
theory Addrspace
  imports Kobj
begin

text \<open>
  The virtual memory system: address spaces (\<^verbatim>\<open>kern/vm/addrspace.c\<close>), the page-fault handler, the TLB and
  the swap disk (\<^verbatim>\<open>kern/vm/vm.c\<close>), and \<^verbatim>\<open>sys_sbrk\<close> (\<^verbatim>\<open>kern/syscall/proc_syscalls.c\<close>).

  An address space is named by the heap address of its \<^verbatim>\<open>struct addrspace\<close>. Its two linked lists are lists of
  records that carry the heap address of each node; a node that has been freed while still linked is marked, and
  reading it is \<open>None\<close>. Fields the code has not stored into are \<open>None\<close>. An operation runs to its end before the next
  one starts, so the locks of page table entries are free whenever one is acquired, and each is released before the
  operation returns: only their creation and destruction are represented.
\<close>

section \<open>State\<close>

datatype vpage_state = Mapped | Unmapped | Swapped

record page_table_entry =
  pte_addr :: vaddr
  as_vpage :: vaddr
  as_ppage :: "nat option"
  vpage_permission :: "u32 option"
  vstate :: vpage_state
  diskpage_location :: "nat option"
  pte_lock :: klock
  pte_freed :: bool

record region =
  rg_addr :: vaddr
  rg_start :: vaddr
  rg_size :: u32
  rg_npages :: u32
  rg_read :: bool
  rg_write :: bool
  rg_execute :: bool

record addrspace =
  start_region :: "region list"
  start_page_table :: "page_table_entry list"
  heap_start :: vaddr
  heap_end :: vaddr

text \<open>The TLB holds pairs of an \<^verbatim>\<open>entryhi\<close> and an \<^verbatim>\<open>entrylo\<close>. The swap disk is its contents, by byte offset
  of each word, and the outcomes of the transfers to come (after the list, every transfer succeeds).\<close>

record vmsys = kobjs +
  aspaces :: "vaddr \<Rightarrow> addrspace option"
  cur_as :: vaddr
  tlb :: "(u32 \<times> u32) list"
  swap_bitmap :: "bitmap option"
  swap_data :: "nat \<Rightarrow> u32"
  swap_io :: "errno option list"

abbreviation NUM_TLB :: nat where "NUM_TLB \<equiv> 64"
abbreviation VM_STACKPAGES :: u32 where "VM_STACKPAGES \<equiv> 128"
abbreviation USERSTACK :: vaddr where "USERSTACK \<equiv> 0x80000000"
abbreviation TLBLO_VALID :: u32 where "TLBLO_VALID \<equiv> 0x200"
abbreviation TLBLO_DIRTY :: u32 where "TLBLO_DIRTY \<equiv> 0x400"
abbreviation TLBHI_VPAGE :: u32 where "TLBHI_VPAGE \<equiv> 0xfffff000"

definition TLBHI_INVALID :: "nat \<Rightarrow> u32" where
  "TLBHI_INVALID i = push_bit 12 (0x80000 + of_nat i)"

definition set_as :: "vaddr \<Rightarrow> addrspace \<Rightarrow> vmsys \<Rightarrow> vmsys" where
  "set_as a sp s = s\<lparr>aspaces := (aspaces s)(a \<mapsto> sp)\<rparr>"

section \<open>The swap disk\<close>

definition vm_bootstrap :: "errno option \<Rightarrow> errno + u64 \<Rightarrow> vmsys \<Rightarrow> vmsys option" where
  "vm_bootstrap open_err stat s = (
     case open_err of
       Some e \<Rightarrow> Some (s\<lparr>swap_bitmap := None\<rparr>)
     | None \<Rightarrow> (case stat of
         Inl e \<Rightarrow> Some (s\<lparr>swap_bitmap := None\<rparr>)
       | Inr st_size \<Rightarrow>
           if unat st_size mod PAGE_SIZE \<noteq> 0 then Some (s\<lparr>swap_bitmap := None\<rparr>)
           else do {
             (b, ms) \<leftarrow> bitmap_create (ucast (st_size div 4096)) (koracle s);
             Some (s\<lparr>swap_bitmap := b, koracle := ms\<rparr>) }))"

fun next_io :: "errno option list \<Rightarrow> errno option \<times> errno option list" where
  "next_io [] = (None, [])"
| "next_io (r # rs) = (r, rs)"

text \<open>One page between memory at \<open>pa\<close> and the disk at byte offset \<open>off\<close>: what \<^verbatim>\<open>VOP_READ\<close> and \<^verbatim>\<open>VOP_WRITE\<close>
  on the raw disk do with a kernel \<^verbatim>\<open>uio\<close> of one page.\<close>

definition page_in :: "nat \<Rightarrow> u32 \<Rightarrow> vmsys \<Rightarrow> nat \<Rightarrow> u32" where
  "page_in pa off s = (\<lambda>x. if pa \<le> x \<and> x < pa + PAGE_SIZE then swap_data s (unat off + (x - pa)) else ram (kh s) x)"

definition disk_read :: "nat \<Rightarrow> u32 \<Rightarrow> vmsys \<Rightarrow> errno option \<times> vmsys" where
  "disk_read pa off s = (let (r, ios) = next_io (swap_io s); s1 = s\<lparr>swap_io := ios\<rparr> in
     case r of
       Some e \<Rightarrow> (Some e, s1)
     | None \<Rightarrow> (None, s1\<lparr>kh := (kh s1)\<lparr>ram := page_in pa off s\<rparr>\<rparr>))"

definition disk_write :: "nat \<Rightarrow> u32 \<Rightarrow> vmsys \<Rightarrow> errno option \<times> vmsys" where
  "disk_write pa off s = (let (r, ios) = next_io (swap_io s); s1 = s\<lparr>swap_io := ios\<rparr> in
     case r of
       Some e \<Rightarrow> (Some e, s1)
     | None \<Rightarrow> (None, s1\<lparr>swap_data := (\<lambda>x. if unat off \<le> x \<and> x < unat off + PAGE_SIZE
          then ram (kh s1) (pa + (x - unat off)) else swap_data s1 x)\<rparr>))"

text \<open>\<^verbatim>\<open>disk_index * PAGE_SIZE\<close> is an \<^verbatim>\<open>unsigned\<close> product.\<close>

definition swap_offset :: "nat \<Rightarrow> u32" where
  "swap_offset i = of_nat i * 4096"

definition read_swap_disk :: "nat \<Rightarrow> nat \<Rightarrow> bool \<Rightarrow> vmsys \<Rightarrow> ((errno + unit) \<times> vmsys) option" where
  "read_swap_disk page_paddr disk_index unmark s = do {
     b \<leftarrow> swap_bitmap s;
     on \<leftarrow> bitmap_isset b disk_index;
     if \<not> on then Some (Inl EINVAL, s)
     else (case disk_read page_paddr (swap_offset disk_index) s of
         (Some e, s1) \<Rightarrow> Some (Inl e, s1)
       | (None, s1) \<Rightarrow>
           if unmark then do { b' \<leftarrow> bitmap_unmark b disk_index; Some (Inr (), s1\<lparr>swap_bitmap := Some b'\<rparr>) }
           else Some (Inr (), s1)) }"

definition write_swap_disk :: "nat \<Rightarrow> vmsys \<Rightarrow> ((errno + nat) \<times> vmsys) option" where
  "write_swap_disk page_paddr s = do {
     b \<leftarrow> swap_bitmap s;
     (r, b') \<leftarrow> bitmap_alloc b;
     let s1 = s\<lparr>swap_bitmap := Some b'\<rparr>;
     (case r of
        Inl e \<Rightarrow> Some (Inl e, s1)
      | Inr free_index \<Rightarrow> (case disk_write page_paddr (swap_offset free_index) s1 of
            (Some e, s2) \<Rightarrow> Some (Inl e, s2)
          | (None, s2) \<Rightarrow> Some (Inr free_index, s2))) }"

definition unmark_swap_bitmap :: "nat \<Rightarrow> vmsys \<Rightarrow> vmsys option" where
  "unmark_swap_bitmap index s = do {
     b \<leftarrow> swap_bitmap s;
     on \<leftarrow> bitmap_isset b index;
     if on then do { b' \<leftarrow> bitmap_unmark b index; Some (s\<lparr>swap_bitmap := Some b'\<rparr>) } else Some s }"

section \<open>The TLB\<close>

definition tlb_write :: "u32 \<Rightarrow> u32 \<Rightarrow> nat \<Rightarrow> vmsys \<Rightarrow> vmsys option" where
  "tlb_write ehi elo i s = do { t \<leftarrow> wr (tlb s) i (ehi, elo); Some (s\<lparr>tlb := t\<rparr>) }"

definition tlb_probe :: "u32 \<Rightarrow> vmsys \<Rightarrow> nat option" where
  "tlb_probe ehi s = find (\<lambda>i. fst (tlb s ! i) AND TLBHI_VPAGE = ehi AND TLBHI_VPAGE) [0..<length (tlb s)]"

definition tlb_invalidate_entry :: "vaddr \<Rightarrow> vmsys \<Rightarrow> vmsys option" where
  "tlb_invalidate_entry va s = (case tlb_probe va s of
     None \<Rightarrow> Some s
   | Some i \<Rightarrow> tlb_write (TLBHI_INVALID i) 0 i s)"

text \<open>The end of \<^verbatim>\<open>vm_fault\<close>: the first entry that is not valid, or the one the processor picks (\<open>rnd\<close>).\<close>

definition tlb_insert :: "nat \<Rightarrow> vaddr \<Rightarrow> nat \<Rightarrow> vmsys \<Rightarrow> vmsys option" where
  "tlb_insert rnd va pa s = (
     let elo = of_nat pa OR TLBLO_DIRTY OR TLBLO_VALID in
     case find (\<lambda>i. snd (tlb s ! i) AND TLBLO_VALID = 0) [0..<NUM_TLB] of
       Some i \<Rightarrow> tlb_write va elo i s
     | None \<Rightarrow> tlb_write va elo rnd s)"

definition as_activate :: "vmsys \<Rightarrow> vmsys" where
  "as_activate s = (if cur_as s = 0 then s else s\<lparr>tlb := map (\<lambda>i. (TLBHI_INVALID i, 0)) [0..<NUM_TLB]\<rparr>)"

section \<open>Address spaces\<close>

text \<open>\<^verbatim>\<open>sizeof(struct addrspace)\<close> is 16, of a region 20, of a page table entry 28.\<close>

definition as_create :: "vmsys \<Rightarrow> (vaddr \<times> vmsys) option" where
  "as_create s = do {
     (a, s1) \<leftarrow> obj_alloc 16 s;
     if a = 0 then Some (0, s1)
     else Some (a, set_as a \<lparr>start_region = [], start_page_table = [], heap_start = 0, heap_end = 0\<rparr> s1) }"

text \<open>The page of an entry goes; the flag says that it is under eviction, and the entry is skipped.\<close>

definition drop_page :: "page_table_entry \<Rightarrow> vmsys \<Rightarrow> (bool \<times> vmsys) option" where
  "drop_page e s = (case vstate e of
     Swapped \<Rightarrow> do { d \<leftarrow> diskpage_location e; s1 \<leftarrow> unmark_swap_bitmap d s; Some (False, s1) }
   | Mapped \<Rightarrow> do { p \<leftarrow> as_ppage e; (err, h) \<leftarrow> release_physical_page p (kh s); Some (err \<noteq> 0, s\<lparr>kh := h\<rparr>) }
   | Unmapped \<Rightarrow> Some (False, s))"

fun destroy_ptes :: "page_table_entry list \<Rightarrow> vmsys \<Rightarrow> vmsys option" where
  "destroy_ptes [] s = Some s"
| "destroy_ptes (e # es) s = do {
     _ \<leftarrow> kassert (\<not> pte_freed e);
     (skip, s1) \<leftarrow> drop_page e s;
     if skip then destroy_ptes es s1
     else do {
       s2 \<leftarrow> lock_destroy (pte_lock e) s1;
       s3 \<leftarrow> obj_free (pte_addr e) s2;
       destroy_ptes es s3 } }"

fun free_regions :: "region list \<Rightarrow> vmsys \<Rightarrow> vmsys option" where
  "free_regions [] s = Some s"
| "free_regions (r # rs) s = do { s1 \<leftarrow> obj_free (rg_addr r) s; free_regions rs s1 }"

definition as_destroy :: "vaddr \<Rightarrow> vmsys \<Rightarrow> vmsys option" where
  "as_destroy a s = do {
     _ \<leftarrow> kassert (a \<noteq> 0);
     sp \<leftarrow> aspaces s a;
     s1 \<leftarrow> destroy_ptes (start_page_table sp) s;
     s2 \<leftarrow> free_regions (start_region sp) s1;
     s3 \<leftarrow> obj_free a s2;
     Some (s3\<lparr>aspaces := (aspaces s3)(a := None)\<rparr>) }"

definition copy_page :: "nat \<Rightarrow> nat \<Rightarrow> vmsys \<Rightarrow> vmsys" where
  "copy_page dst src s = s\<lparr>kh := (kh s)\<lparr>ram := (\<lambda>x. if dst \<le> x \<and> x < dst + PAGE_SIZE
     then ram (kh s) (src + (x - dst)) else ram (kh s) x)\<rparr>\<rparr>"

text \<open>The contents of an entry's page go to the frame at \<open>pg\<close>.\<close>

definition fill_page :: "nat \<Rightarrow> page_table_entry \<Rightarrow> vmsys \<Rightarrow> vmsys option" where
  "fill_page pg old s = (if vstate old = Swapped then do {
       d \<leftarrow> diskpage_location old;
       (r, s1) \<leftarrow> read_swap_disk pg d False s;
       _ \<leftarrow> kassert (r = Inr ());
       Some s1 }
     else do { src \<leftarrow> as_ppage old; Some (copy_page pg src s) })"

fun copy_ptes :: "vaddr \<Rightarrow> page_table_entry list \<Rightarrow> vmsys \<Rightarrow> ((errno + unit) \<times> vmsys) option" where
  "copy_ptes newas [] s = Some (Inr (), s)"
| "copy_ptes newas (old # es) s = do {
     _ \<leftarrow> kassert (\<not> pte_freed old);
     (p, s1) \<leftarrow> obj_alloc 28 s;
     if p = 0 then do { s2 \<leftarrow> as_destroy newas s1; Some (Inl ENOMEM, s2) }
     else do {
       (lk, s2) \<leftarrow> lock_create ''pte_lock'' s1;
       (case lk of
          None \<Rightarrow> do { s3 \<leftarrow> obj_free p s2; s4 \<leftarrow> as_destroy newas s3; Some (Inl ENOMEM, s4) }
        | Some l \<Rightarrow> do {
            (pg, h) \<leftarrow> allocate_user_page 1 (unat newas) (as_vpage old) True (kh s2);
            let s3 = s2\<lparr>kh := h\<rparr>;
            if pg = 0 then do { s4 \<leftarrow> lock_destroy l s3; s5 \<leftarrow> as_destroy newas s4; Some (Inl ENOMEM, s5) }
            else do {
              s4 \<leftarrow> fill_page pg old s3;
              sp \<leftarrow> aspaces s4 newas;
              let new = \<lparr>pte_addr = p, as_vpage = as_vpage old, as_ppage = Some pg, vpage_permission = vpage_permission old,
                         vstate = Mapped, diskpage_location = None, pte_lock = l, pte_freed = False\<rparr>;
              copy_ptes newas es (set_as newas (sp\<lparr>start_page_table := start_page_table sp @ [new]\<rparr>) s4) } }) } }"

fun copy_regions :: "vaddr \<Rightarrow> region list \<Rightarrow> vmsys \<Rightarrow> ((errno + unit) \<times> vmsys) option" where
  "copy_regions newas [] s = Some (Inr (), s)"
| "copy_regions newas (old # rs) s = do {
     (p, s1) \<leftarrow> obj_alloc 20 s;
     if p = 0 then do { s2 \<leftarrow> as_destroy newas s1; Some (Inl ENOMEM, s2) }
     else do {
       sp \<leftarrow> aspaces s1 newas;
       copy_regions newas rs (set_as newas (sp\<lparr>start_region := start_region sp @ [old\<lparr>rg_addr := p\<rparr>]\<rparr>) s1) } }"

definition as_copy :: "vaddr \<Rightarrow> vmsys \<Rightarrow> ((errno + vaddr) \<times> vmsys) option" where
  "as_copy old s = do {
     (newas, s1) \<leftarrow> as_create s;
     if newas = 0 then Some (Inl ENOMEM, s1)
     else do {
       osp \<leftarrow> aspaces s1 old;
       (r, s2) \<leftarrow> copy_ptes newas (start_page_table osp) s1;
       (case r of
          Inl e \<Rightarrow> Some (Inl e, s2)
        | Inr _ \<Rightarrow> do {
            (r', s3) \<leftarrow> copy_regions newas (start_region osp) s2;
            (case r' of
               Inl e \<Rightarrow> Some (Inl e, s3)
             | Inr _ \<Rightarrow> do {
                 nsp \<leftarrow> aspaces s3 newas;
                 Some (Inr newas, set_as newas (nsp\<lparr>heap_start := heap_start osp, heap_end := heap_end osp\<rparr>) s3) }) }) } }"

definition as_define_region ::
  "vaddr \<Rightarrow> vaddr \<Rightarrow> u32 \<Rightarrow> u32 \<Rightarrow> u32 \<Rightarrow> u32 \<Rightarrow> vmsys \<Rightarrow> ((errno + unit) \<times> vmsys) option" where
  "as_define_region a vaddr memsize readable writeable executable s = do {
     _ \<leftarrow> kassert (a \<noteq> 0);
     let va = vaddr AND PAGE_FRAME;
     let sz = (memsize + (va AND NOT PAGE_FRAME) + 4096 - 1) AND PAGE_FRAME;
     (p, s1) \<leftarrow> obj_alloc 20 s;
     if p = 0 then Some (Inl ENOMEM, s1)
     else do {
       sp \<leftarrow> aspaces s1 a;
       let r = \<lparr>rg_addr = p, rg_start = va, rg_size = sz, rg_npages = sz div 4096, rg_read = (readable AND 4 \<noteq> 0),
                rg_write = (writeable AND 2 \<noteq> 0), rg_execute = (executable AND 1 \<noteq> 0)\<rparr>;
       Some (Inr (), set_as a (sp\<lparr>start_region := start_region sp @ [r]\<rparr>) s1) } }"

fun regions_end :: "region list \<Rightarrow> vaddr \<Rightarrow> vaddr" where
  "regions_end [] h = h"
| "regions_end (r # rs) h = (
     let e = rg_start r + rg_size r in regions_end rs (if h < e then e else h))"

definition as_prepare_load :: "vaddr \<Rightarrow> vmsys \<Rightarrow> vmsys option" where
  "as_prepare_load a s = do {
     _ \<leftarrow> kassert (a \<noteq> 0);
     sp \<leftarrow> aspaces s a;
     let hs = (regions_end (start_region sp) 0 + 4096 - 1) AND PAGE_FRAME;
     _ \<leftarrow> kassert (unat hs mod PAGE_SIZE = 0);
     Some (set_as a (sp\<lparr>heap_start := hs, heap_end := hs\<rparr>) s) }"

definition as_complete_load :: "vaddr \<Rightarrow> vmsys \<Rightarrow> vmsys" where
  "as_complete_load a s = s"

definition as_define_stack :: "vaddr \<Rightarrow> vmsys \<Rightarrow> vaddr \<times> vmsys" where
  "as_define_stack a s = (USERSTACK, s)"

section \<open>Page faults\<close>

definition in_region :: "vaddr \<Rightarrow> region \<Rightarrow> bool" where
  "in_region va r \<longleftrightarrow> rg_start r \<le> va \<and> va < rg_start r + rg_size r"

definition valid_address :: "vaddr \<Rightarrow> addrspace \<Rightarrow> bool" where
  "valid_address va sp \<longleftrightarrow>
     (let stackbase = USERSTACK - VM_STACKPAGES * 4096; stacktop = USERSTACK in
      (stackbase \<le> va \<and> va < stacktop) \<or> (heap_start sp \<le> va \<and> va < heap_end sp) \<or> list_ex (in_region va) (start_region sp))"

text \<open>The walk down the page table: the position of the entry for \<open>va\<close>.\<close>

fun find_pte :: "vaddr \<Rightarrow> page_table_entry list \<Rightarrow> nat \<Rightarrow> nat option option" where
  "find_pte va [] i = Some None"
| "find_pte va (e # es) i = do {
     _ \<leftarrow> kassert (\<not> pte_freed e);
     if as_vpage e = va then Some (Some i) else find_pte va es (i + 1) }"

definition put_pte :: "vaddr \<Rightarrow> nat \<Rightarrow> page_table_entry \<Rightarrow> vmsys \<Rightarrow> vmsys option" where
  "put_pte a i e s = do {
     sp \<leftarrow> aspaces s a;
     es \<leftarrow> wr (start_page_table sp) i e;
     Some (set_as a (sp\<lparr>start_page_table := es\<rparr>) s) }"

text \<open>The entry exists: fetch the page from swap if need be.\<close>

definition fault_existing :: "vaddr \<Rightarrow> vaddr \<Rightarrow> nat \<Rightarrow> page_table_entry \<Rightarrow> vmsys \<Rightarrow> ((errno + nat) \<times> vmsys) option" where
  "fault_existing a va i e s = (case vstate e of
     Swapped \<Rightarrow> do {
       (pg, h) \<leftarrow> allocate_user_page 1 (unat a) va False (kh s);
       let s1 = s\<lparr>kh := h\<rparr>;
       if pg = 0 then Some (Inl ENOMEM, s1)
       else do {
         d \<leftarrow> diskpage_location e;
         (r, s2) \<leftarrow> read_swap_disk pg d True s1;
         _ \<leftarrow> kassert (r = Inr ());
         s3 \<leftarrow> put_pte a i (e\<lparr>as_ppage := Some pg, vstate := Mapped\<rparr>) s2;
         Some (Inr pg, s3) } }
   | Mapped \<Rightarrow> do { p \<leftarrow> as_ppage e; Some (Inr p, s) }
   | Unmapped \<Rightarrow> Some (Inr 0, s))"

text \<open>No entry yet: make one and link it in at the end, then allocate its page. When that fails the entry is freed but
  stays linked.\<close>

definition fault_new :: "vaddr \<Rightarrow> vaddr \<Rightarrow> vmsys \<Rightarrow> ((errno + nat) \<times> vmsys) option" where
  "fault_new a va s = do {
     (p, s1) \<leftarrow> obj_alloc 28 s;
     if p = 0 then Some (Inl ENOMEM, s1)
     else do {
       (lk, s2) \<leftarrow> lock_create ''pte_lock'' s1;
       (case lk of
          None \<Rightarrow> do { s3 \<leftarrow> obj_free p s2; Some (Inl ENOMEM, s3) }
        | Some l \<Rightarrow> do {
            sp \<leftarrow> aspaces s2 a;
            let n = length (start_page_table sp);
            let e = \<lparr>pte_addr = p, as_vpage = va, as_ppage = None, vpage_permission = None, vstate = Unmapped,
                     diskpage_location = None, pte_lock = l, pte_freed = False\<rparr>;
            let s3 = set_as a (sp\<lparr>start_page_table := start_page_table sp @ [e]\<rparr>) s2;
            (pg, h) \<leftarrow> allocate_user_page 1 (unat a) va False (kh s3);
            let s4 = s3\<lparr>kh := h\<rparr>;
            if pg = 0 then do {
              s5 \<leftarrow> lock_destroy l s4;
              s6 \<leftarrow> obj_free p s5;
              s7 \<leftarrow> put_pte a n (e\<lparr>pte_freed := True\<rparr>) s6;
              Some (Inl ENOMEM, s7) }
            else do {
              s5 \<leftarrow> put_pte a n (e\<lparr>as_ppage := Some pg, vstate := Mapped\<rparr>) s4;
              Some (Inr pg, s5) } }) } }"

definition set_ref_bit :: "nat \<Rightarrow> vmsys \<Rightarrow> vmsys option" where
  "set_ref_bit pa s = do {
     p \<leftarrow> rd (coremap (kh s)) (pa div PAGE_SIZE);
     cm \<leftarrow> wr (coremap (kh s)) (pa div PAGE_SIZE) (p\<lparr>ref_bit := True\<rparr>);
     Some (s\<lparr>kh := (kh s)\<lparr>coremap := cm\<rparr>\<rparr>) }"

text \<open>The \<^verbatim>\<open>faulttype\<close> argument is ignored by the code. \<open>rnd\<close> is the processor's choice of a TLB slot.\<close>

definition vm_fault :: "nat \<Rightarrow> vaddr \<Rightarrow> vmsys \<Rightarrow> ((errno + unit) \<times> vmsys) option" where
  "vm_fault rnd faultaddress s = (
     let a = cur_as s in
     if a = 0 then Some (Inl EFAULT, s)
     else do {
       sp \<leftarrow> aspaces s a;
       let va = faultaddress AND PAGE_FRAME;
       if \<not> valid_address va sp then Some (Inl EFAULT, s)
       else do {
         pos \<leftarrow> find_pte va (start_page_table sp) 0;
         (r, s1) \<leftarrow> (case pos of
            Some i \<Rightarrow> fault_existing a va i (start_page_table sp ! i) s
          | None \<Rightarrow> fault_new a va s);
         (case r of
            Inl e \<Rightarrow> Some (Inl e, s1)
          | Inr pa \<Rightarrow> do {
              s2 \<leftarrow> tlb_insert rnd va pa s1;
              s3 \<leftarrow> set_ref_bit pa s2;
              Some (Inr (), s3) }) } })"

section \<open>Eviction\<close>

text \<open>The clock hand. The loop ends when a used page without reference bit comes under the hand.\<close>

partial_function (option) clock_hand :: "kheap \<Rightarrow> kheap option" where
  "clock_hand h = do {
     p \<leftarrow> rd (coremap h) (eviction_pointer h);
     if state p = Used \<and> \<not> ref_bit p then Some h
     else do {
       cm \<leftarrow> (if state p = Used then wr (coremap h) (eviction_pointer h) (p\<lparr>ref_bit := False\<rparr>) else Some (coremap h));
       clock_hand (h\<lparr>coremap := cm, eviction_pointer := (eviction_pointer h + 1) mod (memory_end h div PAGE_SIZE)\<rparr>) } }"

definition evict_page :: "vmsys \<Rightarrow> (nat \<times> vmsys) option" where
  "evict_page s = do {
     h \<leftarrow> clock_hand (kh s);
     let i = eviction_pointer h;
     p \<leftarrow> rd (coremap h) i;
     _ \<leftarrow> kassert (state p = Used);
     a \<leftarrow> owner_addrspace p;
     let va = owner_vaddr p;
     let pa = i * PAGE_SIZE;
     cm \<leftarrow> wr (coremap h) i (p\<lparr>state := In_eviction\<rparr>);
     let s1 = s\<lparr>kh := h\<lparr>coremap := cm, eviction_pointer := (i + 1) mod (memory_end h div PAGE_SIZE)\<rparr>\<rparr>;
     sp \<leftarrow> aspaces s1 (of_nat a);
     pos \<leftarrow> find_pte va (start_page_table sp) 0;
     k \<leftarrow> pos;
     let e = start_page_table sp ! k;
     _ \<leftarrow> kassert (as_ppage e = Some pa);
     _ \<leftarrow> kassert (vstate e = Mapped);
     s2 \<leftarrow> tlb_invalidate_entry va s1;
     (r, s3) \<leftarrow> write_swap_disk pa s2;
     (case r of
        Inl e \<Rightarrow> None
      | Inr d \<Rightarrow> do {
          s4 \<leftarrow> put_pte (of_nat a) k (e\<lparr>diskpage_location := Some d, vstate := Swapped\<rparr>) s3;
          Some (pa, s4) }) }"

section \<open>sbrk\<close>

text \<open>The page of an entry goes, and its translation with it. A page under eviction makes the loop of the code spin for ever.\<close>

definition release_pte :: "vaddr \<Rightarrow> page_table_entry \<Rightarrow> vmsys \<Rightarrow> vmsys option" where
  "release_pte va e s = (if vstate e = Swapped then do { d \<leftarrow> diskpage_location e; unmark_swap_bitmap d s }
     else do {
       p \<leftarrow> as_ppage e;
       (err, h) \<leftarrow> release_physical_page p (kh s);
       _ \<leftarrow> kassert (err = 0);
       tlb_invalidate_entry va (s\<lparr>kh := h\<rparr>) })"

text \<open>One page of a shrinking heap.\<close>

definition sbrk_remove :: "vaddr \<Rightarrow> vaddr \<Rightarrow> vmsys \<Rightarrow> vmsys option" where
  "sbrk_remove a va s = do {
     sp \<leftarrow> aspaces s a;
     pos \<leftarrow> find_pte va (start_page_table sp) 0;
     (case pos of
        None \<Rightarrow> Some s
      | Some i \<Rightarrow> do {
          let e = start_page_table sp ! i;
          s1 \<leftarrow> release_pte va e s;
          let s2 = set_as a (sp\<lparr>start_page_table := take i (start_page_table sp) @ drop (i + 1) (start_page_table sp)\<rparr>) s1;
          s3 \<leftarrow> lock_destroy (pte_lock e) s2;
          obj_free (pte_addr e) s3 }) }"

fun sbrk_loop :: "vaddr \<Rightarrow> vaddr \<Rightarrow> nat \<Rightarrow> nat \<Rightarrow> vmsys \<Rightarrow> vmsys option" where
  "sbrk_loop a old_end i 0 s = Some s"
| "sbrk_loop a old_end i (Suc n) s = do {
     s1 \<leftarrow> sbrk_remove a (old_end - (of_nat i + 1) * 4096) s;
     sbrk_loop a old_end (i + 1) n s1 }"

definition sys_sbrk :: "u32 \<Rightarrow> vmsys \<Rightarrow> ((errno + vaddr) \<times> vmsys) option" where
  "sys_sbrk increment s = do {
     let a = cur_as s;
     _ \<leftarrow> kassert (a \<noteq> 0);
     sp \<leftarrow> aspaces s a;
     let old_end = heap_end sp;
     let inc = sint increment;
     let new_end = old_end + increment;
     if increment = 0 then Some (Inr old_end, s)
     else if (0 < inc \<and> sint new_end < sint old_end) \<or> (inc < 0 \<and> sint new_end < sint (heap_start sp))
       then Some (Inl (if 0 < inc then ENOMEM else EINVAL), s)
     else if 0 < inc \<and> sint (USERSTACK - VM_STACKPAGES * 4096) \<le> sint new_end then Some (Inl ENOMEM, s)
     else if inc mod 4096 \<noteq> 0 then Some (Inl EINVAL, s)
     else if 0 < inc then Some (Inr old_end, set_as a (sp\<lparr>heap_end := new_end\<rparr>) s)
     else do {
       s1 \<leftarrow> sbrk_loop a old_end 0 (nat (- inc div 4096)) s;
       sp1 \<leftarrow> aspaces s1 a;
       Some (Inr old_end, set_as a (sp1\<lparr>heap_end := new_end\<rparr>) s1) } }"

end
