(* ===== verification/Vmsys.thy ===== *)
theory Vmsys
  imports Addrspace
begin

text \<open>
  The virtual memory system as a whole: what it means for a set of address spaces to be consistent with the kernel
  heap, the coremap, the TLB and the swap map, and that every operation of \<open>Addrspace\<close> keeps them so.
\<close>

section \<open>The invariant\<close>

definition pte_plain :: "page_table_entry \<Rightarrow> vaddr list" where
  "pte_plain e = [pte_addr e, lk_addr (pte_lock e), lk_name (pte_lock e)]"

abbreviation pte_wchan :: "page_table_entry \<Rightarrow> vaddr" where
  "pte_wchan e \<equiv> lk_wchan (pte_lock e)"

definition pte_blocks :: "page_table_entry \<Rightarrow> vaddr list" where
  "pte_blocks e = pte_plain e @ [pte_wchan e]"

definition as_plain :: "vaddr \<Rightarrow> addrspace \<Rightarrow> vaddr list" where
  "as_plain a sp = a # map rg_addr (start_region sp) @ concat (map pte_plain (start_page_table sp))"

definition as_wchans :: "addrspace \<Rightarrow> vaddr list" where
  "as_wchans sp = map pte_wchan (start_page_table sp)"

text \<open>The frame behind a mapped entry is a used page that names the entry as its owner; a swapped entry owns a block of
  the swap disk.\<close>

definition swap_used :: "vmsys \<Rightarrow> nat set" where
  "swap_used s = (case swap_bitmap s of None \<Rightarrow> {} | Some b \<Rightarrow> bitmap_used b)"

definition owns_frame :: "coremap_page list \<Rightarrow> vaddr \<Rightarrow> vaddr \<Rightarrow> nat \<Rightarrow> bool" where
  "owns_frame cm a va i \<longleftrightarrow> i < length cm \<and> state (cm ! i) = Used \<and> owner_addrspace (cm ! i) = Some (unat a)
     \<and> owner_vaddr (cm ! i) = va"

definition pte_ok :: "vmsys \<Rightarrow> vaddr \<Rightarrow> page_table_entry \<Rightarrow> bool" where
  "pte_ok s a e \<longleftrightarrow> \<not> pte_freed e \<and> as_vpage e < MIPS_KSEG0 \<and> as_vpage e AND PAGE_FRAME = as_vpage e
     \<and> vstate e \<noteq> Unmapped
     \<and> (vstate e = Mapped \<longrightarrow> (\<exists>i. as_ppage e = Some (i * PAGE_SIZE) \<and> owns_frame (coremap (kh s)) a (as_vpage e) i))
     \<and> (vstate e = Swapped \<longrightarrow> (\<exists>d\<in>swap_used s. diskpage_location e = Some d))"

definition ptes_ok :: "vmsys \<Rightarrow> vaddr \<Rightarrow> page_table_entry list \<Rightarrow> bool" where
  "ptes_ok s a es \<longleftrightarrow> distinct (map as_vpage es) \<and> (\<forall>e\<in>set es. pte_ok s a e)"

definition blocks_ok :: "vmsys \<Rightarrow> vaddr list \<Rightarrow> vaddr list \<Rightarrow> bool" where
  "blocks_ok s ps ws \<longleftrightarrow> distinct (ps @ ws) \<and> set ps \<subseteq> lv s - set (wchans s) \<and> set ws \<subseteq> set (wchans s)"

definition as_ok :: "vmsys \<Rightarrow> vaddr \<Rightarrow> addrspace \<Rightarrow> bool" where
  "as_ok s a sp \<longleftrightarrow> blocks_ok s (as_plain a sp) (as_wchans sp) \<and> ptes_ok s a (start_page_table sp)"

definition as_frames :: "page_table_entry list \<Rightarrow> nat set" where
  "as_frames es = {i. \<exists>e\<in>set es. vstate e = Mapped \<and> as_ppage e = Some (i * PAGE_SIZE)}"

definition as_disk :: "page_table_entry list \<Rightarrow> nat set" where
  "as_disk es = {d. \<exists>e\<in>set es. vstate e = Swapped \<and> diskpage_location e = Some d}"

text \<open>No block of the swap disk belongs to two entries.\<close>

definition disk_apart :: "(vaddr \<Rightarrow> addrspace option) \<Rightarrow> bool" where
  "disk_apart M \<longleftrightarrow> (\<forall>a b sp sp' e e'. M a = Some sp \<longrightarrow> M b = Some sp' \<longrightarrow> e \<in> set (start_page_table sp) \<longrightarrow>
     e' \<in> set (start_page_table sp') \<longrightarrow> vstate e = Swapped \<longrightarrow> vstate e' = Swapped \<longrightarrow>
     diskpage_location e = diskpage_location e' \<longrightarrow> a = b \<and> as_vpage e = as_vpage e')"

text \<open>A TLB slot is either invalid or holds a translation of the current address space, and no page is translated twice.\<close>

definition tlb_entry :: "vaddr \<Rightarrow> nat \<Rightarrow> u32 \<times> u32" where
  "tlb_entry va pa = (va, of_nat pa OR TLBLO_DIRTY OR TLBLO_VALID)"

definition maps_to :: "addrspace \<Rightarrow> vaddr \<Rightarrow> nat \<Rightarrow> bool" where
  "maps_to sp va pa \<longleftrightarrow> (\<exists>e\<in>set (start_page_table sp). vstate e = Mapped \<and> as_vpage e = va \<and> as_ppage e = Some pa)"

definition tlb_ok :: "(vaddr \<Rightarrow> addrspace option) \<Rightarrow> vmsys \<Rightarrow> bool" where
  "tlb_ok M s \<longleftrightarrow> length (tlb s) = NUM_TLB \<and> (cur_as s \<noteq> 0 \<longrightarrow> (\<exists>sp. M (cur_as s) = Some sp
     \<and> (\<forall>j<NUM_TLB. tlb s ! j = (TLBHI_INVALID j, 0) \<or> (\<exists>va pa. maps_to sp va pa \<and> tlb s ! j = tlb_entry va pa))
     \<and> distinct (map fst (tlb s))))"

text \<open>The spaces of \<open>M\<close> are consistent with the rest of the state. Used pages are mapped, except those in \<open>X\<close>, which an
  operation has taken but not yet entered (or taken out but not yet released).\<close>

definition vmok :: "(vaddr \<Rightarrow> addrspace option) \<Rightarrow> nat set \<Rightarrow> vmsys \<Rightarrow> bool" where
  "vmok M X s \<longleftrightarrow> kobj_ok s
     \<and> (\<forall>a sp. M a = Some sp \<longrightarrow> as_ok s a sp)
     \<and> (\<forall>a b sp sp'. M a = Some sp \<longrightarrow> M b = Some sp' \<longrightarrow> a \<noteq> b \<longrightarrow>
          set (as_plain a sp @ as_wchans sp) \<inter> set (as_plain b sp' @ as_wchans sp') = {})
     \<and> (\<forall>i<length (coremap (kh s)). state (coremap (kh s) ! i) = Used \<longrightarrow> i \<notin> X \<longrightarrow>
          (\<exists>a sp. M a = Some sp \<and> i \<in> as_frames (start_page_table sp)))
     \<and> tlb_ok M s \<and> disk_apart M \<and> (\<forall>b. swap_bitmap s = Some b \<longrightarrow> bitmap_ok b \<and> nbits b \<le> 1048576)
     \<and> set (swap_io s) \<subseteq> {None}"

abbreviation vm_ok :: "vmsys \<Rightarrow> bool" where
  "vm_ok s \<equiv> vmok (aspaces s) {} s"

lemma pte_ok_cong:
  assumes "coremap (kh s') = coremap (kh s)" "swap_bitmap s' = swap_bitmap s"
  shows "pte_ok s' = pte_ok s"
  using assms by (simp add: pte_ok_def swap_used_def fun_eq_iff)

lemma as_ok_cong:
  assumes "coremap (kh s') = coremap (kh s)" "swap_bitmap s' = swap_bitmap s" "lv s' = lv s" "wchans s' = wchans s"
  shows "as_ok s' = as_ok s"
  using assms pte_ok_cong [OF assms(1,2)] by (simp add: as_ok_def blocks_ok_def ptes_ok_def fun_eq_iff)

lemma vmok_aspaces [simp]: "vmok M X (s\<lparr>aspaces := f\<rparr>) = vmok M X s"
proof -
  have "as_ok (s\<lparr>aspaces := f\<rparr>) = as_ok s" by (rule as_ok_cong) (simp_all add: wchans_def)
  moreover have "kobj_ok (s\<lparr>aspaces := f\<rparr>) = kobj_ok s" by (simp add: kobj_ok_def wchans_def)
  ultimately show ?thesis by (simp add: vmok_def tlb_ok_def)
qed

lemma vmokD:
  assumes "vmok M X s"
  shows "kobj_ok s" "\<And>a sp. M a = Some sp \<Longrightarrow> as_ok s a sp" "tlb_ok M s" "disk_apart M" "set (swap_io s) \<subseteq> {None}"
    "\<And>b. swap_bitmap s = Some b \<Longrightarrow> bitmap_ok b" "\<And>b. swap_bitmap s = Some b \<Longrightarrow> nbits b \<le> 1048576"
    "\<And>a b sp sp'. M a = Some sp \<Longrightarrow> M b = Some sp' \<Longrightarrow> a \<noteq> b \<Longrightarrow>
      set (as_plain a sp @ as_wchans sp) \<inter> set (as_plain b sp' @ as_wchans sp') = {}"
    "\<And>i. i < length (coremap (kh s)) \<Longrightarrow> state (coremap (kh s) ! i) = Used \<Longrightarrow> i \<notin> X \<Longrightarrow>
      \<exists>a sp. M a = Some sp \<and> i \<in> as_frames (start_page_table sp)"
  using assms by (simp_all add: vmok_def)

lemma vmok_heap:
  assumes "vmok M X s"
  shows "heap_ok (kh s)" "heap_inv (kh s)" "coremap_ok (kh s)"
  using vmokD(1) [OF assms] heap_ok_inv heap_inv_cm(1) by (auto simp: kobj_ok_def)

text \<open>A frame has one owner.\<close>

lemma owns_frame_inj:
  "owns_frame cm a va i \<Longrightarrow> owns_frame cm b vb i \<Longrightarrow> a = b \<and> va = vb"
  by (auto simp: owns_frame_def intro: unsigned_word_eqI)

section \<open>Steps of the kernel heap\<close>

lemma kstep_more:
  fixes s s' :: vmsys
  assumes "kstep s s'"
  shows "aspaces s' = aspaces s" "cur_as s' = cur_as s" "tlb s' = tlb s" "swap_bitmap s' = swap_bitmap s"
    "swap_data s' = swap_data s" "swap_io s' = swap_io s"
  using assms by (cases s; cases s'; simp add: kstep_def)+

lemma kframe_used:
  assumes "kframe h h'"
  shows "length (coremap h') = length (coremap h)"
    "i < length (coremap h) \<Longrightarrow> state (coremap h' ! i) = Used \<longleftrightarrow> state (coremap h ! i) = Used"
    "i < length (coremap h) \<Longrightarrow> state (coremap h ! i) = Used \<Longrightarrow> coremap h' ! i = coremap h ! i"
    "owns_frame (coremap h') = owns_frame (coremap h)"
proof -
  show len: "length (coremap h') = length (coremap h)" using assms by (simp add: kframe_def)
  have eq: "coremap h' ! i = coremap h ! i" if "i < length (coremap h)" "state (coremap h ! i) = Used \<or> state (coremap h' ! i) = Used" for i
    using assms that unfolding kframe_def user_page_def by metis
  show "i < length (coremap h) \<Longrightarrow> state (coremap h' ! i) = Used \<longleftrightarrow> state (coremap h ! i) = Used"
    "i < length (coremap h) \<Longrightarrow> state (coremap h ! i) = Used \<Longrightarrow> coremap h' ! i = coremap h ! i"
    using eq [of i] by auto
  show "owns_frame (coremap h') = owns_frame (coremap h)"
    unfolding owns_frame_def len fun_eq_iff using eq by metis
qed

lemma kframe_user:
  assumes "kframe h h'" "i < length (coremap h)" "user_page (coremap h ! i)"
  shows "coremap h' ! i = coremap h ! i"
  using assms unfolding kframe_def by blast

lemma vmok_kstep:
  assumes ok: "vmok M X s" and st: "kstep s s'"
    and bl: "\<And>a sp. M a = Some sp \<Longrightarrow> set (as_plain a sp) \<subseteq> lv s' - set (wchans s') \<and> set (as_wchans sp) \<subseteq> set (wchans s')"
  shows "vmok M X s'"
proof -
  note mo = kstep_more [OF st]
  have fr: "kframe (kh s) (kh s')" and k: "kobj_ok s'" using st by (auto simp: kstep_def)
  note ku = kframe_used [OF fr]
  have "pte_ok s' = pte_ok s" using mo(4) ku(4) by (simp add: pte_ok_def swap_used_def fun_eq_iff)
  then have as: "as_ok s' a sp" if "M a = Some sp" for a sp
    using vmokD(2) [OF ok that] bl [OF that] by (simp add: as_ok_def blocks_ok_def ptes_ok_def)
  have "tlb_ok M s'" using vmokD(3) [OF ok] mo by (simp add: tlb_ok_def)
  moreover have "\<exists>a sp. M a = Some sp \<and> i \<in> as_frames (start_page_table sp)"
    if "i < length (coremap (kh s'))" "state (coremap (kh s') ! i) = Used" "i \<notin> X" for i
    using vmokD(9) [OF ok] that ku(1,2) by simp
  ultimately show ?thesis using k as ok mo unfolding vmok_def by simp
qed

text \<open>Blocks that no space owns may come and go.\<close>

definition unowned :: "(vaddr \<Rightarrow> addrspace option) \<Rightarrow> vaddr set \<Rightarrow> bool" where
  "unowned M A \<longleftrightarrow> (\<forall>a sp. M a = Some sp \<longrightarrow> A \<inter> set (as_plain a sp @ as_wchans sp) = {})"

lemma fresh_unowned:
  assumes "vmok M X s" "A \<inter> lv s = {}"
  shows "unowned M A"
  unfolding unowned_def
proof (intro allI impI)
  fix a sp assume "M a = Some sp"
  then have "as_ok s a sp" by (rule vmokD(2) [OF assms(1)])
  moreover have "set (wchans s) \<subseteq> lv s" using vmokD(1) [OF assms(1)] by (simp add: kobj_ok_def)
  ultimately show "A \<inter> set (as_plain a sp @ as_wchans sp) = {}" using assms(2) by (auto simp: as_ok_def blocks_ok_def)
qed

lemma vmok_kalloc:
  assumes ok: "vmok M X s" and st: "kstep s s'" and lv: "lv s' = A \<union> lv s" "A \<inter> lv s = {}"
    and w: "set (wchans s') = W \<union> set (wchans s)" "W \<subseteq> A"
  shows "vmok M X s'"
proof (rule vmok_kstep [OF ok st])
  fix a sp assume "M a = Some sp"
  then have "as_ok s a sp" by (rule vmokD(2) [OF ok])
  moreover have "set (wchans s) \<subseteq> lv s" using vmokD(1) [OF ok] by (simp add: kobj_ok_def)
  ultimately show "set (as_plain a sp) \<subseteq> lv s' - set (wchans s') \<and> set (as_wchans sp) \<subseteq> set (wchans s')"
    using lv w by (auto simp: as_ok_def blocks_ok_def)
qed

lemma vmok_kfree:
  assumes ok: "vmok M X s" and st: "kstep s s'" and lv: "lv s' = lv s - A" "unowned M A"
    and w: "set (wchans s') = set (wchans s) - W" "W \<subseteq> A"
  shows "vmok M X s'"
proof (rule vmok_kstep [OF ok st])
  fix a sp assume a: "M a = Some sp"
  have "as_ok s a sp" by (rule vmokD(2) [OF ok a])
  moreover have "A \<inter> set (as_plain a sp @ as_wchans sp) = {}" using lv(2) a by (simp add: unowned_def)
  ultimately show "set (as_plain a sp) \<subseteq> lv s' - set (wchans s') \<and> set (as_wchans sp) \<subseteq> set (wchans s')"
    using lv w by (auto simp: as_ok_def blocks_ok_def)
qed

section \<open>Changes to user pages\<close>

text \<open>A change of the machine state that leaves the kernel's pages and the heap's own variables alone.\<close>

definition uchange :: "kheap \<Rightarrow> kheap \<Rightarrow> bool" where
  "uchange h h' \<longleftrightarrow> coremap_ok h' \<and> memory_start h' = memory_start h \<and> memory_end h' = memory_end h
     \<and> length (coremap h') = length (coremap h) \<and> vm.more h' = vm.more h
     \<and> (\<forall>i<length (coremap h). state (coremap h ! i) = Fixed \<longrightarrow> coremap h' ! i = coremap h ! i
          \<and> (\<forall>x. i * PAGE_SIZE \<le> x \<and> x < i * PAGE_SIZE + PAGE_SIZE \<longrightarrow> ram h' x = ram h x))"

lemma uchange_heap:
  assumes ok: "heap_ok h" and u: "uchange h h'"
  shows "heap_ok h'" "live_addrs h' = live_addrs h" "roots_room h' = roots_room h"
proof -
  have m: "kheaproots h' = kheaproots h" "prs h' = prs h" "sizebases h' = sizebases h" "allbase h' = allbase h"
    using u by (cases h; cases h'; simp add: uchange_def)+
  have kp: "kpage_ok h' g" "\<And>x. g * PAGE_SIZE \<le> x \<Longrightarrow> x < g * PAGE_SIZE + PAGE_SIZE \<Longrightarrow> ram h' x = ram h x"
    if "g \<in> own_pages h" for g
    using heap_inv_own [OF heap_ok_inv [OF ok] that] u by (auto simp: uchange_def kpage_ok_def)
  have "coremap_ok h'" using u by (simp add: uchange_def)
  note fr = heap_inv_frame [OF heap_ok_inv [OF ok] this m kp]
  show "heap_ok h'" using fr(1) ok m by (simp add: heap_ok_def)
  show "live_addrs h' = live_addrs h" using fr(2) by (simp add: live_addrs_def)
  show "roots_room h' = roots_room h" using m by (simp add: roots_room_def)
qed

lemma uchange_kobj:
  assumes ok: "kobj_ok s" and u: "uchange (kh s) h'"
  shows "kobj_ok (s\<lparr>kh := h'\<rparr>)" "lv (s\<lparr>kh := h'\<rparr>) = lv s" "kroom (s\<lparr>kh := h'\<rparr>) = kroom s"
proof -
  have "heap_ok (kh s)" using ok by (simp add: kobj_ok_def)
  note h = uchange_heap [OF this u]
  then show "kobj_ok (s\<lparr>kh := h'\<rparr>)" "lv (s\<lparr>kh := h'\<rparr>) = lv s" "kroom (s\<lparr>kh := h'\<rparr>) = kroom s"
    using ok by (simp_all add: kobj_ok_def)
qed

text \<open>What a change does to the ownership of frames decides whether the spaces stay consistent.\<close>

lemma vmok_uchange:
  assumes ok: "vmok M X s" and u: "uchange (kh s) h'"
    and fr: "\<And>a sp i e. M a = Some sp \<Longrightarrow> e \<in> set (start_page_table sp) \<Longrightarrow> vstate e = Mapped \<Longrightarrow>
      owns_frame (coremap (kh s)) a (as_vpage e) i \<Longrightarrow> as_ppage e = Some (i * PAGE_SIZE) \<Longrightarrow> owns_frame (coremap h') a (as_vpage e) i"
    and used: "\<And>i. i < length (coremap (kh s)) \<Longrightarrow> state (coremap h' ! i) = Used \<Longrightarrow> i \<notin> X' \<Longrightarrow>
      state (coremap (kh s) ! i) = Used \<and> i \<notin> X"
  shows "vmok M X' (s\<lparr>kh := h'\<rparr>)"
proof -
  let ?s = "s\<lparr>kh := h'\<rparr>"
  note k = uchange_kobj [OF vmokD(1) [OF ok] u]
  have "as_ok ?s a sp" if M: "M a = Some sp" for a sp
  proof -
    have a: "as_ok s a sp" by (rule vmokD(2) [OF ok M])
    have "pte_ok ?s a e" if "e \<in> set (start_page_table sp)" for e
    proof -
      have e: "pte_ok s a e" using a that by (simp add: as_ok_def ptes_ok_def)
      then show ?thesis using fr [OF M that] by (fastforce simp: pte_ok_def swap_used_def)
    qed
    then show ?thesis using a k(2) by (simp add: as_ok_def blocks_ok_def ptes_ok_def)
  qed
  moreover have "length (coremap h') = length (coremap (kh s))" using u by (simp add: uchange_def)
  ultimately show ?thesis using ok k(1) used unfolding vmok_def tlb_ok_def by simp
qed

lemma same_page:
  fixes i b x :: nat
  assumes "i * PAGE_SIZE \<le> x" "x < i * PAGE_SIZE + PAGE_SIZE" "b * PAGE_SIZE \<le> x" "x < b * PAGE_SIZE + PAGE_SIZE"
  shows "i = b"
  using assms by auto

lemma uchange_upage_taken:
  assumes "coremap_ok h" "first_page h \<le> b" "b < length (coremap h)" "state (coremap h ! b) = Free"
  shows "uchange h (upage_taken b a va c h)"
proof -
  have "b \<noteq> i" if "state (coremap h ! i) = Fixed" for i using that assms(4) by auto
  then show ?thesis using upage_taken_ok [OF assms, of a va c]
    by (auto simp: uchange_def bzero_words_def dest: same_page)
qed

lemma uchange_page_freed:
  assumes "coremap_ok h" "b < length (coremap h)" "state (coremap h ! b) = Used"
  shows "uchange h (kpages_freed b 1 h)"
  using release_used_ok [OF assms] assms(3)
  by (auto simp: uchange_def nth_unclaim kpages_freed_def less_Suc_eq_le)

lemma uchange_ram:
  assumes "coremap_ok h" "b < length (coremap h)" "state (coremap h ! b) \<noteq> Fixed"
    and "\<And>x. x < b * PAGE_SIZE \<or> b * PAGE_SIZE + PAGE_SIZE \<le> x \<Longrightarrow> m x = ram h x"
  shows "uchange h (h\<lparr>ram := m\<rparr>)"
proof -
  have "m x = ram h x" if "i < length (coremap h)" "state (coremap h ! i) = Fixed" "i * PAGE_SIZE \<le> x" "x < i * PAGE_SIZE + PAGE_SIZE" for i x
  proof -
    have "i \<noteq> b" using that(2) assms(3) by auto
    then show ?thesis using that(3,4) by (intro assms(4)) auto
  qed
  then show ?thesis using assms(1) by (simp add: uchange_def coremap_ok_def)
qed

lemma vmok_take_page:
  assumes ok: "vmok M X s" and b: "first_page (kh s) \<le> b" "b < length (coremap (kh s))" "state (coremap (kh s) ! b) = Free"
  shows "vmok M (insert b X) (s\<lparr>kh := upage_taken b n va c (kh s)\<rparr>)"
proof (rule vmok_uchange [OF ok uchange_upage_taken [OF vmok_heap(3) [OF ok] b]])
  show "owns_frame (coremap (upage_taken b n va c (kh s))) a (as_vpage e) i"
    if "owns_frame (coremap (kh s)) a (as_vpage e) i" for a e i
  proof -
    have "i \<noteq> b" using that b(3) by (auto simp: owns_frame_def)
    then show ?thesis using that by (auto simp: owns_frame_def)
  qed
qed (auto simp: nth_list_update split: if_splits)

definition unmapped :: "(vaddr \<Rightarrow> addrspace option) \<Rightarrow> nat \<Rightarrow> bool" where
  "unmapped M b \<longleftrightarrow> (\<forall>a sp. M a = Some sp \<longrightarrow> b \<notin> as_frames (start_page_table sp))"

lemma vmok_free_page:
  assumes ok: "vmok M X s" and b: "b < length (coremap (kh s))" "state (coremap (kh s) ! b) = Used" "unmapped M b"
  shows "vmok M (X - {b}) (s\<lparr>kh := kpages_freed b 1 (kh s)\<rparr>)"
proof (rule vmok_uchange [OF ok uchange_page_freed [OF vmok_heap(3) [OF ok] b(1,2)]])
  fix a sp i e
  assume "M a = Some sp" "e \<in> set (start_page_table sp)" "vstate e = Mapped" "as_ppage e = Some (i * PAGE_SIZE)"
    and o: "owns_frame (coremap (kh s)) a (as_vpage e) i"
  then have "i \<noteq> b" using b(3) by (auto simp: unmapped_def as_frames_def)
  then show "owns_frame (coremap (kpages_freed b 1 (kh s))) a (as_vpage e) i"
    using o by (auto simp: owns_frame_def kpages_freed_def nth_unclaim)
qed (auto simp: kpages_freed_def nth_unclaim split: if_splits)

lemma vmok_ram:
  assumes ok: "vmok M X s" and b: "b < length (coremap (kh s))" "state (coremap (kh s) ! b) \<noteq> Fixed"
    and "\<And>x. x < b * PAGE_SIZE \<or> b * PAGE_SIZE + PAGE_SIZE \<le> x \<Longrightarrow> m x = ram (kh s) x"
  shows "vmok M X (s\<lparr>kh := (kh s)\<lparr>ram := m\<rparr>\<rparr>)"
  by (rule vmok_uchange [OF ok uchange_ram [OF vmok_heap(3) [OF ok] b assms(4)]]) auto

section \<open>Changes to a space\<close>

lemma vmok_upd_space:
  assumes ok: "vmok M X s" and M: "M a = Some sp" and as: "as_ok s a sp'"
    and own: "set (as_plain a sp' @ as_wchans sp') \<subseteq> set (as_plain a sp @ as_wchans sp) \<union> A" "unowned M A"
    and X: "as_frames (start_page_table sp) \<subseteq> as_frames (start_page_table sp') \<union> X'" "X \<subseteq> as_frames (start_page_table sp') \<union> X'"
    and tlb: "\<And>va pa. a = cur_as s \<Longrightarrow> maps_to sp va pa \<Longrightarrow> va \<in> fst ` set (tlb s) \<Longrightarrow> maps_to sp' va pa"
    and dk: "disk_apart (M(a \<mapsto> sp'))"
  shows "vmok (M(a \<mapsto> sp')) X' s"
proof -
  let ?M = "M(a \<mapsto> sp')"
  have apart: "set (as_plain a sp' @ as_wchans sp') \<inter> set (as_plain b sb @ as_wchans sb) = {}" if "M b = Some sb" "b \<noteq> a" for b sb
    using own vmokD(8) [OF ok M that(1)] that unfolding unowned_def by blast
  have "set (as_plain b sb @ as_wchans sb) \<inter> set (as_plain c sc @ as_wchans sc) = {}"
    if "?M b = Some sb" "?M c = Some sc" "b \<noteq> c" for b c sb sc
  proof (cases "b = a")
    case True
    then show ?thesis using that apart [of c sc] by auto
  next
    case False
    then show ?thesis using that apart [of b sb] vmokD(8) [OF ok, of b sb c sc] by (cases "c = a") auto
  qed
  moreover have "as_ok s b sb" if "?M b = Some sb" for b sb
    using that as vmokD(2) [OF ok] by (cases "b = a") auto
  moreover have "\<exists>c sc. ?M c = Some sc \<and> i \<in> as_frames (start_page_table sc)"
    if "i < length (coremap (kh s))" "state (coremap (kh s) ! i) = Used" "i \<notin> X'" for i
  proof (cases "i \<in> as_frames (start_page_table sp')")
    case False
    then have "i \<notin> X" "i \<notin> as_frames (start_page_table sp)" using X that(3) by auto
    with vmokD(9) [OF ok that(1,2)] obtain c sc where c: "M c = Some sc" "i \<in> as_frames (start_page_table sc)" by auto
    then have "c \<noteq> a" using M \<open>i \<notin> as_frames (start_page_table sp)\<close> by auto
    then show ?thesis using c by auto
  qed auto
  moreover have "tlb_ok ?M s"
  proof (cases "cur_as s = a \<and> a \<noteq> 0")
    case True
    have "maps_to sp' va pa" if "j < NUM_TLB" "length (tlb s) = NUM_TLB" "maps_to sp va pa" "tlb s ! j = tlb_entry va pa" for j va pa
    proof -
      have "tlb s ! j \<in> set (tlb s)" using that(1,2) by simp
      then have "va \<in> fst ` set (tlb s)" using that(4) by (force simp: tlb_entry_def)
      then show ?thesis using tlb that(3) True by simp
    qed
    then show ?thesis using vmokD(3) [OF ok] M True unfolding tlb_ok_def by fastforce
  next
    case False
    then show ?thesis using vmokD(3) [OF ok] by (auto simp: tlb_ok_def)
  qed
  ultimately show ?thesis using ok dk unfolding vmok_def by simp
qed

lemma disk_apart_sub:
  assumes d: "disk_apart M"
    and sub: "\<And>e. e \<in> set (start_page_table sp') \<Longrightarrow> vstate e = Swapped \<Longrightarrow> \<exists>sp. M a = Some sp \<and> e \<in> set (start_page_table sp)"
  shows "disk_apart (M(a \<mapsto> sp'))"
  unfolding disk_apart_def
proof (intro allI impI)
  fix b c sb sc e e'
  assume h: "(M(a \<mapsto> sp')) b = Some sb" "(M(a \<mapsto> sp')) c = Some sc" "e \<in> set (start_page_table sb)" "e' \<in> set (start_page_table sc)"
    "vstate e = Swapped" "vstate e' = Swapped" "diskpage_location e = diskpage_location e'"
  have "\<exists>sp. M b = Some sp \<and> e \<in> set (start_page_table sp)" using h(1,3,5) sub by (cases "b = a") auto
  moreover have "\<exists>sp. M c = Some sp \<and> e' \<in> set (start_page_table sp)" using h(2,4,6) sub by (cases "c = a") auto
  ultimately show "b = c \<and> as_vpage e = as_vpage e'" using d h(5-7) unfolding disk_apart_def by blast
qed

text \<open>A new space has no page and no region; a space that goes leaves its frames behind.\<close>

lemma vmok_new_space:
  assumes ok: "vmok M X s" and M: "M a = None" and a: "a \<in> lv s" "a \<notin> set (wchans s)" "unowned M {a}" "a \<noteq> cur_as s"
  shows "vmok (M(a \<mapsto> \<lparr>start_region = [], start_page_table = [], heap_start = 0, heap_end = 0\<rparr>)) X s"
proof -
  let ?sp = "\<lparr>start_region = [], start_page_table = [], heap_start = 0, heap_end = 0\<rparr>"
  let ?M = "M(a \<mapsto> ?sp)"
  have as: "as_ok s a ?sp" using a by (simp add: as_ok_def blocks_ok_def ptes_ok_def as_plain_def as_wchans_def)
  have ab: "set (as_plain a ?sp @ as_wchans ?sp) = {a}" by (simp add: as_plain_def as_wchans_def)
  have "set (as_plain b sb @ as_wchans sb) \<inter> set (as_plain c sc @ as_wchans sc) = {}"
    if "?M b = Some sb" "?M c = Some sc" "b \<noteq> c" for b c sb sc
  proof (cases "b = a \<or> c = a")
    case True
    then show ?thesis using that ab a(3) unfolding unowned_def by (auto simp del: set_append)
  next
    case False
    then show ?thesis using that vmokD(8) [OF ok, of b sb c sc] by simp
  qed
  moreover have "as_ok s b sb" if "?M b = Some sb" for b sb
    using that as vmokD(2) [OF ok] by (cases "b = a") auto
  moreover have "\<exists>c sc. ?M c = Some sc \<and> i \<in> as_frames (start_page_table sc)"
    if "i < length (coremap (kh s))" "state (coremap (kh s) ! i) = Used" "i \<notin> X" for i
    using vmokD(9) [OF ok that] M by (metis fun_upd_apply option.distinct(1))
  moreover have "tlb_ok ?M s" using vmokD(3) [OF ok] a(4) by (auto simp: tlb_ok_def)
  moreover have "disk_apart ?M" by (rule disk_apart_sub [OF vmokD(4) [OF ok]]) simp
  ultimately show ?thesis using ok unfolding vmok_def by simp
qed

lemma vmok_drop_space:
  assumes ok: "vmok M X s" and M: "M a = Some sp" and cur: "a \<noteq> cur_as s"
  shows "vmok (M(a := None)) (X \<union> as_frames (start_page_table sp)) s"
proof -
  let ?M = "M(a := None)"
  have sub: "M b = Some sb" if "?M b = Some sb" for b sb using that by (cases "b = a") auto
  have "\<exists>c sc. ?M c = Some sc \<and> i \<in> as_frames (start_page_table sc)"
    if i: "i < length (coremap (kh s))" "state (coremap (kh s) ! i) = Used" "i \<notin> X \<union> as_frames (start_page_table sp)" for i
  proof -
    from vmokD(9) [OF ok i(1,2)] i(3) obtain c sc where c: "M c = Some sc" "i \<in> as_frames (start_page_table sc)" by auto
    then have "c \<noteq> a" using M i(3) by auto
    then show ?thesis using c by auto
  qed
  moreover have "tlb_ok ?M s" using vmokD(3) [OF ok] cur by (auto simp: tlb_ok_def)
  moreover have "disk_apart ?M" using vmokD(4) [OF ok] sub unfolding disk_apart_def by blast
  moreover have "as_ok s b sb" if "?M b = Some sb" for b sb by (rule vmokD(2) [OF ok sub [OF that]])
  moreover have "set (as_plain b sb @ as_wchans sb) \<inter> set (as_plain c sc @ as_wchans sc) = {}"
    if "?M b = Some sb" "?M c = Some sc" "b \<noteq> c" for b c sb sc
    by (rule vmokD(8) [OF ok sub [OF that(1)] sub [OF that(2)] that(3)])
  ultimately show ?thesis using ok unfolding vmok_def by simp
qed

section \<open>Contents of user pages\<close>

text \<open>User pages outside \<open>P\<close> stay user pages and keep their contents.\<close>

definition uframe :: "nat set \<Rightarrow> kheap \<Rightarrow> kheap \<Rightarrow> bool" where
  "uframe P h h' \<longleftrightarrow> length (coremap h') = length (coremap h) \<and>
     (\<forall>i<length (coremap h). user_page (coremap h ! i) \<longrightarrow> i \<notin> P \<longrightarrow> user_page (coremap h' ! i)
        \<and> (\<forall>x. i * PAGE_SIZE \<le> x \<and> x < i * PAGE_SIZE + PAGE_SIZE \<longrightarrow> ram h' x = ram h x))"

lemma uframe_refl [simp]: "uframe P h h"
  by (simp add: uframe_def)

lemma uframe_trans:
  assumes "uframe P h h'" "uframe Q h' h''"
  shows "uframe (P \<union> Q) h h''"
  using assms unfolding uframe_def by (metis UnCI)

lemma uframe_kframe: "kframe h h' \<Longrightarrow> uframe P h h'"
  unfolding kframe_def uframe_def by metis

lemma uframe_step:
  assumes "uframe P h h'" "kframe h' h''"
  shows "uframe P h h''"
  using uframe_trans [OF assms(1) uframe_kframe [OF assms(2), of "{}"]] by simp

lemma uframe_taken:
  assumes "b < length (coremap h)" "state (coremap h ! b) = Free"
  shows "uframe {} h (upage_taken b n va c h)"
  unfolding uframe_def
proof (intro conjI allI impI)
  fix i assume i: "i < length (coremap h)" "user_page (coremap h ! i)"
  then have "i \<noteq> b" using assms(2) by (auto simp: user_page_def)
  then show "user_page (coremap (upage_taken b n va c h) ! i)" using i by simp
  fix x assume x: "i * PAGE_SIZE \<le> x \<and> x < i * PAGE_SIZE + PAGE_SIZE"
  then have "\<not> (b * PAGE_SIZE \<le> x \<and> x < b * PAGE_SIZE + PAGE_SIZE)" using \<open>i \<noteq> b\<close> same_page [of i x b] by auto
  then show "ram (upage_taken b n va c h) x = ram h x" by (auto simp: bzero_words_def)
qed simp

lemma uframe_fresh: "uframe P h h' \<Longrightarrow> \<not> user_page (coremap h ! b) \<Longrightarrow> uframe (P - {b}) h h'"
  unfolding uframe_def by blast

lemma uframe_freed: "uframe {b} h (kpages_freed b 1 h)"
  by (auto simp: uframe_def kpages_freed_def nth_unclaim)

lemma uframe_ram:
  assumes "\<And>x. x < b * PAGE_SIZE \<or> b * PAGE_SIZE + PAGE_SIZE \<le> x \<Longrightarrow> m x = ram h x"
  shows "uframe {b} h (h\<lparr>ram := m\<rparr>)"
  unfolding uframe_def
proof (intro conjI allI impI)
  fix i x assume "i \<notin> {b}" "i * PAGE_SIZE \<le> x \<and> x < i * PAGE_SIZE + PAGE_SIZE"
  then show "ram (h\<lparr>ram := m\<rparr>) x = ram h x" using assms [of x] same_page [of i x b] by fastforce
qed simp_all

section \<open>Dismantling\<close>

text \<open>Entries that are no longer part of a space, but whose blocks, frames and disk blocks are still theirs.\<close>

definition disk_inj :: "page_table_entry list \<Rightarrow> bool" where
  "disk_inj es \<longleftrightarrow> (\<forall>e\<in>set es. \<forall>e'\<in>set es. vstate e = Swapped \<longrightarrow> vstate e' = Swapped \<longrightarrow>
     diskpage_location e = diskpage_location e' \<longrightarrow> as_vpage e = as_vpage e')"

lemma disk_inj_sub: "disk_inj es \<Longrightarrow> set es' \<subseteq> set es \<Longrightarrow> disk_inj es'"
  unfolding disk_inj_def by blast

definition detached :: "(vaddr \<Rightarrow> addrspace option) \<Rightarrow> vmsys \<Rightarrow> vaddr \<Rightarrow> page_table_entry list \<Rightarrow> bool" where
  "detached M s a es \<longleftrightarrow> blocks_ok s (concat (map pte_plain es)) (map pte_wchan es)
     \<and> unowned M (set (concat (map pte_blocks es))) \<and> ptes_ok s a es \<and> (\<forall>i\<in>as_frames es. unmapped M i)
     \<and> (\<forall>d\<in>as_disk es. \<forall>b sb. M b = Some sb \<longrightarrow> d \<notin> as_disk (start_page_table sb))
     \<and> disk_inj es"

lemma vmok_unmark:
  assumes ok: "vmok M X s" and b: "swap_bitmap s = Some b" and d: "d \<in> bitmap_used b"
    and free: "\<And>a sp. M a = Some sp \<Longrightarrow> d \<notin> as_disk (start_page_table sp)"
  obtains b' where "unmark_swap_bitmap d s = Some (s\<lparr>swap_bitmap := Some b'\<rparr>)" "bitmap_unmark b d = Some b'"
    "vmok M X (s\<lparr>swap_bitmap := Some b'\<rparr>)" "bitmap_used b' = bitmap_used b - {d}"
proof -
  have bo: "bitmap_ok b" "nbits b \<le> 1048576" using vmokD(6,7) [OF ok b] by simp_all
  have dn: "d < nbits b" using d by (simp add: bitmap_used_def)
  from bm.unmark_ok [OF bo(1) d] obtain b' where
    b': "bitmap_unmark b d = Some b'" "bitmap_ok b'" "nbits b' = nbits b" "bitmap_used b' = bitmap_used b - {d}" by blast
  let ?s = "s\<lparr>swap_bitmap := Some b'\<rparr>"
  have "as_ok ?s a sp" if M: "M a = Some sp" for a sp
  proof -
    have a: "as_ok s a sp" by (rule vmokD(2) [OF ok M])
    have "pte_ok ?s a e" if e: "e \<in> set (start_page_table sp)" for e
    proof -
      have p: "pte_ok s a e" using a e by (simp add: as_ok_def ptes_ok_def)
      have "\<exists>d'\<in>swap_used ?s. diskpage_location e = Some d'" if "vstate e = Swapped"
      proof -
        from p that b obtain d' where "d' \<in> bitmap_used b" "diskpage_location e = Some d'" by (auto simp: pte_ok_def swap_used_def)
        moreover have "d' \<noteq> d" using free [OF M] e that calculation(2) by (auto simp: as_disk_def)
        ultimately show ?thesis using b'(4) by (simp add: swap_used_def)
      qed
      then show ?thesis using p by (simp add: pte_ok_def)
    qed
    then show ?thesis using a by (simp add: as_ok_def blocks_ok_def ptes_ok_def wchans_def)
  qed
  then have "vmok M X ?s" using ok b'(2,3) bo(2) unfolding vmok_def tlb_ok_def kobj_ok_def wchans_def by simp
  moreover have "unmark_swap_bitmap d s = Some ?s"
    using b b'(1) bm.isset_ok [OF bo(1) dn] d by (simp add: unmark_swap_bitmap_def)
  ultimately show thesis using that b'(1,4) by blast
qed

lemma as_frames_Cons:
  "as_frames (e # es) = as_frames [e] \<union> as_frames es" "as_frames (xs @ ys) = as_frames xs \<union> as_frames ys"
  by (auto simp: as_frames_def)

lemma as_disk_Cons:
  "as_disk (e # es) = as_disk [e] \<union> as_disk es" "as_disk (xs @ ys) = as_disk xs \<union> as_disk ys"
  by (auto simp: as_disk_def)

lemma pte_ok_frame:
  assumes "pte_ok s a e" "vstate e = Mapped"
  obtains i where "as_ppage e = Some (i * PAGE_SIZE)" "owns_frame (coremap (kh s)) a (as_vpage e) i" "as_frames [e] = {i}"
  using assms by (auto simp: pte_ok_def as_frames_def)

text \<open>Entries of one space with different pages have different frames.\<close>

lemma ptes_frames_apart:
  assumes "ptes_ok s a (e # es)"
  shows "as_frames [e] \<inter> as_frames es = {}"
proof -
  have "i \<noteq> j" if "as_ppage e = Some (i * PAGE_SIZE)" "vstate e = Mapped" "e' \<in> set es" "vstate e' = Mapped"
    "as_ppage e' = Some (j * PAGE_SIZE)" for i j e'
  proof -
    have "pte_ok s a e" "pte_ok s a e'" "as_vpage e \<noteq> as_vpage e'" using assms that(3) by (auto simp: ptes_ok_def)
    then have "owns_frame (coremap (kh s)) a (as_vpage e) i" "owns_frame (coremap (kh s)) a (as_vpage e') j"
      using that by (auto simp: pte_ok_def)
    then show ?thesis using owns_frame_inj \<open>as_vpage e \<noteq> as_vpage e'\<close> by blast
  qed
  then show ?thesis by (force simp: as_frames_def)
qed

lemma unowned_mono: "unowned M B \<Longrightarrow> A \<subseteq> B \<Longrightarrow> unowned M A"
  unfolding unowned_def by blast

text \<open>The lock and the entry itself, once its page is gone.\<close>

lemma free_pte_blocks:
  assumes ok: "vmok M X s" and bl: "blocks_ok s (pte_plain e) [pte_wchan e]" and un: "unowned M (set (pte_blocks e))"
  obtains s' where "(lock_destroy (pte_lock e) s \<bind> obj_free (pte_addr e)) = Some s'" "vmok M X s'" "kstep s s'"
    "lv s' = lv s - set (pte_blocks e)" "set (wchans s') = set (wchans s) - {pte_wchan e}" "kroom s \<longrightarrow> kroom s'"
proof -
  let ?l = "pte_lock e"
  have b: "distinct [pte_addr e, lk_addr ?l, lk_name ?l, lk_wchan ?l]" "pte_addr e \<in> lv s - set (wchans s)"
    "lk_addr ?l \<in> lv s - set (wchans s)" "lk_name ?l \<in> lv s - set (wchans s)" "lk_wchan ?l \<in> set (wchans s)"
    using bl by (auto simp: blocks_ok_def pte_plain_def)
  obtain s1 where 1: "lock_destroy ?l s = Some s1" "kstep s s1" "lv s1 = lv s - {lk_addr ?l, lk_name ?l, lk_wchan ?l}"
    "set (wchans s1) = set (wchans s) - {lk_wchan ?l}" "kroom s \<longrightarrow> kroom s1"
    by (rule lock_destroy_ok [OF vmokD(1) [OF ok] _ b(3-5)]) (use b(1) in auto)
  obtain s2 where 2: "obj_free (pte_addr e) s1 = Some s2" "kstep s1 s2" "lv s2 = lv s1 - {pte_addr e}" "wchans s2 = wchans s1"
    "kroom s1 \<longrightarrow> kroom s2"
    by (rule obj_free_ok [OF kstep_ok [OF 1(2)], of "pte_addr e"]) (use 1 b in auto)
  have st: "kstep s s2" by (rule kstep_trans [OF 1(2) 2(2)])
  have lv: "lv s2 = lv s - set (pte_blocks e)" using 1(3) 2(3) by (auto simp: pte_blocks_def pte_plain_def)
  have w: "set (wchans s2) = set (wchans s) - {pte_wchan e}" using 1(4) 2(4) by simp
  have "vmok M X s2" by (rule vmok_kfree [OF ok st lv un w]) (simp add: pte_blocks_def)
  then show thesis using that [of s2] 1(1,5) 2(1,5) st lv w by simp
qed

lemma blocks_ok_kfree:
  assumes "blocks_ok s ps ws" "lv s' = lv s - A" "set (wchans s') = set (wchans s) - W" "W \<subseteq> A" "A \<inter> (set ps \<union> set ws) = {}"
  shows "blocks_ok s' ps ws"
  using assms by (auto simp: blocks_ok_def)

text \<open>First the page of an entry goes, in memory or on disk.\<close>

lemma drop_page_ok:
  assumes ok: "vmok M X s" and d: "detached M s a (e # es)"
  obtains s1 where "drop_page e s = Some (False, s1)" "vmok M (X - as_frames [e]) s1" "lv s1 = lv s" "wchans s1 = wchans s"
    "kroom s1 = kroom s" "uframe (as_frames [e]) (kh s) (kh s1)" "aspaces s1 = aspaces s" "cur_as s1 = cur_as s" "tlb s1 = tlb s"
    "ptes_ok s1 a es" "swap_data s1 = swap_data s"
proof -
  have po: "ptes_ok s a (e # es)" and e: "pte_ok s a e" using d by (auto simp: detached_def ptes_ok_def)
  show thesis
  proof (cases "vstate e = Mapped")
    case True
    then obtain i where i: "as_ppage e = Some (i * PAGE_SIZE)" "owns_frame (coremap (kh s)) a (as_vpage e) i" "as_frames [e] = {i}"
      by (rule pte_ok_frame [OF e])
    have il: "i < length (coremap (kh s))" "state (coremap (kh s) ! i) = Used" using i(2) by (auto simp: owns_frame_def)
    have un: "unmapped M i" using d i(3) by (simp add: detached_def as_frames_Cons(1) [of e es])
    let ?h = "kpages_freed i 1 (kh s)" let ?s = "s\<lparr>kh := ?h\<rparr>"
    have "drop_page e s = Some (False, ?s)" using True i(1) release_physical_page_used [OF il] by (simp add: drop_page_def)
    moreover have "vmok M (X - as_frames [e]) ?s" using vmok_free_page [OF ok il un] i(3) by simp
    moreover have "pte_ok ?s a e'" if e': "e' \<in> set es" for e'
    proof -
      have p': "pte_ok s a e'" using po e' by (simp add: ptes_ok_def)
      have "owns_frame (coremap ?h) a (as_vpage e') j" if "owns_frame (coremap (kh s)) a (as_vpage e') j" for j
      proof -
        have "as_vpage e \<noteq> as_vpage e'" using po e' by (auto simp: ptes_ok_def)
        then have "j \<noteq> i" using owns_frame_inj [OF that, of a "as_vpage e"] i(2) by auto
        then show ?thesis using that by (auto simp: owns_frame_def kpages_freed_def nth_unclaim)
      qed
      then show ?thesis using p' by (auto simp: pte_ok_def swap_used_def)
    qed
    moreover note uchange_kobj [OF vmokD(1) [OF ok] uchange_page_freed [OF vmok_heap(3) [OF ok] il]]
    ultimately show ?thesis using that [of ?s] po uframe_freed i(3) by (simp add: ptes_ok_def)
  next
    case False
    with e have sw: "vstate e = Swapped" by (cases "vstate e") (auto simp: pte_ok_def)
    with e obtain dl where dl: "dl \<in> swap_used s" "diskpage_location e = Some dl" by (auto simp: pte_ok_def)
    then obtain b where b: "swap_bitmap s = Some b" "dl \<in> bitmap_used b" by (auto simp: swap_used_def split: option.splits)
    have fr: "dl \<notin> as_disk (start_page_table sp)" if "M c = Some sp" for c sp
      using d sw dl(2) that by (auto simp: detached_def as_disk_def)
    obtain b' where u: "unmark_swap_bitmap dl s = Some (s\<lparr>swap_bitmap := Some b'\<rparr>)" "vmok M X (s\<lparr>swap_bitmap := Some b'\<rparr>)"
      "bitmap_used b' = bitmap_used b - {dl}" by (rule vmok_unmark [OF ok b fr])
    let ?s = "s\<lparr>swap_bitmap := Some b'\<rparr>"
    have f: "as_frames [e] = {}" using sw by (simp add: as_frames_def)
    have "pte_ok ?s a e'" if e': "e' \<in> set es" for e'
    proof -
      have p': "pte_ok s a e'" and vp: "as_vpage e \<noteq> as_vpage e'" using po e' by (auto simp: ptes_ok_def)
      have "\<exists>d'\<in>swap_used ?s. diskpage_location e' = Some d'" if "vstate e' = Swapped"
      proof -
        from p' that b obtain d' where d': "d' \<in> bitmap_used b" "diskpage_location e' = Some d'" by (auto simp: pte_ok_def swap_used_def)
        have inj: "disk_inj (e # es)" using d by (simp only: detached_def)
        have "diskpage_location e \<noteq> diskpage_location e'"
          using inj [unfolded disk_inj_def, rule_format, of e e'] sw that e' vp by auto
        then show ?thesis using d' dl(2) u(3) by (auto simp: swap_used_def)
      qed
      then show ?thesis using p' by (auto simp: pte_ok_def)
    qed
    then show ?thesis using that [of ?s] sw dl(2) u f po by (simp add: ptes_ok_def wchans_def drop_page_def)
  qed
qed

lemma destroy_ptes_ok:
  assumes "vmok M X s" "detached M s a es"
  shows "\<exists>s'. destroy_ptes es s = Some s' \<and> vmok M (X - as_frames es) s' \<and> lv s' = lv s - set (concat (map pte_blocks es))
    \<and> set (wchans s') = set (wchans s) - set (map pte_wchan es) \<and> uframe (as_frames es) (kh s) (kh s') \<and> (kroom s \<longrightarrow> kroom s')
    \<and> aspaces s' = aspaces s \<and> cur_as s' = cur_as s \<and> tlb s' = tlb s \<and> swap_data s' = swap_data s"
  using assms
proof (induction es arbitrary: X s)
  case Nil
  then show ?case by (simp add: as_frames_def)
next
  case (Cons e es)
  obtain s1 where 1: "drop_page e s = Some (False, s1)" "vmok M (X - as_frames [e]) s1" "lv s1 = lv s" "wchans s1 = wchans s"
    "kroom s1 = kroom s" "uframe (as_frames [e]) (kh s) (kh s1)" "aspaces s1 = aspaces s" "cur_as s1 = cur_as s" "tlb s1 = tlb s"
    "ptes_ok s1 a es" "swap_data s1 = swap_data s" by (rule drop_page_ok [OF Cons.prems])
  have d: "blocks_ok s (pte_plain e @ concat (map pte_plain es)) (pte_wchan e # map pte_wchan es)"
    "unowned M (set (pte_blocks e) \<union> set (concat (map pte_blocks es)))" using Cons.prems(2) by (simp_all add: detached_def)
  have bl: "blocks_ok s1 (pte_plain e) [pte_wchan e]" using d(1) 1(3,4) by (auto simp: blocks_ok_def)
  have un: "unowned M (set (pte_blocks e))" by (rule unowned_mono [OF d(2)]) simp
  obtain s2 where 2: "(lock_destroy (pte_lock e) s1 \<bind> obj_free (pte_addr e)) = Some s2" "vmok M (X - as_frames [e]) s2" "kstep s1 s2"
    "lv s2 = lv s1 - set (pte_blocks e)" "set (wchans s2) = set (wchans s1) - {pte_wchan e}" "kroom s1 \<longrightarrow> kroom s2"
    by (rule free_pte_blocks [OF 1(2) bl un])
  note mo = kstep_more [OF 2(3)]
  have kf: "kframe (kh s1) (kh s2)" using 2(3) by (simp add: kstep_def)
  have bl': "blocks_ok s2 (concat (map pte_plain es)) (map pte_wchan es)"
  proof (rule blocks_ok_kfree [of s1])
    show "blocks_ok s1 (concat (map pte_plain es)) (map pte_wchan es)" using d(1) 1(3,4) by (auto simp: blocks_ok_def)
    show "set (pte_blocks e) \<inter> (set (concat (map pte_plain es)) \<union> set (map pte_wchan es)) = {}"
      using d(1) by (auto simp: blocks_ok_def pte_blocks_def)
  qed (use 2(4,5) in \<open>auto simp: pte_blocks_def\<close>)
  have "pte_ok s2 = pte_ok s1" using mo(4) kframe_used(4) [OF kf] by (simp add: pte_ok_def swap_used_def fun_eq_iff)
  then have "ptes_ok s2 a es" using 1(10) by (simp add: ptes_ok_def)
  moreover have "unowned M (set (concat (map pte_blocks es)))" by (rule unowned_mono [OF d(2)]) simp
  moreover have "\<forall>i\<in>as_frames es. unmapped M i"
    using Cons.prems(2) unfolding detached_def as_frames_Cons(1) [of e es] ball_Un by (elim conjE)
  moreover have "\<forall>d\<in>as_disk es. \<forall>b sb. M b = Some sb \<longrightarrow> d \<notin> as_disk (start_page_table sb)"
    using Cons.prems(2) unfolding detached_def as_disk_Cons(1) [of e es] ball_Un by (elim conjE)
  moreover have "disk_inj (e # es)" using Cons.prems(2) by (simp only: detached_def)
  then have "disk_inj es" by (rule disk_inj_sub) auto
  ultimately have "detached M s2 a es" using bl' by (simp only: detached_def simp_thms)
  from Cons.IH [OF 2(2) this] obtain s' where s': "destroy_ptes es s2 = Some s'" "vmok M (X - as_frames [e] - as_frames es) s'"
    "lv s' = lv s2 - set (concat (map pte_blocks es))" "set (wchans s') = set (wchans s2) - set (map pte_wchan es)"
    "uframe (as_frames es) (kh s2) (kh s')" "kroom s2 \<longrightarrow> kroom s'" "aspaces s' = aspaces s2" "cur_as s' = cur_as s2" "tlb s' = tlb s2"
    "swap_data s' = swap_data s2" by blast
  have "\<not> pte_freed e" using Cons.prems(2) by (simp add: detached_def ptes_ok_def pte_ok_def)
  moreover obtain sx where "lock_destroy (pte_lock e) s1 = Some sx" "obj_free (pte_addr e) sx = Some s2"
    using 2(1) by (cases "lock_destroy (pte_lock e) s1") auto
  ultimately have run: "destroy_ptes (e # es) s = Some s'" using 1(1) s'(1) by simp
  have uf: "uframe (as_frames (e # es)) (kh s) (kh s')"
    using uframe_trans [OF uframe_step [OF 1(6) kf] s'(5)] by (simp add: as_frames_Cons(1) [of e es])
  have X: "X - as_frames [e] - as_frames es = X - as_frames (e # es)" unfolding as_frames_Cons(1) [of e es] by blast
  have l: "lv s' = lv s - set (concat (map pte_blocks (e # es)))" unfolding s'(3) 2(4) 1(3) by auto
  have w: "set (wchans s') = set (wchans s) - set (map pte_wchan (e # es))" unfolding s'(4) 2(5) 1(4) by auto
  have k: "kroom s \<longrightarrow> kroom s'" using s'(6) 2(6) 1(5) by blast
  have m: "aspaces s' = aspaces s" "cur_as s' = cur_as s" "tlb s' = tlb s" "swap_data s' = swap_data s"
    by (simp_all only: s'(7-10) mo(1-3,5) 1(7-9,11))
  show ?case by (intro exI [of _ s'] conjI run s'(2) [unfolded X] l w uf k m)
qed

lemma free_regions_ok:
  assumes "vmok M X s" "blocks_ok s (map rg_addr rs) []" "unowned M (rg_addr ` set rs)"
  shows "\<exists>s'. free_regions rs s = Some s' \<and> vmok M X s' \<and> kstep s s' \<and> lv s' = lv s - rg_addr ` set rs \<and> wchans s' = wchans s
    \<and> (kroom s \<longrightarrow> kroom s')"
  using assms
proof (induction rs arbitrary: s)
  case Nil
  then show ?case using vmokD(1) [OF Nil.prems(1)] by (simp add: kstep_def)
next
  case (Cons r rs)
  have b: "rg_addr r \<in> lv s" "rg_addr r \<notin> set (wchans s)" "rg_addr r \<notin> rg_addr ` set rs" using Cons.prems(2) by (auto simp: blocks_ok_def)
  obtain s1 where 1: "obj_free (rg_addr r) s = Some s1" "kstep s s1" "lv s1 = lv s - {rg_addr r}" "wchans s1 = wchans s" "kroom s \<longrightarrow> kroom s1"
    by (rule obj_free_ok [OF vmokD(1) [OF Cons.prems(1)] b(1,2)])
  have u: "unowned M {rg_addr r}" "unowned M (rg_addr ` set rs)" by (rule unowned_mono [OF Cons.prems(3)], auto)+
  have ok1: "vmok M X s1" by (rule vmok_kfree [OF Cons.prems(1) 1(2,3) u(1), of "{}"]) (simp_all add: 1(4))
  have "blocks_ok s1 (map rg_addr rs) []"
    by (rule blocks_ok_kfree [of s _ _ _ "{rg_addr r}" "{}"]) (use Cons.prems(2) 1(3,4) b(3) in \<open>simp_all add: blocks_ok_def\<close>)
  from Cons.IH [OF ok1 this u(2)] obtain s' where s': "free_regions rs s1 = Some s'" "vmok M X s'" "kstep s1 s'"
    "lv s' = lv s1 - rg_addr ` set rs" "wchans s' = wchans s1" "kroom s1 \<longrightarrow> kroom s'" by blast
  have "lv s' = lv s - rg_addr ` set (r # rs)" unfolding s'(4) 1(3) by auto
  then show ?case using s' 1 kstep_trans [OF 1(2) s'(3)] by auto
qed

lemma vmok_mono:
  assumes "vmok M X s" "X \<subseteq> Y"
  shows "vmok M Y s"
  using assms unfolding vmok_def by (meson subsetD)

lemma unowned_drop: "unowned M A \<Longrightarrow> unowned (M(a := None)) A"
  by (auto simp: unowned_def)

text \<open>The parts of a space that has just been taken out of \<open>M\<close>.\<close>

lemma dropped_space:
  assumes ok: "vmok M X s" and M: "M a = Some sp"
  shows "unowned (M(a := None)) (set (as_plain a sp @ as_wchans sp))" "detached (M(a := None)) s a (start_page_table sp)"
    "blocks_ok s (map rg_addr (start_region sp)) []" "a \<in> lv s - set (wchans s)"
    "a \<notin> rg_addr ` set (start_region sp)" "a \<notin> set (concat (map pte_blocks (start_page_table sp)))"
    "rg_addr ` set (start_region sp) \<inter> set (concat (map pte_blocks (start_page_table sp))) = {}"
proof -
  have as: "as_ok s a sp" by (rule vmokD(2) [OF ok M])
  let ?es = "start_page_table sp" and ?M = "M(a := None)"
  have bo: "blocks_ok s (a # map rg_addr (start_region sp) @ concat (map pte_plain ?es)) (map pte_wchan ?es)"
    using as by (simp add: as_ok_def as_plain_def as_wchans_def)
  have pb: "set (concat (map pte_blocks ?es)) = set (concat (map pte_plain ?es)) \<union> set (map pte_wchan ?es)"
    by (auto simp: pte_blocks_def)
  show un: "unowned ?M (set (as_plain a sp @ as_wchans sp))"
    unfolding unowned_def
  proof (intro allI impI)
    fix b sb assume b: "?M b = Some sb"
    then have "M b = Some sb" "a \<noteq> b" by (auto split: if_splits)
    from vmokD(8) [OF ok M this] show "set (as_plain a sp @ as_wchans sp) \<inter> set (as_plain b sb @ as_wchans sb) = {}" .
  qed
  have "unmapped ?M i" if i: "i \<in> as_frames ?es" for i
    unfolding unmapped_def
  proof (intro allI impI notI)
    fix b sb assume b: "?M b = Some sb" and ib: "i \<in> as_frames (start_page_table sb)"
    have Mb: "M b = Some sb" "a \<noteq> b" using b by (auto split: if_splits)
    obtain e e' where e: "e \<in> set ?es" "vstate e = Mapped" "as_ppage e = Some (i * PAGE_SIZE)"
      and e': "e' \<in> set (start_page_table sb)" "vstate e' = Mapped" "as_ppage e' = Some (i * PAGE_SIZE)"
      using i ib by (auto simp: as_frames_def)
    have "owns_frame (coremap (kh s)) a (as_vpage e) i" using as e by (auto simp: as_ok_def ptes_ok_def pte_ok_def)
    moreover have "owns_frame (coremap (kh s)) b (as_vpage e') i"
      using vmokD(2) [OF ok Mb(1)] e' by (auto simp: as_ok_def ptes_ok_def pte_ok_def)
    ultimately show False using owns_frame_inj Mb(2) by blast
  qed
  moreover have "d \<notin> as_disk (start_page_table sb)" if d: "d \<in> as_disk ?es" and b: "?M b = Some sb" for d b sb
  proof
    assume db: "d \<in> as_disk (start_page_table sb)"
    have Mb: "M b = Some sb" "a \<noteq> b" using b by (auto split: if_splits)
    obtain e e' where "e \<in> set ?es" "vstate e = Swapped" "diskpage_location e = Some d"
      and "e' \<in> set (start_page_table sb)" "vstate e' = Swapped" "diskpage_location e' = Some d"
      using d db by (auto simp: as_disk_def)
    then show False using vmokD(4) [OF ok] M Mb unfolding disk_apart_def by metis
  qed
  moreover have "disk_inj ?es" using vmokD(4) [OF ok] M unfolding disk_apart_def disk_inj_def by blast
  moreover have "unowned ?M (set (concat (map pte_blocks ?es)))"
    unfolding pb by (rule unowned_mono [OF un]) (auto simp: as_plain_def as_wchans_def)
  moreover have "blocks_ok s (concat (map pte_plain ?es)) (map pte_wchan ?es)" using bo by (auto simp: blocks_ok_def)
  moreover have "ptes_ok s a ?es" using as by (simp add: as_ok_def)
  ultimately show "detached ?M s a ?es" unfolding detached_def by blast
  show "blocks_ok s (map rg_addr (start_region sp)) []" "a \<in> lv s - set (wchans s)" "a \<notin> rg_addr ` set (start_region sp)"
    using bo by (auto simp: blocks_ok_def)
  show "a \<notin> set (concat (map pte_blocks ?es))" "rg_addr ` set (start_region sp) \<inter> set (concat (map pte_blocks ?es)) = {}"
    using bo unfolding pb by (auto simp: blocks_ok_def)
qed

lemma as_blocks_set:
  "set (as_plain a sp @ as_wchans sp) =
     {a} \<union> rg_addr ` set (start_region sp) \<union> set (concat (map pte_blocks (start_page_table sp)))"
  by (auto simp: as_plain_def as_wchans_def pte_blocks_def)

lemma as_destroy_ok:
  assumes ok: "vmok M X s" and M: "M a = Some sp" and sp: "aspaces s a = Some sp" and cur: "a \<noteq> cur_as s" and nz: "a \<noteq> 0"
  obtains s' where "as_destroy a s = Some s'" "vmok (M(a := None)) (X - as_frames (start_page_table sp)) s'"
    "aspaces s' = (aspaces s)(a := None)"
    "lv s' = lv s - set (as_plain a sp @ as_wchans sp)" "set (wchans s') = set (wchans s) - set (as_wchans sp)"
    "uframe (as_frames (start_page_table sp)) (kh s) (kh s')" "kroom s \<longrightarrow> kroom s'" "cur_as s' = cur_as s" "tlb s' = tlb s"
    "swap_data s' = swap_data s"
proof -
  let ?es = "start_page_table sp" and ?rs = "start_region sp" and ?M = "M(a := None)"
  note dr = dropped_space [OF ok M]
  have ok0: "vmok ?M (X \<union> as_frames ?es) s" by (rule vmok_drop_space [OF ok M cur])
  from destroy_ptes_ok [OF ok0 dr(2)] obtain s1 where 1: "destroy_ptes ?es s = Some s1"
    "vmok ?M (X \<union> as_frames ?es - as_frames ?es) s1" "lv s1 = lv s - set (concat (map pte_blocks ?es))"
    "set (wchans s1) = set (wchans s) - set (map pte_wchan ?es)" "uframe (as_frames ?es) (kh s) (kh s1)" "kroom s \<longrightarrow> kroom s1"
    "aspaces s1 = aspaces s" "cur_as s1 = cur_as s" "tlb s1 = tlb s" "swap_data s1 = swap_data s" by blast
  have X: "X \<union> as_frames ?es - as_frames ?es = X - as_frames ?es" by blast
  have b1: "blocks_ok s1 (map rg_addr ?rs) []" using dr(3,7) 1(3,4) by (auto simp: blocks_ok_def)
  have u1: "unowned ?M (rg_addr ` set ?rs)" "unowned ?M {a}" using unowned_mono [OF dr(1)] unfolding as_blocks_set by blast+
  from free_regions_ok [OF 1(2) b1 u1(1)] obtain s2 where 2: "free_regions ?rs s1 = Some s2"
    "vmok ?M (X \<union> as_frames ?es - as_frames ?es) s2" "kstep s1 s2" "lv s2 = lv s1 - rg_addr ` set ?rs" "wchans s2 = wchans s1"
    "kroom s1 \<longrightarrow> kroom s2" by blast
  have a2: "a \<in> lv s2" "a \<notin> set (wchans s2)" using dr(4-6) 1(3,4) 2(4,5) by auto
  obtain s3 where 3: "obj_free a s2 = Some s3" "kstep s2 s3" "lv s3 = lv s2 - {a}" "wchans s3 = wchans s2" "kroom s2 \<longrightarrow> kroom s3"
    by (rule obj_free_ok [OF vmokD(1) [OF 2(2)] a2])
  have ok3: "vmok ?M (X - as_frames ?es) s3"
    using vmok_kfree [OF 2(2) 3(2,3) u1(2), of "{}"] 3(4) X by simp
  let ?s = "s3\<lparr>aspaces := (aspaces s3)(a := None)\<rparr>"
  have m: "aspaces s3 = aspaces s" "cur_as s3 = cur_as s" "tlb s3 = tlb s" "swap_data s3 = swap_data s"
    using kstep_more(1-3,5) [OF 3(2)] kstep_more(1-3,5) [OF 2(3)] 1(7-10) by simp_all
  have "kframe (kh s1) (kh s2)" "kframe (kh s2) (kh s3)" using 2(3) 3(2) by (simp_all add: kstep_def)
  from uframe_step [OF uframe_step [OF 1(5) this(1)] this(2)] have uf: "uframe (as_frames ?es) (kh s) (kh s3)" .
  have run: "as_destroy a s = Some ?s" using nz sp 1(1) 2(1) 3(1) by (simp add: as_destroy_def)
  have l: "lv s3 = lv s - set (as_plain a sp @ as_wchans sp)" unfolding as_blocks_set 3(3) 2(4) 1(3) by blast
  have w: "set (wchans s3) = set (wchans s) - set (as_wchans sp)" using 3(4) 2(5) 1(4) by (simp add: as_wchans_def)
  have wc: "wchans ?s = wchans s3" by (simp add: wchans_def)
  have k: "kroom s \<longrightarrow> kroom s3" using 1(6) 2(6) 3(5) by blast
  show thesis by (rule that [of ?s]) (use run ok3 m l w uf k wc in simp_all)
qed

section \<open>Building\<close>

lemma space_addr_live:
  assumes "vmok M X s" "M a = Some sp"
  shows "a \<in> lv s" "a \<noteq> 0"
proof -
  show "a \<in> lv s" using vmokD(2) [OF assms] by (auto simp: as_ok_def blocks_ok_def as_plain_def)
  then show "a \<noteq> 0" using live_addrs_bound(3) [OF vmok_heap(2) [OF assms(1)]] by auto
qed

lemma cur_as_space: "vmok M X s \<Longrightarrow> cur_as s \<noteq> 0 \<Longrightarrow> \<exists>sp. M (cur_as s) = Some sp"
  using vmokD(3) [of M X s] by (auto simp: tlb_ok_def)

lemma fresh_addr:
  assumes ok: "vmok M X s" and a: "a \<notin> lv s" "a \<noteq> 0"
  shows "M a = None" "a \<noteq> cur_as s" "unowned M {a}"
proof -
  show "M a = None" using space_addr_live(1) [OF ok] a(1) by (cases "M a") auto
  then show "a \<noteq> cur_as s" using cur_as_space [OF ok] a(2) by auto
  show "unowned M {a}" by (rule fresh_unowned [OF ok]) (use a in simp)
qed

lemma as_create_ok:
  assumes ok: "vmok (aspaces s) X s" and room: "kroom s"
  obtains (fail) s' where "as_create s = Some (0, s')" "vmok (aspaces s') X s'" "kstep s s'" "lv s' = lv s"
  | (got) a s' where "as_create s = Some (a, s')" "a \<noteq> 0" "vmok (aspaces s') X s'" "kroom s'" "a \<notin> lv s" "a \<noteq> cur_as s"
      "aspaces s' = (aspaces s)(a \<mapsto> \<lparr>start_region = [], start_page_table = [], heap_start = 0, heap_end = 0\<rparr>)" "aspaces s a = None"
      "cur_as s' = cur_as s" "tlb s' = tlb s" "kframe (kh s) (kh s')" "lv s' = insert a (lv s)"
      "swap_data s' = swap_data s"
proof -
  have "(16 :: u32) < LARGEST_SUBPAGE_SIZE" by simp
  with vmokD(1) [OF ok] room show thesis
  proof (cases rule: obj_alloc_ok)
    case (fail s1)
    have "vmok (aspaces s) X s1" by (rule vmok_kalloc [OF ok fail(2), of "{}" "{}"]) (simp_all add: fail)
    then show ?thesis using that(1) [of s1] fail kstep_more(1) [OF fail(2)] by (simp add: as_create_def)
  next
    case (got a s1)
    have ok1: "vmok (aspaces s) X s1" by (rule vmok_kalloc [OF ok got(3), of "{a}" "{}"]) (use got in simp_all)
    note fa = fresh_addr [OF ok got(5,2)] and mo = kstep_more [OF got(3)]
    have w: "a \<notin> set (wchans s1)" using vmokD(1) [OF ok] got(5,7) by (auto simp: kobj_ok_def)
    let ?sp = "\<lparr>start_region = [], start_page_table = [], heap_start = 0, heap_end = 0\<rparr>" let ?s = "set_as a ?sp s1"
    have "vmok ((aspaces s)(a \<mapsto> ?sp)) X s1"
      by (rule vmok_new_space [OF ok1 fa(1) _ w fa(3)]) (use got(6) fa(2) mo(2) in simp_all)
    then have "vmok (aspaces ?s) X ?s" by (simp add: set_as_def mo(1))
    moreover have "as_create s = Some (a, ?s)" using got(1,2) by (simp add: as_create_def)
    moreover have "kframe (kh s) (kh ?s)" using got(3) by (simp add: set_as_def kstep_def)
    ultimately show ?thesis using got fa mo by (intro that(2) [of a ?s]) (simp_all add: set_as_def)
  qed
qed

lemma as_plain_snoc: "as_plain a (sp\<lparr>start_page_table := es @ [e]\<rparr>) = as_plain a (sp\<lparr>start_page_table := es\<rparr>) @ pte_plain e"
  and as_wchans_snoc: "as_wchans (sp\<lparr>start_page_table := es @ [e]\<rparr>) = as_wchans (sp\<lparr>start_page_table := es\<rparr>) @ [pte_wchan e]"
  by (simp_all add: as_plain_def as_wchans_def)

lemma link_pte:
  assumes ok: "vmok M X s" and M: "M a = Some sp" and e: "pte_ok s a e" "vstate e = Mapped" "as_frames [e] = {b}"
    and vp: "as_vpage e \<notin> as_vpage ` set (start_page_table sp)"
    and bl: "blocks_ok s (pte_plain e) [pte_wchan e]" and un: "unowned M (set (pte_blocks e))"
  shows "vmok (M(a \<mapsto> sp\<lparr>start_page_table := start_page_table sp @ [e]\<rparr>)) (X - {b}) s"
proof -
  let ?es = "start_page_table sp" let ?sp = "sp\<lparr>start_page_table := ?es @ [e]\<rparr>"
  have as: "as_ok s a sp" by (rule vmokD(2) [OF ok M])
  have sp: "as_plain a ?sp = as_plain a sp @ pte_plain e" "as_wchans ?sp = as_wchans sp @ [pte_wchan e]"
    by (simp_all add: as_plain_def as_wchans_def)
  have "set (pte_blocks e) \<inter> set (as_plain a sp @ as_wchans sp) = {}" using un M by (simp only: unowned_def)
  then have "blocks_ok s (as_plain a ?sp) (as_wchans ?sp)"
    using as bl unfolding sp by (auto simp: as_ok_def blocks_ok_def pte_blocks_def)
  moreover have "ptes_ok s a (?es @ [e])" using as e(1) vp by (auto simp: as_ok_def ptes_ok_def)
  ultimately have as': "as_ok s a ?sp" by (simp add: as_ok_def)
  have fr: "as_frames (?es @ [e]) = insert b (as_frames ?es)" unfolding as_frames_Cons(2) e(3) by simp
  show ?thesis
  proof (rule vmok_upd_space [OF ok M as' _ un])
    show "set (as_plain a ?sp @ as_wchans ?sp) \<subseteq> set (as_plain a sp @ as_wchans sp) \<union> set (pte_blocks e)"
      unfolding sp by (auto simp: pte_blocks_def)
    show "disk_apart (M(a \<mapsto> ?sp))" by (rule disk_apart_sub [OF vmokD(4) [OF ok]]) (use M e(2) in auto)
  qed (auto simp: fr maps_to_def)
qed

text \<open>A page table entry and its lock, allocated but not linked yet.\<close>

lemma new_pte_blocks:
  assumes ok: "vmok M X s" and room: "kroom s"
  obtains (nopte) s' where "obj_alloc 28 s = Some (0, s')" "vmok M X s'" "kstep s s'" "lv s' = lv s"
  | (nolock) p s1 s2 s' where "obj_alloc 28 s = Some (p, s1)" "p \<noteq> 0" "lock_create ''pte_lock'' s1 = Some (None, s2)"
      "obj_free p s2 = Some s'" "vmok M X s'" "kstep s s'" "lv s' = lv s"
  | (got) p l s1 s' where "obj_alloc 28 s = Some (p, s1)" "p \<noteq> 0" "lock_create ''pte_lock'' s1 = Some (Some l, s')"
      "vmok M X s'" "kstep s s'" "kroom s'" "blocks_ok s' [p, lk_addr l, lk_name l] [lk_wchan l]"
      "{p, lk_addr l, lk_name l, lk_wchan l} \<inter> lv s = {}" "lv s' = {p, lk_addr l, lk_name l, lk_wchan l} \<union> lv s"
      "unowned M {p, lk_addr l, lk_name l, lk_wchan l}"
proof -
  have k: "kobj_ok s" by (rule vmokD(1) [OF ok])
  have wl: "set (wchans s) \<subseteq> lv s" using k by (simp add: kobj_ok_def)
  have "(28 :: u32) < LARGEST_SUBPAGE_SIZE" by simp
  with k room show thesis
  proof (cases rule: obj_alloc_ok)
    case (fail s1)
    have "vmok M X s1" by (rule vmok_kalloc [OF ok fail(2), of "{}" "{}"]) (simp_all add: fail)
    with fail show ?thesis by (intro that(1) [of s1])
  next
    case (got p s1)
    have ok1: "vmok M X s1" by (rule vmok_kalloc [OF ok got(3), of "{p}" "{}"]) (use got in simp_all)
    have pn: "p \<notin> set (wchans s)" using got(5) wl by auto
    have "length ''pte_lock'' < 2047" by simp
    with kstep_ok [OF got(3)] got(4) show ?thesis
    proof (cases rule: lock_create_ok)
      case (fail s2)
      have ok2: "vmok M X s2" by (rule vmok_kalloc [OF ok1 fail(2), of "{}" "{}"]) (simp_all add: fail)
      obtain s3 where 3: "obj_free p s2 = Some s3" "kstep s2 s3" "lv s3 = lv s2 - {p}" "wchans s3 = wchans s2"
        by (rule obj_free_ok [OF kstep_ok [OF fail(2)], of p]) (use fail got(6,7) pn in auto)
      have ok3: "vmok M X s3"
        by (rule vmok_kfree [OF ok2 3(2,3) fresh_addr(3) [OF ok got(5,2)], of "{}"]) (simp_all add: 3(4))
      from kstep_trans [OF kstep_trans [OF got(3) fail(2)] 3(2)] have st: "kstep s s3" .
      have "lv s3 = lv s" using 3(3) fail(3) got(5,6) by simp
      with got(1,2) fail(1) 3(1) ok3 st show ?thesis by (intro that(2) [of p s1 s2 s3])
    next
      case (got l s2)
      note g1 = \<open>obj_alloc 28 s = Some (p, s1)\<close> \<open>p \<noteq> 0\<close> \<open>kstep s s1\<close> \<open>p \<notin> lv s\<close> \<open>lv s1 = insert p (lv s)\<close> \<open>wchans s1 = wchans s\<close>
      have ok2: "vmok M X s2" by (rule vmok_kalloc [OF ok1 got(2,6,5), of "{lk_wchan l}"]) (simp_all add: got(7))
      have wn: "{lk_addr l, lk_name l} \<inter> set (wchans s1) = {}" using got(5) wl g1(5,6) by auto
      have bl: "blocks_ok s2 [p, lk_addr l, lk_name l] [lk_wchan l]"
        using got(4-7) g1(4-6) pn wn by (auto simp: blocks_ok_def)
      have fr: "{p, lk_addr l, lk_name l, lk_wchan l} \<inter> lv s = {}" using got(5) g1(4,5) by auto
      have "lv s2 = {p, lk_addr l, lk_name l, lk_wchan l} \<union> lv s" using got(6) g1(5) by auto
      with g1(1,2) got(1) ok2 kstep_trans [OF g1(3) got(2)] got(3) bl fr fresh_unowned [OF ok fr] show ?thesis
        by (intro that(3) [of p s1 l s2])
    qed
  qed
qed

lemma fault_new_ok:
  assumes ok: "vm_ok s" and room: "kroom s" and a: "aspaces s a = Some sp"
    and va: "va < MIPS_KSEG0" "va AND PAGE_FRAME = va" "va \<notin> as_vpage ` set (start_page_table sp)"
  obtains (nomem) s' where "fault_new a va s = Some (Inl ENOMEM, s')" "vm_ok s'" "kstep s s'"
  | (dangling) e s' where "fault_new a va s = Some (Inl ENOMEM, s')" "vmok (aspaces s) {} s'" "pte_freed e" "as_vpage e = va"
      "aspaces s' = (aspaces s)(a \<mapsto> sp\<lparr>start_page_table := start_page_table sp @ [e]\<rparr>)" "kframe (kh s) (kh s')"
      "cur_as s' = cur_as s" "tlb s' = tlb s" "swap_data s' = swap_data s" "vstate e = Unmapped"
  | (mapped) i e s' where "fault_new a va s = Some (Inr (i * PAGE_SIZE), s')" "vm_ok s'" "kroom s'"
      "vstate e = Mapped" "as_vpage e = va" "as_ppage e = Some (i * PAGE_SIZE)"
      "aspaces s' = (aspaces s)(a \<mapsto> sp\<lparr>start_page_table := start_page_table sp @ [e]\<rparr>)"
      "owns_frame (coremap (kh s')) a va i" "uframe {} (kh s) (kh s')" "\<not> user_page (coremap (kh s) ! i)"
      "\<And>x. i * PAGE_SIZE \<le> x \<Longrightarrow> x < i * PAGE_SIZE + PAGE_SIZE \<Longrightarrow> ram (kh s') x = 0" "cur_as s' = cur_as s" "tlb s' = tlb s"
      "swap_data s' = swap_data s"
proof -
  from ok room show thesis
  proof (cases rule: new_pte_blocks)
    case (nopte s1)
    with kstep_more(1) [OF nopte(3)] show ?thesis by (intro that(1) [of s1]) (simp_all add: fault_new_def)
  next
    case (nolock p s1 s2 s3)
    with kstep_more(1) [OF nolock(6)] show ?thesis by (intro that(1) [of s3]) (simp_all add: fault_new_def)
  next
    case (got p l s1 s2)
    note mo = kstep_more [OF got(5)] and g = got
    have kf: "kframe (kh s) (kh s2)" using got(5) by (simp add: kstep_def)
    let ?es = "start_page_table sp"
    define e where "e = \<lparr>pte_addr = p, as_vpage = va, as_ppage = None, vpage_permission = None, vstate = Unmapped,
                     diskpage_location = None, pte_lock = l, pte_freed = False\<rparr>"
    define s3 where "s3 = set_as a (sp\<lparr>start_page_table := ?es @ [e]\<rparr>) s2"
    have ok3: "vmok (aspaces s) {} s3" using got(4) by (simp add: s3_def set_as_def)
    have f3: "kh s3 = kh s2" "wchans s3 = wchans s2" "cur_as s3 = cur_as s" "tlb s3 = tlb s" "swap_data s3 = swap_data s"
      "aspaces s3 = (aspaces s)(a \<mapsto> sp\<lparr>start_page_table := ?es @ [e]\<rparr>)"
      by (simp_all add: s3_def set_as_def wchans_def mo)
    have run: "fault_new a va s = do {
        (pg, h) \<leftarrow> allocate_user_page 1 (unat a) va False (kh s3);
        let s4 = s3\<lparr>kh := h\<rparr>;
        if pg = 0 then do {
          s5 \<leftarrow> lock_destroy l s4; s6 \<leftarrow> obj_free p s5; s7 \<leftarrow> put_pte a (length ?es) (e\<lparr>pte_freed := True\<rparr>) s6; Some (Inl ENOMEM, s7) }
        else do { s5 \<leftarrow> put_pte a (length ?es) (e\<lparr>as_ppage := Some pg, vstate := Mapped\<rparr>) s4; Some (Inr pg, s5) } }"
      using got(1-3) a mo(1) unfolding fault_new_def Let_def s3_def e_def by simp
    have eb: "pte_addr e = p" "pte_lock e = l" by (simp_all add: e_def)
    have bl: "blocks_ok s3 (pte_plain e) [pte_wchan e]" using got(7) f3 by (simp add: blocks_ok_def pte_plain_def eb)
    have pb: "set (pte_blocks e) = {p, lk_addr l, lk_name l, lk_wchan l}" by (auto simp: pte_blocks_def pte_plain_def eb)
    from vmok_heap(3) [OF ok3] show ?thesis
    proof (cases rule: allocate_user_page_cases [of _ "unat a" va False])
      case full
      obtain s5 where 5: "(lock_destroy (pte_lock e) s3 \<bind> obj_free (pte_addr e)) = Some s5" "vmok (aspaces s) {} s5" "kstep s3 s5"
        by (rule free_pte_blocks [OF ok3 bl]) (use got(10) pb in auto)
      note m5 = kstep_more [OF 5(3)]
      let ?sp = "sp\<lparr>start_page_table := ?es @ [e\<lparr>pte_freed := True\<rparr>]\<rparr>"
      let ?s = "set_as a ?sp s5"
      have "put_pte a (length ?es) (e\<lparr>pte_freed := True\<rparr>) s5 = Some ?s"
        using m5(1) f3(6) by (simp add: put_pte_def)
      moreover obtain sx where "lock_destroy l s3 = Some sx" "obj_free p sx = Some s5"
        using 5(1) unfolding eb by (cases "lock_destroy l s3") auto
      ultimately have "fault_new a va s = Some (Inl ENOMEM, ?s)" using run full(1) by simp
      moreover have "kframe (kh s) (kh s5)" using kframe_trans [OF kf] 5(3) f3(1) by (simp add: kstep_def)
      ultimately show ?thesis using 5(2) m5 f3
        by (intro that(2) [of ?s "e\<lparr>pte_freed := True\<rparr>"]) (simp_all add: set_as_def e_def)
    next
      case (got b)
      let ?h = "upage_taken b (unat a) va False (kh s3)" let ?s4 = "s3\<lparr>kh := ?h\<rparr>"
      let ?e = "e\<lparr>as_ppage := Some (b * PAGE_SIZE), vstate := Mapped\<rparr>"
      let ?sp = "sp\<lparr>start_page_table := ?es @ [?e]\<rparr>" let ?s = "set_as a ?sp ?s4"
      have ok4: "vmok (aspaces s) {b} ?s4" using vmok_take_page [OF ok3 got(2-4)] by simp
      note uk = uchange_kobj [OF vmokD(1) [OF ok3] uchange_upage_taken [OF vmok_heap(3) [OF ok3] got(2-4)]]
      have own: "owns_frame (coremap ?h) a va b" using got(3) by (simp add: owns_frame_def)
      then have pe: "pte_ok ?s4 a ?e" using va by (auto simp: pte_ok_def e_def)
      have b4: "blocks_ok ?s4 (pte_plain ?e) [pte_wchan ?e]"
        using bl uk(2) by (simp add: blocks_ok_def pte_plain_def)
      have "vmok ((aspaces s)(a \<mapsto> ?sp)) ({b} - {b}) ?s4"
        by (rule link_pte [OF ok4 a pe _ _ _ b4])
          (use va(3) g(10) pb in \<open>simp_all add: as_frames_def pte_blocks_def pte_plain_def e_def\<close>)
      then have "vm_ok ?s" by (simp add: set_as_def f3(6))
      moreover have "fault_new a va s = Some (Inr (b * PAGE_SIZE), ?s)"
        using run got(1,5) by (simp add: put_pte_def f3(6))
      moreover have "uframe {} (kh s) ?h"
        using uframe_trans [OF uframe_kframe [OF kf] uframe_taken [OF got(3,4) [unfolded f3(1)]]] f3(1) by simp
      moreover have "\<not> user_page (coremap (kh s) ! b)"
      proof
        assume "user_page (coremap (kh s) ! b)"
        moreover have "b < length (coremap (kh s))" using got(3) f3(1) kframe_used(1) [OF kf] by simp
        ultimately have "coremap (kh s2) ! b = coremap (kh s) ! b" by (intro kframe_user [OF kf])
        then have "state (coremap (kh s) ! b) = Free" using got(4) by (simp only: f3(1))
        then show False using \<open>user_page (coremap (kh s) ! b)\<close> by (simp add: user_page_def)
      qed
      moreover have "kroom ?s4" using uk(3) g(6) f3(1) by simp
      ultimately show ?thesis using own f3(3-6)
        by (intro that(3) [of b ?s ?e]) (simp_all add: set_as_def e_def bzero_words_def)
    qed
  qed
qed

section \<open>Page faults\<close>

lemma find_pte_cases:
  assumes "\<forall>e\<in>set es. \<not> pte_freed e"
  obtains (none) "find_pte va es i = Some None" "va \<notin> as_vpage ` set es"
  | (found) ps e qs where "es = ps @ e # qs" "as_vpage e = va" "find_pte va es i = Some (Some (i + length ps))"
  using assms
proof (induction es arbitrary: i thesis)
  case Nil
  then show ?case by simp
next
  case (Cons e es)
  show ?case
  proof (cases "as_vpage e = va")
    case True
    then show ?thesis using Cons.prems(2) [of "[]" e es] Cons.prems(3) by simp
  next
    case False
    then have step: "find_pte va (e # es) i = find_pte va es (i + 1)" using Cons.prems(3) by simp
    show ?thesis
    proof (rule Cons.IH [of "i + 1"])
      show thesis if "find_pte va es (i + 1) = Some None" "va \<notin> as_vpage ` set es"
        using that False step Cons.prems(1) by auto
      show thesis if "es = ps @ e' # qs" "as_vpage e' = va" "find_pte va es (i + 1) = Some (Some (i + 1 + length ps))" for ps e' qs
        using that step Cons.prems(2) [of "e # ps" e' qs] by simp
    qed (use Cons.prems(3) in simp)
  qed
qed

text \<open>Replacing an entry by one that differs only in where its page is.\<close>

lemma vmok_replace_pte:
  assumes ok: "vmok M X s" and M: "M a = Some sp" and es: "start_page_table sp = ps @ e # qs"
    and e': "pte_addr e' = pte_addr e" "pte_lock e' = pte_lock e" "as_vpage e' = as_vpage e" "pte_ok s a e'"
    and X: "X \<union> as_frames [e] \<subseteq> X' \<union> as_frames [e']"
    and tlb: "\<And>pa. a = cur_as s \<Longrightarrow> vstate e = Mapped \<Longrightarrow> as_ppage e = Some pa \<Longrightarrow> as_vpage e \<in> fst ` set (tlb s) \<Longrightarrow>
      vstate e' = Mapped \<and> as_ppage e' = Some pa"
    and dk: "disk_apart (M(a \<mapsto> sp\<lparr>start_page_table := ps @ e' # qs\<rparr>))"
  shows "vmok (M(a \<mapsto> sp\<lparr>start_page_table := ps @ e' # qs\<rparr>)) X' s"
proof -
  let ?sp = "sp\<lparr>start_page_table := ps @ e' # qs\<rparr>"
  have as: "as_ok s a sp" by (rule vmokD(2) [OF ok M])
  have b: "as_plain a ?sp = as_plain a sp" "as_wchans ?sp = as_wchans sp"
    using e'(1,2) by (simp_all add: as_plain_def as_wchans_def es pte_plain_def)
  have as': "as_ok s a ?sp" using as e'(3,4) unfolding as_ok_def b by (auto simp: ptes_ok_def es)
  have un: "unowned M {}" by (simp add: unowned_def)
  have fr: "as_frames (ps @ x # qs) = as_frames ps \<union> as_frames [x] \<union> as_frames qs" for x by (auto simp: as_frames_def)
  show ?thesis
  proof (rule vmok_upd_space [OF ok M as' _ un _ _ _ dk])
    show "as_frames (start_page_table sp) \<subseteq> as_frames (start_page_table ?sp) \<union> X'"
      using X by (auto simp: es fr)
    show "X \<subseteq> as_frames (start_page_table ?sp) \<union> X'" using X by (auto simp: fr)
    show "maps_to ?sp va pa" if "a = cur_as s" "maps_to sp va pa" "va \<in> fst ` set (tlb s)" for va pa
      using that tlb e'(3) by (auto simp: maps_to_def es)
  qed (simp add: b)
qed

lemma swap_io_none:
  assumes "set ios \<subseteq> {None :: errno option}"
  obtains ios' where "next_io ios = (None, ios')" "set ios' \<subseteq> {None}"
  using assms by (cases ios) auto

lemma vmok_swap_io: "vmok M X s \<Longrightarrow> set ios \<subseteq> {None} \<Longrightarrow> vmok M X (s\<lparr>swap_io := ios\<rparr>)"
proof -
  assume ok: "vmok M X s" and ios: "set ios \<subseteq> {None}"
  let ?s = "s\<lparr>swap_io := ios\<rparr>"
  have "as_ok ?s = as_ok s" by (rule as_ok_cong) (simp_all add: wchans_def)
  moreover have "kobj_ok ?s = kobj_ok s" by (simp add: kobj_ok_def wchans_def)
  ultimately show ?thesis using ok ios by (simp add: vmok_def tlb_ok_def)
qed

lemma disk_read_ok:
  assumes ok: "vmok M X s" and b: "b < length (coremap (kh s))" "state (coremap (kh s) ! b) \<noteq> Fixed"
  obtains ios where "disk_read (b * PAGE_SIZE) off s =
      (None, s\<lparr>swap_io := ios, kh := (kh s)\<lparr>ram := page_in (b * PAGE_SIZE) off s\<rparr>\<rparr>)"
    "vmok M X (s\<lparr>swap_io := ios, kh := (kh s)\<lparr>ram := page_in (b * PAGE_SIZE) off s\<rparr>\<rparr>)"
proof -
  obtain ios where ios: "next_io (swap_io s) = (None, ios)" "set ios \<subseteq> {None}" by (rule swap_io_none [OF vmokD(5) [OF ok]])
  let ?s = "s\<lparr>swap_io := ios\<rparr>"
  have "vmok M X (?s\<lparr>kh := (kh ?s)\<lparr>ram := page_in (b * PAGE_SIZE) off s\<rparr>\<rparr>)"
    by (rule vmok_ram [OF vmok_swap_io [OF ok ios(2)]]) (use b in \<open>auto simp: page_in_def\<close>)
  moreover have "disk_read (b * PAGE_SIZE) off s = (None, ?s\<lparr>kh := (kh ?s)\<lparr>ram := page_in (b * PAGE_SIZE) off s\<rparr>\<rparr>)"
    using ios(1) by (simp add: disk_read_def)
  ultimately show thesis using that by simp
qed

lemma pte_swapped:
  assumes "vmok M X s" "pte_ok s a e" "vstate e = Swapped"
  obtains b d where "swap_bitmap s = Some b" "diskpage_location e = Some d" "d \<in> bitmap_used b" "bitmap_isset b d = Some True"
    "unat (swap_offset d) = d * PAGE_SIZE"
proof -
  from assms(2,3) obtain b d where bd: "swap_bitmap s = Some b" "diskpage_location e = Some d" "d \<in> bitmap_used b"
    by (auto simp: pte_ok_def swap_used_def split: option.splits)
  have d: "d < nbits b" "nbits b \<le> 1048576" using bd(3) vmokD(7) [OF assms(1) bd(1)] by (auto simp: bitmap_used_def)
  have "d * PAGE_SIZE < 4294967296" using d by simp
  then have "unat (swap_offset d) = d * PAGE_SIZE" using d unat_of_nat_u32 [of d] by (simp add: swap_offset_def unat_word_ariths)
  moreover have "bitmap_isset b d = Some True" using bm.isset_ok [OF vmokD(6) [OF assms(1) bd(1)] d(1)] bd(3) by simp
  ultimately show thesis using that bd by blast
qed

lemma fault_existing_ok:
  assumes ok: "vm_ok s" and a: "aspaces s a = Some sp" and es: "start_page_table sp = ps @ e # qs"
  obtains (mapped) i where "fault_existing a (as_vpage e) (length ps) e s = Some (Inr (i * PAGE_SIZE), s)" "vstate e = Mapped"
      "as_ppage e = Some (i * PAGE_SIZE)" "owns_frame (coremap (kh s)) a (as_vpage e) i"
  | (nomem) "fault_existing a (as_vpage e) (length ps) e s = Some (Inl ENOMEM, s)"
  | (fetched) i d s' where "fault_existing a (as_vpage e) (length ps) e s = Some (Inr (i * PAGE_SIZE), s')" "vstate e = Swapped"
      "diskpage_location e = Some d" "vm_ok s'" "kroom s' = kroom s" "uframe {} (kh s) (kh s')"
      "aspaces s' = (aspaces s)(a \<mapsto> sp\<lparr>start_page_table := ps @ e\<lparr>as_ppage := Some (i * PAGE_SIZE), vstate := Mapped\<rparr> # qs\<rparr>)"
      "owns_frame (coremap (kh s')) a (as_vpage e) i" "\<not> user_page (coremap (kh s) ! i)" "cur_as s' = cur_as s" "tlb s' = tlb s"
      "\<And>x. x < PAGE_SIZE \<Longrightarrow> ram (kh s') (i * PAGE_SIZE + x) = swap_data s (d * PAGE_SIZE + x)"
      "swap_data s' = swap_data s"
proof -
  have pe: "pte_ok s a e" using vmokD(2) [OF ok a] es by (simp add: as_ok_def ptes_ok_def)
  show thesis
  proof (cases "vstate e = Mapped")
    case True
    obtain i where "as_ppage e = Some (i * PAGE_SIZE)" "owns_frame (coremap (kh s)) a (as_vpage e) i"
      by (rule pte_ok_frame [OF pe True])
    then show ?thesis using that(1) True by (simp add: fault_existing_def)
  next
    case False
    then have sw: "vstate e = Swapped" using pe by (cases "vstate e") (auto simp: pte_ok_def)
    obtain bm d where bd: "swap_bitmap s = Some bm" "diskpage_location e = Some d" "d \<in> bitmap_used bm" "bitmap_isset bm d = Some True"
      "unat (swap_offset d) = d * PAGE_SIZE" by (rule pte_swapped [OF ok pe sw])
    from vmok_heap(3) [OF ok] show ?thesis
    proof (cases rule: allocate_user_page_cases [of _ "unat a" "as_vpage e" False])
      case full
      then show ?thesis using that(2) sw by (simp add: fault_existing_def)
    next
      case (got b)
      let ?h = "upage_taken b (unat a) (as_vpage e) False (kh s)" let ?s1 = "s\<lparr>kh := ?h\<rparr>"
      have ok1: "vmok (aspaces s) {b} ?s1" using vmok_take_page [OF ok got(2-4)] by simp
      note uk = uchange_kobj [OF vmokD(1) [OF ok] uchange_upage_taken [OF vmok_heap(3) [OF ok] got(2-4)]]
      obtain ios where rd: "disk_read (b * PAGE_SIZE) (swap_offset d) ?s1 =
          (None, ?s1\<lparr>swap_io := ios, kh := ?h\<lparr>ram := page_in (b * PAGE_SIZE) (swap_offset d) ?s1\<rparr>\<rparr>)"
        "vmok (aspaces s) {b} (?s1\<lparr>swap_io := ios, kh := ?h\<lparr>ram := page_in (b * PAGE_SIZE) (swap_offset d) ?s1\<rparr>\<rparr>)"
        by (rule disk_read_ok [OF ok1, of b]) (use got(3) in simp_all)
      define s2 where "s2 = ?s1\<lparr>swap_io := ios, kh := ?h\<lparr>ram := page_in (b * PAGE_SIZE) (swap_offset d) ?s1\<rparr>\<rparr>"
      let ?e = "e\<lparr>as_ppage := Some (b * PAGE_SIZE), vstate := Mapped\<rparr>"
      let ?sp = "sp\<lparr>start_page_table := ps @ ?e # qs\<rparr>" let ?M = "(aspaces s)(a \<mapsto> ?sp)"
      have own: "owns_frame (coremap (kh s2)) a (as_vpage e) b" using got(3) by (simp add: owns_frame_def s2_def)
      have ok2: "vmok ?M {} s2"
      proof (rule vmok_replace_pte [OF rd(2) [folded s2_def] a es])
        show "pte_ok s2 a ?e" using pe own by (auto simp: pte_ok_def)
        show "disk_apart ?M" by (rule disk_apart_sub [OF vmokD(4) [OF ok]]) (use a es in auto)
      qed (use sw in \<open>auto simp: as_frames_def\<close>)
      have bm2: "swap_bitmap s2 = Some bm" using bd(1) by (simp add: s2_def)
      have dist: "as_vpage e \<notin> as_vpage ` (set ps \<union> set qs)" using vmokD(2) [OF ok a] es by (auto simp: as_ok_def ptes_ok_def)
      have free: "d \<notin> as_disk (start_page_table sb)" if sb: "?M c = Some sb" for c sb
      proof
        assume "d \<in> as_disk (start_page_table sb)"
        then obtain x where x: "x \<in> set (start_page_table sb)" "vstate x = Swapped" "diskpage_location x = Some d" by (auto simp: as_disk_def)
        have "\<exists>sc. aspaces s c = Some sc \<and> x \<in> set (start_page_table sc) \<and> (c = a \<longrightarrow> x \<in> set ps \<union> set qs)"
          using sb x(1,2) a es by (cases "c = a") auto
        then obtain sc where sc: "aspaces s c = Some sc" "x \<in> set (start_page_table sc)" "c = a \<longrightarrow> x \<in> set ps \<union> set qs" by blast
        have "e \<in> set (start_page_table sp)" using es by simp
        then have "a = c \<and> as_vpage e = as_vpage x"
          using vmokD(4) [OF ok] a sc(1,2) sw x(2,3) bd(2) unfolding disk_apart_def by metis
        then show False using sc(3) dist by (metis imageI)
      qed
      obtain bm' where u: "bitmap_unmark bm d = Some bm'" "vmok ?M {} (s2\<lparr>swap_bitmap := Some bm'\<rparr>)"
        by (rule vmok_unmark [OF ok2 bm2 bd(3) free])
      let ?s3 = "s2\<lparr>swap_bitmap := Some bm'\<rparr>" let ?s = "set_as a ?sp ?s3"
      have "read_swap_disk (b * PAGE_SIZE) d True ?s1 = Some (Inr (), ?s3)"
        using bd(1,4) rd(1) u(1) by (simp add: read_swap_disk_def s2_def)
      moreover have "put_pte a (length ps) ?e ?s3 = Some ?s" using a es by (simp add: put_pte_def s2_def)
      ultimately have run: "fault_existing a (as_vpage e) (length ps) e s = Some (Inr (b * PAGE_SIZE), ?s)"
        using sw got(1,5) bd(2) by (simp add: fault_existing_def)
      have nu: "\<not> user_page (coremap (kh s) ! b)" using got(4) by (simp add: user_page_def)
      have "uframe {b} ?h (kh s2)" unfolding s2_def by (simp, rule uframe_ram) (auto simp: page_in_def)
      from uframe_fresh [OF uframe_trans [OF uframe_taken [OF got(3,4)] this] nu] have uf: "uframe {} (kh s) (kh s2)" by simp
      have asp: "aspaces ?s = ?M" by (simp add: set_as_def s2_def)
      have kr: "kroom ?s = kroom s" using uk(3) by (simp add: set_as_def s2_def roots_room_def)
      have rm: "ram (kh ?s) (b * PAGE_SIZE + x) = swap_data s (d * PAGE_SIZE + x)" if "x < PAGE_SIZE" for x
        using that bd(5) by (simp add: set_as_def s2_def page_in_def)
      have vs: "vm_ok ?s" using u(2) unfolding asp by (simp add: set_as_def)
      show ?thesis
        by (rule that(3) [OF run sw bd(2) vs kr _ asp _ nu _ _ rm]) (use uf own in \<open>simp_all add: set_as_def s2_def\<close>)
    qed
  qed
qed

end
