(* ===== verification/Vmfault.thy ===== *)
theory Vmfault
  imports Vmsys
begin

text \<open>
  Page faults, eviction and the operations on whole address spaces, over the invariant of \<open>Vmsys\<close>.
\<close>

section \<open>The TLB\<close>

lemma unat_TLBHI_INVALID:
  assumes "i < NUM_TLB"
  shows "unat (TLBHI_INVALID i) = 2147483648 + i * 4096"
proof -
  have "unat (of_nat i :: u32) = i" by (rule unat_of_nat_u32) (use assms in linarith)
  then show ?thesis using assms by (simp add: TLBHI_INVALID_def push_bit_eq_mult unat_word_ariths)
qed

lemma TLBHI_INVALID_kernel: "i < NUM_TLB \<Longrightarrow> va < MIPS_KSEG0 \<Longrightarrow> TLBHI_INVALID i \<noteq> va"
  using unat_TLBHI_INVALID [of i] by (auto simp: word_less_nat_alt)

text \<open>A change of the TLB alone.\<close>

lemma vmok_tlb:
  assumes "vmok M X s" "tlb_ok M (s\<lparr>tlb := t\<rparr>)"
  shows "vmok M X (s\<lparr>tlb := t\<rparr>)"
proof -
  let ?s = "s\<lparr>tlb := t\<rparr>"
  have "as_ok ?s = as_ok s" by (rule as_ok_cong) (simp_all add: wchans_def)
  moreover have "kobj_ok ?s = kobj_ok s" by (simp add: kobj_ok_def wchans_def)
  ultimately show ?thesis using assms by (simp add: vmok_def)
qed

lemma tlb_ok_upd:
  assumes t: "tlb_ok M s" and j: "j < NUM_TLB"
    and e: "\<And>sp. M (cur_as s) = Some sp \<Longrightarrow> e = (TLBHI_INVALID j, 0) \<or> (\<exists>va pa. maps_to sp va pa \<and> e = tlb_entry va pa)"
    and d: "\<And>i. i < NUM_TLB \<Longrightarrow> i \<noteq> j \<Longrightarrow> fst (tlb s ! i) \<noteq> fst e"
  shows "tlb_ok M (s\<lparr>tlb := (tlb s)[j := e]\<rparr>)"
proof (cases "cur_as s = 0")
  case True
  then show ?thesis using t by (simp add: tlb_ok_def)
next
  case False
  then obtain sp where sp: "M (cur_as s) = Some sp" and len: "length (tlb s) = NUM_TLB" and di: "distinct (map fst (tlb s))"
    and en: "\<forall>j<NUM_TLB. tlb s ! j = (TLBHI_INVALID j, 0) \<or> (\<exists>va pa. maps_to sp va pa \<and> tlb s ! j = tlb_entry va pa)"
    using t unfolding tlb_ok_def by blast
  have "distinct (map fst ((tlb s)[j := e]))"
    unfolding distinct_conv_nth
  proof (intro allI impI)
    fix x y assume x: "x < length (map fst ((tlb s)[j := e]))" and y: "y < length (map fst ((tlb s)[j := e]))" "x \<noteq> y"
    have "fst (tlb s ! x) \<noteq> fst (tlb s ! y)" using di x y by (simp add: distinct_conv_nth)
    then show "map fst ((tlb s)[j := e]) ! x \<noteq> map fst ((tlb s)[j := e]) ! y"
      using x y len d [of x] d [of y] by (cases "x = j"; cases "y = j"; simp)
  qed
  moreover have "(tlb s)[j := e] ! i = (TLBHI_INVALID i, 0) \<or> (\<exists>va pa. maps_to sp va pa \<and> (tlb s)[j := e] ! i = tlb_entry va pa)"
    if "i < NUM_TLB" for i using that en e [OF sp] len by (cases "i = j") simp_all
  ultimately show ?thesis using sp len by (simp add: tlb_ok_def)
qed

lemma tlb_insert_ok:
  assumes ok: "vmok M X s" and rnd: "rnd < NUM_TLB" and va: "va \<notin> fst ` set (tlb s)"
    and sp: "\<And>sp. M (cur_as s) = Some sp \<Longrightarrow> maps_to sp va pa"
  obtains j where "tlb_insert rnd va pa s = Some (s\<lparr>tlb := (tlb s)[j := tlb_entry va pa]\<rparr>)" "j < NUM_TLB"
    "vmok M X (s\<lparr>tlb := (tlb s)[j := tlb_entry va pa]\<rparr>)"
    "(\<exists>i<NUM_TLB. snd (tlb s ! i) AND TLBLO_VALID = 0) \<longrightarrow> snd (tlb s ! j) AND TLBLO_VALID = 0"
proof -
  have len: "length (tlb s) = NUM_TLB" using vmokD(3) [OF ok] by (simp add: tlb_ok_def)
  define j where "j = (case find (\<lambda>i. snd (tlb s ! i) AND TLBLO_VALID = 0) [0..<NUM_TLB] of Some i \<Rightarrow> i | None \<Rightarrow> rnd)"
  have j: "j < NUM_TLB"
    using rnd unfolding j_def by (auto simp: find_Some_iff split: option.split)
  have run: "tlb_insert rnd va pa s = Some (s\<lparr>tlb := (tlb s)[j := tlb_entry va pa]\<rparr>)"
    using j len unfolding j_def
    by (auto simp: tlb_insert_def tlb_write_def tlb_entry_def Let_def wr_def split: option.splits)
  have "fst (tlb s ! i) \<noteq> fst (tlb_entry va pa)" if "i < NUM_TLB" for i
    using va that len by (metis fst_conv image_eqI nth_mem tlb_entry_def)
  then have "tlb_ok M (s\<lparr>tlb := (tlb s)[j := tlb_entry va pa]\<rparr>)"
    by (intro tlb_ok_upd [OF vmokD(3) [OF ok] j]) (use sp in blast)+
  moreover have "(\<exists>i<NUM_TLB. snd (tlb s ! i) AND TLBLO_VALID = 0) \<longrightarrow> snd (tlb s ! j) AND TLBLO_VALID = 0"
    unfolding j_def by (auto simp: find_Some_iff find_None_iff split: option.split)
  ultimately show thesis using that run j vmok_tlb [OF ok] by blast
qed

section \<open>Page states\<close>

text \<open>A coremap that differs only in reference bits and in which user pages are under eviction.\<close>

definition cm_similar :: "coremap_page list \<Rightarrow> coremap_page list \<Rightarrow> bool" where
  "cm_similar cm cm' \<longleftrightarrow> length cm' = length cm \<and> (\<forall>i<length cm. chunk_size (cm' ! i) = chunk_size (cm ! i)
     \<and> (state (cm' ! i) = state (cm ! i) \<or> {state (cm ! i), state (cm' ! i)} \<subseteq> {Used, In_eviction}))"

lemma cm_similarD:
  assumes "cm_similar cm cm'" "i < length cm"
  shows "chunk_size (cm' ! i) = chunk_size (cm ! i)" "state (cm' ! i) = Fixed \<longleftrightarrow> state (cm ! i) = Fixed"
    "state (cm' ! i) = Free \<longleftrightarrow> state (cm ! i) = Free"
    "state (cm' ! i) = state (cm ! i) \<or> {state (cm ! i), state (cm' ! i)} \<subseteq> {Used, In_eviction}"
  using assms by (fastforce simp: cm_similar_def)+

lemma cm_ok_similar:
  assumes ok: "cm_ok st cm" and sim: "cm_similar cm cm'"
  shows "cm_ok st cm'" "taken st cm' = taken st cm"
proof -
  have len: "length cm' = length cm" using sim by (simp add: cm_similar_def)
  show "taken st cm' = taken st cm" using cm_similarD(3) [OF sim] by (auto simp: taken_def len)
  have "page_ok st cm' i" if i: "i < length cm" for i
  proof -
    note D = cm_similarD [OF sim i]
    have ok: "page_ok st cm i" using ok i by (simp add: cm_ok_def)
    consider "i < st" | "st \<le> i" "state (cm ! i) = Fixed" "chunk_size (cm ! i) = 0" | "st \<le> i" "state (cm ! i) = Fixed" "chunk_size (cm ! i) \<noteq> 0"
      | "st \<le> i" "state (cm ! i) \<noteq> Fixed" by linarith
    then show ?thesis
    proof cases
      case 2
      then obtain h where "h < i" "st \<le> h" "state (cm ! h) = Fixed" "i < h + chunk_size (cm ! h)"
        using ok by (auto simp: page_ok_def)
      then show ?thesis using 2 D(1,2) cm_similarD(1,2) [OF sim, of h] i by (auto simp: page_ok_def)
    next
      case 3
      then have c: "i + chunk_size (cm ! i) \<le> length cm"
        "\<forall>j<chunk_size (cm ! i). 0 < j \<longrightarrow> state (cm ! (i + j)) = Fixed \<and> chunk_size (cm ! (i + j)) = 0"
        using ok by (auto simp: page_ok_def Let_def)
      have "state (cm' ! (i + j)) = Fixed \<and> chunk_size (cm' ! (i + j)) = 0" if "j < chunk_size (cm ! i)" "0 < j" for j
        using that c cm_similarD(1,2) [OF sim, of "i + j"] by simp
      then show ?thesis using 3 D(1,2) c(1) len by (simp add: page_ok_def)
    next
      case 4
      then show ?thesis using D ok by (auto simp: page_ok_def split: page_state.splits)
    qed (use ok D(1,2) in \<open>simp add: page_ok_def Let_def\<close>)
  qed
  then show "cm_ok st cm'" by (simp add: cm_ok_def len)
qed

lemma uchange_similar:
  assumes ok: "coremap_ok h" and sim: "cm_similar (coremap h) cm'"
    and fx: "\<And>i. i < length (coremap h) \<Longrightarrow> state (coremap h ! i) = Fixed \<Longrightarrow> cm' ! i = coremap h ! i"
  shows "uchange h (h\<lparr>coremap := cm'\<rparr>)" "uchange h (h\<lparr>coremap := cm', eviction_pointer := k\<rparr>)"
  using ok fx cm_ok_similar [OF _ sim] sim by (simp_all add: uchange_def coremap_ok_def cm_similar_def)

lemma set_ref_bit_ok:
  assumes ok: "vmok M X s" and i: "owns_frame (coremap (kh s)) a va i"
  obtains h' where "set_ref_bit (i * PAGE_SIZE) s = Some (s\<lparr>kh := h'\<rparr>)" "vmok M X (s\<lparr>kh := h'\<rparr>)" "ram h' = ram (kh s)"
    "coremap h' = (coremap (kh s))[i := (coremap (kh s) ! i)\<lparr>ref_bit := True\<rparr>]" "kroom (s\<lparr>kh := h'\<rparr>) = kroom s"
proof -
  let ?h = "(kh s)\<lparr>coremap := (coremap (kh s))[i := (coremap (kh s) ! i)\<lparr>ref_bit := True\<rparr>]\<rparr>"
  have i': "i < length (coremap (kh s))" "state (coremap (kh s) ! i) = Used" using i by (auto simp: owns_frame_def)
  have u: "uchange (kh s) ?h"
    by (rule uchange_similar(1) [OF vmok_heap(3) [OF ok]]) (use i' in \<open>auto simp: cm_similar_def nth_list_update\<close>)
  have "vmok M X (s\<lparr>kh := ?h\<rparr>)"
    by (rule vmok_uchange [OF ok u]) (use i'(1) in \<open>auto simp: owns_frame_def nth_list_update split: if_splits\<close>)
  then show thesis using that [of ?h] i' uchange_kobj(3) [OF vmokD(1) [OF ok] u] by (simp add: set_ref_bit_def rd_def wr_def)
qed

section \<open>The memory a process sees\<close>

text \<open>The word at offset \<open>x\<close> of page \<open>va\<close>: from the frame of a mapped entry, from the swap disk for a swapped one, zero where no
  entry exists yet.\<close>

definition pte_word :: "vmsys \<Rightarrow> page_table_entry \<Rightarrow> nat \<Rightarrow> u32" where
  "pte_word s e x = (case vstate e of
     Mapped \<Rightarrow> (case as_ppage e of Some p \<Rightarrow> ram (kh s) (p + x) | None \<Rightarrow> 0)
   | Swapped \<Rightarrow> (case diskpage_location e of Some d \<Rightarrow> swap_data s (d * PAGE_SIZE + x) | None \<Rightarrow> 0)
   | Unmapped \<Rightarrow> 0)"

definition uview :: "vmsys \<Rightarrow> addrspace \<Rightarrow> vaddr \<Rightarrow> nat \<Rightarrow> u32" where
  "uview s sp va x = (case find (\<lambda>e. as_vpage e = va) (start_page_table sp) of
     Some e \<Rightarrow> if x < PAGE_SIZE then pte_word s e x else 0
   | None \<Rightarrow> 0)"

definition amem :: "vmsys \<Rightarrow> vaddr \<Rightarrow> (vaddr \<Rightarrow> nat \<Rightarrow> u32) option" where
  "amem s a = map_option (uview s) (aspaces s a)"

lemma find_vpage:
  assumes "distinct (map as_vpage es)" "e \<in> set es"
  shows "find (\<lambda>e'. as_vpage e' = as_vpage e) es = Some e"
  using assms by (induction es) auto

lemma uview_entry:
  assumes "distinct (map as_vpage (start_page_table sp))" "e \<in> set (start_page_table sp)" "x < PAGE_SIZE"
  shows "uview s sp (as_vpage e) x = pte_word s e x"
  using find_vpage [OF assms(1,2)] assms(3) by (simp add: uview_def)

lemma uview_none:
  assumes "va \<notin> as_vpage ` set (start_page_table sp)"
  shows "uview s sp va x = 0"
proof -
  have "find (\<lambda>e. as_vpage e = va) (start_page_table sp) = None" using assms by (auto simp: find_None_iff)
  then show ?thesis by (simp add: uview_def)
qed

lemma uview_cases:
  obtains "va \<notin> as_vpage ` set (start_page_table sp)"
  | e where "e \<in> set (start_page_table sp)" "as_vpage e = va"
  by blast

text \<open>Frames left alone keep the words.\<close>

lemma pte_word_frame:
  assumes e: "pte_ok s a e" and u: "uframe P (kh s) (kh s')" "P \<inter> as_frames [e] = {}"
    and d: "swap_data s' = swap_data s" and x: "x < PAGE_SIZE"
  shows "pte_word s' e x = pte_word s e x"
proof (cases "vstate e")
  case Mapped
  then obtain i where i: "as_ppage e = Some (i * PAGE_SIZE)" "owns_frame (coremap (kh s)) a (as_vpage e) i" "as_frames [e] = {i}"
    by (rule pte_ok_frame [OF e])
  have "i < length (coremap (kh s))" "user_page (coremap (kh s) ! i)" using i(2) by (auto simp: owns_frame_def user_page_def)
  then have "ram (kh s') (i * PAGE_SIZE + x) = ram (kh s) (i * PAGE_SIZE + x)"
    using u i(3) x unfolding uframe_def by simp
  then show ?thesis using Mapped i(1) by (simp add: pte_word_def)
qed (simp_all add: pte_word_def d split: option.split)

lemma uview_frame_ptes:
  assumes as: "\<forall>e\<in>set (start_page_table sp). pte_ok s a e" and u: "uframe P (kh s) (kh s')" "P \<inter> as_frames (start_page_table sp) = {}"
    and d: "swap_data s' = swap_data s"
  shows "uview s' sp = uview s sp"
proof -
  have "pte_word s' e x = pte_word s e x" if "e \<in> set (start_page_table sp)" "x < PAGE_SIZE" for e x
  proof (rule pte_word_frame [OF _ u(1) _ d that(2)])
    show "pte_ok s a e" using as that(1) by simp
    show "P \<inter> as_frames [e] = {}" using u(2) that(1) by (auto simp: as_frames_def)
  qed
  moreover have "e \<in> set (start_page_table sp)" if "find P (start_page_table sp) = Some e" for P e
    using that by (auto simp: find_Some_iff)
  ultimately show ?thesis by (auto simp: uview_def fun_eq_iff split: option.split)
qed

lemma uview_frame:
  assumes "as_ok s a sp" "uframe P (kh s) (kh s')" "P \<inter> as_frames (start_page_table sp) = {}" "swap_data s' = swap_data s"
  shows "uview s' sp = uview s sp"
  using assms by (intro uview_frame_ptes [of sp s a P]) (simp_all add: as_ok_def ptes_ok_def)

text \<open>An operation that rewrites one space and leaves all mapped frames and the disk alone.\<close>

lemma amem_upd:
  assumes ok: "vmok (aspaces s) X s" and u: "uframe {} (kh s) (kh s')" and d: "swap_data s' = swap_data s"
    and M: "aspaces s' = (aspaces s)(a := Some sp')"
  shows "amem s' = (amem s)(a := Some (uview s' sp'))"
proof
  fix b
  have "uview s' sb = uview s sb" if "aspaces s b = Some sb" for sb
    by (rule uview_frame [OF vmokD(2) [OF ok that] u _ d]) simp
  then show "amem s' b = ((amem s)(a := Some (uview s' sp'))) b" by (cases "aspaces s b") (auto simp: amem_def M)
qed

lemma amem_keep:
  assumes ok: "vmok (aspaces s) X s" and u: "uframe {} (kh s) (kh s')" and d: "swap_data s' = swap_data s"
    and M: "aspaces s' = aspaces s"
  shows "amem s' = amem s"
proof
  fix b
  have "uview s' sb = uview s sb" if "aspaces s b = Some sb" for sb
    by (rule uview_frame [OF vmokD(2) [OF ok that] u _ d]) simp
  then show "amem s' b = amem s b" by (cases "aspaces s b") (auto simp: amem_def M)
qed

section \<open>Page faults\<close>

lemma uview_append:
  assumes "distinct (map as_vpage (es @ [e]))"
  shows "uview s (sp\<lparr>start_page_table := es @ [e]\<rparr>) =
    (uview s (sp\<lparr>start_page_table := es\<rparr>))(as_vpage e := (\<lambda>x. if x < PAGE_SIZE then pte_word s e x else 0))"
proof -
  have "find (\<lambda>e'. as_vpage e' = va) (es @ [e]) =
      (if va = as_vpage e then Some e else find (\<lambda>e'. as_vpage e' = va) es)" for va
    using assms by (induction es) auto
  then show ?thesis by (auto simp: uview_def fun_eq_iff)
qed

lemma uview_replace:
  assumes "as_vpage e' = as_vpage e" "\<And>x. x < PAGE_SIZE \<Longrightarrow> pte_word s e' x = pte_word s e x"
  shows "uview s (sp\<lparr>start_page_table := ps @ e' # qs\<rparr>) = uview s (sp\<lparr>start_page_table := ps @ e # qs\<rparr>)"
proof -
  have "uview s (sp\<lparr>start_page_table := ps @ e' # qs\<rparr>) va x = uview s (sp\<lparr>start_page_table := ps @ e # qs\<rparr>) va x" for va x
    using assms by (induction ps) (auto simp: uview_def)
  then show ?thesis by (intro ext)
qed

text \<open>A new entry for a page of zeros, and an entry whose page has moved, are invisible to the process.\<close>

lemma amem_space: "aspaces s a = Some sp \<Longrightarrow> amem s a = Some (uview s sp)"
  by (simp add: amem_def)

lemma amem_new_entry:
  assumes ok: "vmok (aspaces s) X s" and u: "uframe {} (kh s) (kh s')" and d: "swap_data s' = swap_data s" and a: "aspaces s a = Some sp"
    and M: "aspaces s' = (aspaces s)(a \<mapsto> sp\<lparr>start_page_table := start_page_table sp @ [e]\<rparr>)"
    and e: "as_vpage e \<notin> as_vpage ` set (start_page_table sp)" "\<And>x. x < PAGE_SIZE \<Longrightarrow> pte_word s' e x = 0"
  shows "amem s' = amem s"
proof -
  have as: "as_ok s a sp" by (rule vmokD(2) [OF ok a])
  then have "distinct (map as_vpage (start_page_table sp @ [e]))" using e(1) by (auto simp: as_ok_def ptes_ok_def)
  from uview_append [OF this, of s' sp]
  have "uview s' (sp\<lparr>start_page_table := start_page_table sp @ [e]\<rparr>) = (uview s' sp)(as_vpage e := (\<lambda>x. 0))"
    using e(2) by (simp add: fun_eq_iff)
  also have "\<dots> = uview s' sp" using uview_none [OF e(1)] by (simp add: fun_eq_iff)
  also have "\<dots> = uview s sp" by (rule uview_frame [OF as u _ d]) simp
  finally have "uview s' (sp\<lparr>start_page_table := start_page_table sp @ [e]\<rparr>) = uview s sp" .
  with amem_upd [OF ok u d M] show ?thesis using amem_space [of s a sp, OF a] by (simp add: fun_upd_idem)
qed

lemma amem_moved_entry:
  assumes ok: "vmok (aspaces s) X s" and u: "uframe {} (kh s) (kh s')" and d: "swap_data s' = swap_data s" and a: "aspaces s a = Some sp"
    and es: "start_page_table sp = ps @ e # qs" and M: "aspaces s' = (aspaces s)(a \<mapsto> sp\<lparr>start_page_table := ps @ e' # qs\<rparr>)"
    and e: "as_vpage e' = as_vpage e" "\<And>x. x < PAGE_SIZE \<Longrightarrow> pte_word s' e' x = pte_word s e x"
  shows "amem s' = amem s"
proof -
  have as: "as_ok s a sp" by (rule vmokD(2) [OF ok a])
  then have pe: "pte_ok s a e" using es by (simp add: as_ok_def ptes_ok_def)
  have "uview s' (sp\<lparr>start_page_table := ps @ e' # qs\<rparr>) = uview s' (sp\<lparr>start_page_table := ps @ e # qs\<rparr>)"
    by (rule uview_replace) (use e pte_word_frame [OF pe u _ d] in simp_all)
  also have "\<dots> = uview s' sp" using es [symmetric] by simp
  also have "\<dots> = uview s sp" by (rule uview_frame [OF as u _ d]) simp
  finally have "uview s' (sp\<lparr>start_page_table := ps @ e' # qs\<rparr>) = uview s sp" .
  with amem_upd [OF ok u d M] show ?thesis using amem_space [of s a sp, OF a] by (simp add: fun_upd_idem)
qed

text \<open>The page is at hand: it goes into the TLB and its reference bit is set.\<close>

lemma fault_finish:
  assumes ok: "vm_ok s" and rnd: "rnd < NUM_TLB" and va: "va \<notin> fst ` set (tlb s)" and sp: "aspaces s (cur_as s) = Some sp"
    and m: "maps_to sp va (i * PAGE_SIZE)" and own: "owns_frame (coremap (kh s)) (cur_as s) va i"
  obtains s' where "(tlb_insert rnd va (i * PAGE_SIZE) s \<bind> set_ref_bit (i * PAGE_SIZE)) = Some s'" "vm_ok s'" "kroom s' = kroom s"
    "tlb_entry va (i * PAGE_SIZE) \<in> set (tlb s')" "aspaces s' = aspaces s" "cur_as s' = cur_as s" "amem s' = amem s"
    "ref_bit (coremap (kh s') ! i)" "owns_frame (coremap (kh s')) (cur_as s) va i"
proof -
  obtain j where j: "tlb_insert rnd va (i * PAGE_SIZE) s = Some (s\<lparr>tlb := (tlb s)[j := tlb_entry va (i * PAGE_SIZE)]\<rparr>)" "j < NUM_TLB"
    "vm_ok (s\<lparr>tlb := (tlb s)[j := tlb_entry va (i * PAGE_SIZE)]\<rparr>)"
    by (rule tlb_insert_ok [OF ok rnd va, of "i * PAGE_SIZE"]) (use sp m in auto)
  let ?s = "s\<lparr>tlb := (tlb s)[j := tlb_entry va (i * PAGE_SIZE)]\<rparr>"
  obtain h' where h: "set_ref_bit (i * PAGE_SIZE) ?s = Some (?s\<lparr>kh := h'\<rparr>)" "vm_ok (?s\<lparr>kh := h'\<rparr>)" "ram h' = ram (kh s)"
    "coremap h' = (coremap (kh s))[i := (coremap (kh s) ! i)\<lparr>ref_bit := True\<rparr>]" "kroom (?s\<lparr>kh := h'\<rparr>) = kroom s"
    using set_ref_bit_ok [OF j(3), of "cur_as s" va i] own by auto
  have il: "i < length (coremap (kh s))" using own by (simp add: owns_frame_def)
  then have "amem (?s\<lparr>kh := h'\<rparr>) = amem s"
    by (intro amem_keep [OF ok]) (use h(3,4) in \<open>auto simp: uframe_def nth_list_update user_page_def\<close>)
  moreover have "length (tlb s) = NUM_TLB" using vmokD(3) [OF ok] by (simp add: tlb_ok_def)
  ultimately show thesis using j(1,2) h own il
    by (intro that [of "?s\<lparr>kh := h'\<rparr>"]) (auto simp: set_update_memI owns_frame_def)
qed

lemma and_frame_le: "x AND PAGE_FRAME \<le> x" for x :: u32
  by (simp add: word_and_le2)

text \<open>A freed entry that is still linked: what is left of a failed fault.\<close>

definition dangling :: "addrspace \<Rightarrow> addrspace \<Rightarrow> bool" where
  "dangling sp sp' \<longleftrightarrow> (\<exists>e. pte_freed e \<and> vstate e = Unmapped \<and> as_vpage e \<notin> as_vpage ` set (start_page_table sp)
     \<and> sp' = sp\<lparr>start_page_table := start_page_table sp @ [e]\<rparr>)"

lemma vm_fault_ok:
  assumes ok: "vm_ok s" and room: "kroom s" and rnd: "rnd < NUM_TLB" and fa: "fa < MIPS_KSEG0"
    and tl: "fa AND PAGE_FRAME \<notin> fst ` set (tlb s)" and sp: "cur_as s \<noteq> 0" "aspaces s (cur_as s) = Some sp"
  obtains (efault) "vm_fault rnd fa s = Some (Inl EFAULT, s)" "\<not> valid_address (fa AND PAGE_FRAME) sp"
  | (enomem) s' where "vm_fault rnd fa s = Some (Inl ENOMEM, s')" "valid_address (fa AND PAGE_FRAME) sp" "amem s' = amem s"
      "vmok (aspaces s) {} s'" "aspaces s' = aspaces s \<or> (\<exists>sp'. dangling sp sp' \<and> aspaces s' = (aspaces s)(cur_as s \<mapsto> sp'))"
  | (mapped) s' sp' i where "vm_fault rnd fa s = Some (Inr (), s')" "valid_address (fa AND PAGE_FRAME) sp" "vm_ok s'" "amem s' = amem s" "kroom s'"
      "aspaces s' = (aspaces s)(cur_as s \<mapsto> sp')" "maps_to sp' (fa AND PAGE_FRAME) (i * PAGE_SIZE)"
      "tlb_entry (fa AND PAGE_FRAME) (i * PAGE_SIZE) \<in> set (tlb s')" "cur_as s' = cur_as s" "ref_bit (coremap (kh s') ! i)"
      "owns_frame (coremap (kh s')) (cur_as s) (fa AND PAGE_FRAME) i"
proof -
  let ?a = "cur_as s" and ?va = "fa AND PAGE_FRAME" and ?es = "start_page_table sp"
  have va: "?va < MIPS_KSEG0" "?va AND PAGE_FRAME = ?va"
    using fa and_frame_le [of fa] by (auto simp: and.assoc)
  have as: "as_ok s ?a sp" by (rule vmokD(2) [OF ok sp(2)])
  then have nf: "\<forall>e\<in>set ?es. \<not> pte_freed e" and di: "distinct (map as_vpage ?es)"
    by (auto simp: as_ok_def ptes_ok_def pte_ok_def)
  show thesis
  proof (cases "valid_address ?va sp")
    case False
    then show ?thesis using that(1) sp by (simp add: vm_fault_def Let_def)
  next
    case True
    from nf show ?thesis
    proof (cases rule: find_pte_cases [of _ ?va 0])
      case none
      have run: "vm_fault rnd fa s = (fault_new ?a ?va s \<bind> (\<lambda>(r, s1). case r of Inl e \<Rightarrow> Some (Inl e, s1)
          | Inr pa \<Rightarrow> do { s2 \<leftarrow> tlb_insert rnd ?va pa s1; s3 \<leftarrow> set_ref_bit pa s2; Some (Inr (), s3) }))"
        using sp True none(1) by (simp add: vm_fault_def Let_def)
      from ok room sp(2) va none(2) show ?thesis
      proof (cases rule: fault_new_ok)
        case (nomem s')
        have "aspaces s' = aspaces s" "amem s' = amem s"
          using kstep_more(1,5) [OF nomem(3)] uframe_kframe nomem(3) by (auto simp: kstep_def intro!: amem_keep [OF ok])
        then show ?thesis using that(2) [of s'] run nomem(1,2) True by simp
      next
        case (dangling e s')
        have "amem s' = amem s"
          by (rule amem_new_entry [OF ok uframe_kframe [OF dangling(6)] dangling(9) sp(2) dangling(5)])
            (use dangling(4,10) none(2) in \<open>simp_all add: pte_word_def\<close>)
        moreover have "dangling sp (sp\<lparr>start_page_table := ?es @ [e]\<rparr>)"
          unfolding dangling_def using dangling(3,4,10) none(2) by (intro exI [of _ e]) simp
        ultimately show ?thesis using that(2) [of s'] run dangling(1,2,5) True by simp blast
      next
        case (mapped i e s1)
        let ?sp = "sp\<lparr>start_page_table := ?es @ [e]\<rparr>"
        have am: "amem s1 = amem s"
          by (rule amem_new_entry [OF ok mapped(9) mapped(14) sp(2) mapped(7)])
            (use mapped(4-6,11) none(2) in \<open>simp_all add: pte_word_def\<close>)
        have m: "maps_to ?sp ?va (i * PAGE_SIZE)" using mapped(4-6) by (auto simp: maps_to_def)
        obtain s' where s': "(tlb_insert rnd ?va (i * PAGE_SIZE) s1 \<bind> set_ref_bit (i * PAGE_SIZE)) = Some s'" "vm_ok s'" "kroom s' = kroom s1"
          "tlb_entry ?va (i * PAGE_SIZE) \<in> set (tlb s')" "aspaces s' = aspaces s1" "cur_as s' = cur_as s1" "amem s' = amem s1"
          "ref_bit (coremap (kh s') ! i)" "owns_frame (coremap (kh s')) (cur_as s1) ?va i"
          by (rule fault_finish [OF mapped(2) rnd, of ?va ?sp i]) (use mapped(7,8,12,13) tl m in simp_all)
        have "vm_fault rnd fa s = Some (Inr (), s')" using run mapped(1) s'(1) by (auto split: bind_splits)
        then show ?thesis using that(3) [of s' ?sp i] True s'(2-9) am mapped(3,7,12) m by simp
      qed
    next
      case (found ps e qs)
      have run: "vm_fault rnd fa s = (fault_existing ?a (as_vpage e) (length ps) e s \<bind> (\<lambda>(r, s1). case r of Inl e \<Rightarrow> Some (Inl e, s1)
          | Inr pa \<Rightarrow> do { s2 \<leftarrow> tlb_insert rnd ?va pa s1; s3 \<leftarrow> set_ref_bit pa s2; Some (Inr (), s3) }))"
        using sp True found by (simp add: vm_fault_def Let_def)
      from ok sp(2) found(1) show ?thesis
      proof (cases rule: fault_existing_ok)
        case (mapped i)
        have m: "maps_to sp ?va (i * PAGE_SIZE)" using mapped(2,3) found(1,2) by (auto simp: maps_to_def)
        obtain s' where s': "(tlb_insert rnd ?va (i * PAGE_SIZE) s \<bind> set_ref_bit (i * PAGE_SIZE)) = Some s'" "vm_ok s'" "kroom s' = kroom s"
          "tlb_entry ?va (i * PAGE_SIZE) \<in> set (tlb s')" "aspaces s' = aspaces s" "cur_as s' = cur_as s" "amem s' = amem s"
          "ref_bit (coremap (kh s') ! i)" "owns_frame (coremap (kh s')) (cur_as s) ?va i"
          by (rule fault_finish [OF ok rnd tl sp(2) m]) (use mapped(4) found(2) in simp)
        have "vm_fault rnd fa s = Some (Inr (), s')" using run mapped(1) s'(1) by (auto split: bind_splits)
        then show ?thesis using that(3) [of s' sp i] True s'(2-9) m room sp(2) by (simp add: fun_upd_idem)
      next
        case nomem
        then show ?thesis using that(2) [of s] run True ok by simp
      next
        case (fetched i d s1)
        let ?e = "e\<lparr>as_ppage := Some (i * PAGE_SIZE), vstate := Mapped\<rparr>" let ?sp = "sp\<lparr>start_page_table := ps @ ?e # qs\<rparr>"
        have am: "amem s1 = amem s"
          by (rule amem_moved_entry [OF ok fetched(6) fetched(13) sp(2) found(1) fetched(7)])
            (use fetched(2,3,12) in \<open>simp_all add: pte_word_def\<close>)
        have m: "maps_to ?sp ?va (i * PAGE_SIZE)" using found(2) by (simp add: maps_to_def)
        obtain s' where s': "(tlb_insert rnd ?va (i * PAGE_SIZE) s1 \<bind> set_ref_bit (i * PAGE_SIZE)) = Some s'" "vm_ok s'" "kroom s' = kroom s1"
          "tlb_entry ?va (i * PAGE_SIZE) \<in> set (tlb s')" "aspaces s' = aspaces s1" "cur_as s' = cur_as s1" "amem s' = amem s1"
          "ref_bit (coremap (kh s') ! i)" "owns_frame (coremap (kh s')) (cur_as s1) ?va i"
          by (rule fault_finish [OF fetched(4) rnd, of ?va ?sp i]) (use fetched(7,8,10,11) found(2) tl m in simp_all)
        have "vm_fault rnd fa s = Some (Inr (), s')" using run fetched(1) s'(1) by (auto split: bind_splits)
        then show ?thesis using that(3) [of s' ?sp i] True s'(2-9) am fetched(5,7,10) m room by simp
      qed
    qed
  qed
qed

end
