(* ===== verification/Vmspace.thy ===== *)
theory Vmspace
  imports Vmfault
begin

text \<open>
  Operations on whole address spaces: what \<^verbatim>\<open>as_destroy\<close>, \<^verbatim>\<open>as_copy\<close> and \<^verbatim>\<open>sys_sbrk\<close> do to the memory the processes see.
\<close>

section \<open>Destroying a space\<close>

lemma frames_apart:
  assumes ok: "vmok M X s" and "M a = Some sp" "M b = Some sb" "a \<noteq> b"
  shows "as_frames (start_page_table sp) \<inter> as_frames (start_page_table sb) = {}"
proof -
  have own: "\<exists>va. owns_frame (coremap (kh s)) c va i" if "M c = Some sc" "i \<in> as_frames (start_page_table sc)" for c sc i
  proof -
    from that(2) obtain e where e: "e \<in> set (start_page_table sc)" "vstate e = Mapped" "as_ppage e = Some (i * PAGE_SIZE)"
      by (auto simp: as_frames_def)
    have "pte_ok s c e" using vmokD(2) [OF ok that(1)] e(1) by (simp add: as_ok_def ptes_ok_def)
    then show ?thesis using e by (auto simp: pte_ok_def)
  qed
  show ?thesis using own [OF assms(2)] own [OF assms(3)] owns_frame_inj assms(4) by blast
qed

lemma as_destroy_amem:
  assumes ok: "vm_ok s" and a: "aspaces s a = Some sp" "a \<noteq> cur_as s"
  obtains s' where "as_destroy a s = Some s'" "vm_ok s'" "aspaces s' = (aspaces s)(a := None)" "amem s' = (amem s)(a := None)"
    "lv s' = lv s - set (as_plain a sp @ as_wchans sp)" "cur_as s' = cur_as s" "tlb s' = tlb s" "kroom s \<longrightarrow> kroom s'"
proof -
  obtain s' where s': "as_destroy a s = Some s'" "vmok ((aspaces s)(a := None)) ({} - as_frames (start_page_table sp)) s'"
    "aspaces s' = (aspaces s)(a := None)"
    "lv s' = lv s - set (as_plain a sp @ as_wchans sp)"
    "uframe (as_frames (start_page_table sp)) (kh s) (kh s')" "kroom s \<longrightarrow> kroom s'" "cur_as s' = cur_as s" "tlb s' = tlb s"
    "swap_data s' = swap_data s"
    by (rule as_destroy_ok [OF ok a(1,1,2) space_addr_live(2) [OF ok a(1)]])
  have "amem s' b = ((amem s)(a := None)) b" for b
  proof (cases "aspaces s b")
    case (Some sb)
    have "uview s' sb = uview s sb" if "b \<noteq> a"
      by (rule uview_frame [OF vmokD(2) [OF ok Some] s'(5) _ s'(9)]) (rule frames_apart [OF ok a(1) Some], use that in simp)
    then show ?thesis using Some s'(3) by (simp add: amem_def)
  qed (use s'(3) in \<open>simp add: amem_def\<close>)
  then have am: "amem s' = (amem s)(a := None)" by blast
  show thesis by (rule that [OF s'(1) _ s'(3) am s'(4,7,8,6)]) (use s'(2,3) in simp)
qed

section \<open>Copying a space\<close>

text \<open>Where a copy ends when memory runs out: the half-built space is gone again and nothing else has changed.\<close>

definition space_gone :: "vaddr \<Rightarrow> vmsys \<Rightarrow> vmsys \<Rightarrow> bool" where
  "space_gone n s s' \<longleftrightarrow> vm_ok s' \<and> aspaces s' = (aspaces s)(n := None) \<and> amem s' = (amem s)(n := None)
     \<and> cur_as s' = cur_as s \<and> tlb s' = tlb s"

lemma space_gone_after:
  assumes "space_gone n s1 s'" "aspaces s1 = (aspaces s)(n := q)" "amem s1 = (amem s)(n := r)" "cur_as s1 = cur_as s" "tlb s1 = tlb s"
  shows "space_gone n s s'"
  using assms unfolding space_gone_def by (elim conjE) simp

lemma kstep_amem:
  assumes "vmok (aspaces s) X s" "kstep s s'"
  shows "amem s' = amem s"
  using assms(2) kstep_more [OF assms(2)] by (intro amem_keep [OF assms(1)]) (auto simp: kstep_def intro: uframe_kframe)

lemma destroy_new:
  assumes ok: "vm_ok s" and s1: "vmok (aspaces s) {} s1" "kstep s s1" and n: "aspaces s n = Some nsp" "n \<noteq> cur_as s"
  obtains s' where "as_destroy n s1 = Some s'" "space_gone n s s'"
proof -
  note mo = kstep_more [OF s1(2)]
  have ok1: "vm_ok s1" using s1(1) mo(1) by simp
  obtain s' where s': "as_destroy n s1 = Some s'" "vm_ok s'" "aspaces s' = (aspaces s1)(n := None)" "amem s' = (amem s1)(n := None)"
    "cur_as s' = cur_as s1" "tlb s' = tlb s1"
    by (rule as_destroy_amem [OF ok1, of n nsp]) (use mo(1,2) n in simp_all)
  then have "space_gone n s s'" using mo kstep_amem [OF ok s1(2)] by (simp add: space_gone_def)
  then show thesis using that s'(1) by blast
qed

text \<open>A new entry and its page, taken and not yet linked, are given up when memory runs out; the entry's own block is lost.\<close>

lemma lock_destroy_unowned:
  assumes ok: "vmok M X s" and bl: "blocks_ok s [p, lk_addr l, lk_name l] [lk_wchan l]"
    and un: "unowned M {p, lk_addr l, lk_name l, lk_wchan l}"
  obtains s' where "lock_destroy l s = Some s'" "vmok M X s'" "kstep s s'" "lv s' = lv s - {lk_addr l, lk_name l, lk_wchan l}"
proof -
  obtain s1 where 1: "lock_destroy l s = Some s1" "kstep s s1" "lv s1 = lv s - {lk_addr l, lk_name l, lk_wchan l}"
    "set (wchans s1) = set (wchans s) - {lk_wchan l}"
    by (rule lock_destroy_ok [OF vmokD(1) [OF ok], of l]) (use bl in \<open>auto simp: blocks_ok_def\<close>)
  have "vmok M X s1" by (rule vmok_kfree [OF ok 1(2,3) unowned_mono [OF un] 1(4)]) auto
  then show thesis using that 1(1-3) by blast
qed

text \<open>The page of an entry is copied into a fresh frame.\<close>

lemma fill_page_ok:
  assumes ok: "vmok M X s" and b: "b < length (coremap (kh s))" "state (coremap (kh s) ! b) \<noteq> Fixed" and e: "pte_ok s a e"
  obtains m ios where "fill_page (b * PAGE_SIZE) e s = Some (s\<lparr>swap_io := ios, kh := (kh s)\<lparr>ram := m\<rparr>\<rparr>)"
    "vmok M X (s\<lparr>swap_io := ios, kh := (kh s)\<lparr>ram := m\<rparr>\<rparr>)"
    "\<And>x. x < PAGE_SIZE \<Longrightarrow> m (b * PAGE_SIZE + x) = pte_word s e x"
    "\<And>x. x < b * PAGE_SIZE \<or> b * PAGE_SIZE + PAGE_SIZE \<le> x \<Longrightarrow> m x = ram (kh s) x"
proof (cases "vstate e = Mapped")
  case True
  then obtain i where i: "as_ppage e = Some (i * PAGE_SIZE)" by (rule pte_ok_frame [OF e])
  let ?m = "\<lambda>x. if b * PAGE_SIZE \<le> x \<and> x < b * PAGE_SIZE + PAGE_SIZE then ram (kh s) (i * PAGE_SIZE + (x - b * PAGE_SIZE)) else ram (kh s) x"
  have "vmok M X (s\<lparr>kh := (kh s)\<lparr>ram := ?m\<rparr>\<rparr>)" by (rule vmok_ram [OF ok b]) auto
  then have "vmok M X (s\<lparr>swap_io := swap_io s, kh := (kh s)\<lparr>ram := ?m\<rparr>\<rparr>)" by simp
  then show thesis using True i by (intro that [of ?m "swap_io s"]) (auto simp: fill_page_def copy_page_def pte_word_def)
next
  case False
  then have sw: "vstate e = Swapped" using e by (cases "vstate e") (auto simp: pte_ok_def)
  obtain bm d where bd: "swap_bitmap s = Some bm" "diskpage_location e = Some d" "bitmap_isset bm d = Some True"
    "unat (swap_offset d) = d * PAGE_SIZE" by (rule pte_swapped [OF ok e sw])
  obtain ios where r: "disk_read (b * PAGE_SIZE) (swap_offset d) s =
      (None, s\<lparr>swap_io := ios, kh := (kh s)\<lparr>ram := page_in (b * PAGE_SIZE) (swap_offset d) s\<rparr>\<rparr>)"
    "vmok M X (s\<lparr>swap_io := ios, kh := (kh s)\<lparr>ram := page_in (b * PAGE_SIZE) (swap_offset d) s\<rparr>\<rparr>)"
    by (rule disk_read_ok [OF ok b])
  show thesis by (rule that [OF _ r(2)]) (use sw bd r(1) in \<open>auto simp: fill_page_def read_swap_disk_def page_in_def pte_word_def\<close>)
qed

lemma not_user_before:
  assumes "kframe h h'" "b < length (coremap h')" "state (coremap h' ! b) = Free"
  shows "\<not> user_page (coremap h ! b)"
proof
  assume u: "user_page (coremap h ! b)"
  have "b < length (coremap h)" using assms(2) kframe_used(1) [OF assms(1)] by simp
  from kframe_user [OF assms(1) this u] show False using assms(3) u by (simp add: user_page_def)
qed

lemma uview_copied:
  assumes d: "distinct (map as_vpage (start_page_table osp))" "old \<in> set (start_page_table osp)"
    and w: "\<And>x. x < PAGE_SIZE \<Longrightarrow> f x = pte_word s old x"
  shows "(\<lambda>x. if x < PAGE_SIZE then f x else 0) = uview s osp (as_vpage old)"
  using find_vpage [OF d] w by (auto simp: uview_def fun_eq_iff)

text \<open>One round of the loop over the old page table.\<close>

lemma copy_pte_step:
  assumes ok: "vm_ok s" and room: "kroom s" and n: "aspaces s n = Some nsp" "n \<noteq> cur_as s" and a: "aspaces s a = Some osp"
    and old: "old \<in> set (start_page_table osp)" "as_vpage old \<notin> as_vpage ` set (start_page_table nsp)"
  obtains (fail) s' where "copy_ptes n (old # es) s = Some (Inl ENOMEM, s')" "space_gone n s s'"
  | (step) e s' where "copy_ptes n (old # es) s = copy_ptes n es s'" "vm_ok s'" "kroom s'"
      "aspaces s' = (aspaces s)(n \<mapsto> nsp\<lparr>start_page_table := start_page_table nsp @ [e]\<rparr>)" "as_vpage e = as_vpage old" "vstate e = Mapped"
      "amem s' = (amem s)(n \<mapsto> (uview s nsp)(as_vpage old := uview s osp (as_vpage old)))" "cur_as s' = cur_as s" "tlb s' = tlb s"
proof -
  have as: "as_ok s a osp" by (rule vmokD(2) [OF ok a])
  have po: "pte_ok s a old" and nf: "\<not> pte_freed old" using as old(1) by (auto simp: as_ok_def ptes_ok_def pte_ok_def)
  have destroy: thesis if "vmok (aspaces s) {} s1" "kstep s s1" "copy_ptes n (old # es) s = do { s2 \<leftarrow> as_destroy n s1; Some (Inl ENOMEM, s2) }" for s1
    by (rule destroy_new [OF ok that(1,2) n]) (use that(3) in \<open>auto intro!: fail\<close>)
  from ok room show thesis
  proof (cases rule: new_pte_blocks)
    case (nopte s1)
    show ?thesis by (rule destroy [OF nopte(2,3)]) (use nopte(1) nf in simp)
  next
    case (nolock p s1 s2 s3)
    show ?thesis by (rule destroy [OF nolock(5,6)]) (use nolock(1-4) nf in simp)
  next
    case (got p l s1 s2)
    note mo = kstep_more [OF got(5)] and g = got
    from vmok_heap(3) [OF got(4)] show ?thesis
    proof (cases rule: allocate_user_page_cases [of _ "unat n" "as_vpage old" True])
      case full
      obtain s3 where 3: "lock_destroy l s2 = Some s3" "vmok (aspaces s) {} s3" "kstep s2 s3"
        by (rule lock_destroy_unowned [OF got(4,7,10)])
      show ?thesis by (rule destroy [OF 3(2) kstep_trans [OF got(5) 3(3)]]) (use g(1-3) full(1) 3(1) nf in simp)
    next
      case (got b)
      let ?h = "upage_taken b (unat n) (as_vpage old) True (kh s2)" let ?s3 = "s2\<lparr>kh := ?h\<rparr>"
      have kf: "kframe (kh s) (kh s2)" using g(5) by (simp add: kstep_def)
      have ok3: "vmok (aspaces s) {b} ?s3" using vmok_take_page [OF g(4) got(2-4)] by simp
      note uk = uchange_kobj [OF vmokD(1) [OF g(4)] uchange_upage_taken [OF vmok_heap(3) [OF g(4)] got(2-4)]]
      have po3: "pte_ok ?s3 a old" using vmokD(2) [OF ok3 a] old(1) by (simp add: as_ok_def ptes_ok_def)
      obtain m ios where f: "fill_page (b * PAGE_SIZE) old ?s3 = Some (?s3\<lparr>swap_io := ios, kh := (kh ?s3)\<lparr>ram := m\<rparr>\<rparr>)"
        "vmok (aspaces s) {b} (?s3\<lparr>swap_io := ios, kh := (kh ?s3)\<lparr>ram := m\<rparr>\<rparr>)"
        "\<And>x. x < PAGE_SIZE \<Longrightarrow> m (b * PAGE_SIZE + x) = pte_word ?s3 old x"
        "\<And>x. x < b * PAGE_SIZE \<or> b * PAGE_SIZE + PAGE_SIZE \<le> x \<Longrightarrow> m x = ram (kh ?s3) x"
        by (rule fill_page_ok [OF ok3 _ _ po3, of b]) (use got(3) in simp_all)
      define s4 where "s4 = ?s3\<lparr>swap_io := ios, kh := (kh ?s3)\<lparr>ram := m\<rparr>\<rparr>"
      define e where "e = \<lparr>pte_addr = p, as_vpage = as_vpage old, as_ppage = Some (b * PAGE_SIZE), vpage_permission = vpage_permission old,
                         vstate = Mapped, diskpage_location = None, pte_lock = l, pte_freed = False\<rparr>"
      let ?sp = "nsp\<lparr>start_page_table := start_page_table nsp @ [e]\<rparr>" let ?s = "set_as n ?sp s4"
      have asp: "aspaces s4 = aspaces s" "aspaces ?s = (aspaces s)(n \<mapsto> ?sp)" by (simp_all add: s4_def set_as_def mo(1))
      have run: "copy_ptes n (old # es) s = copy_ptes n es ?s"
        using g(1-3) got(1,5) f(1) nf asp(1) n(1) by (simp add: s4_def e_def)
      have own: "owns_frame (coremap (kh s4)) n (as_vpage old) b" using got(3) by (simp add: owns_frame_def s4_def)
      have "vmok ((aspaces s)(n \<mapsto> ?sp)) ({b} - {b}) s4"
      proof (rule link_pte [OF f(2) [folded s4_def] n(1)])
        show "pte_ok s4 n e" using po own by (auto simp: pte_ok_def e_def)
        have "uchange (kh ?s3) ((kh ?s3)\<lparr>ram := m\<rparr>)"
          by (rule uchange_ram [OF vmok_heap(3) [OF ok3] _ _ f(4)]) (use got(3) in simp_all)
        from uchange_heap(2) [OF vmok_heap(1) [OF ok3] this] show "blocks_ok s4 (pte_plain e) [pte_wchan e]"
          using g(7) uk(2) by (simp add: blocks_ok_def pte_plain_def e_def s4_def wchans_def)
        show "unowned (aspaces s) (set (pte_blocks e))" using g(10) by (simp add: pte_blocks_def pte_plain_def e_def)
      qed (use old(2) in \<open>auto simp: e_def as_frames_def\<close>)
      then have ok': "vm_ok ?s" unfolding asp(2) by (simp add: set_as_def)
      have uf3: "uframe {} (kh s) (kh ?s3)" using uframe_trans [OF uframe_kframe [OF kf] uframe_taken [OF got(3,4)]] by simp
      have "uframe {b} (kh ?s3) (kh s4)" unfolding s4_def by (simp, rule uframe_ram) (use f(4) in simp)
      from uframe_fresh [OF uframe_trans [OF uf3 this] not_user_before [OF kf got(3,4)]]
      have uf: "uframe {} (kh s) (kh ?s)" by (simp add: set_as_def)
      have sd: "swap_data ?s = swap_data s" "swap_data ?s3 = swap_data s" by (simp_all add: set_as_def s4_def mo(5))
      have w: "pte_word ?s e x = pte_word s old x" if "x < PAGE_SIZE" for x
        using f(3) [OF that] pte_word_frame [OF po uf3 _ sd(2) that] by (simp add: pte_word_def e_def set_as_def s4_def)
      have di: "distinct (map as_vpage (start_page_table nsp @ [e]))" "distinct (map as_vpage (start_page_table osp))"
        using vmokD(2) [OF ok n(1)] as old(2) by (auto simp: as_ok_def ptes_ok_def e_def)
      have ve: "as_vpage e = as_vpage old" by (simp add: e_def)
      have "uview ?s ?sp = (uview s nsp)(as_vpage old := uview s osp (as_vpage old))"
        using uview_append [OF di(1), of ?s nsp] uview_frame [OF vmokD(2) [OF ok n(1)] uf _ sd(1)] ve
          uview_copied [of osp old "pte_word ?s e", OF di(2) old(1) w] by simp
      then have am: "amem ?s = (amem s)(n \<mapsto> (uview s nsp)(as_vpage old := uview s osp (as_vpage old)))"
        using amem_upd [OF ok uf sd(1) asp(2)] by simp
      have kr: "kroom ?s" using uk(3) g(6) by (simp add: set_as_def s4_def roots_room_def)
      show ?thesis by (rule step [OF run ok' kr asp(2) _ _ am]) (simp_all add: e_def set_as_def s4_def mo(2,3))
    qed
  qed
qed

declare copy_ptes.simps(2) [simp del]

lemma copy_ptes_ok:
  assumes "vm_ok s" "kroom s" "aspaces s n = Some nsp" "n \<noteq> cur_as s" "aspaces s a = Some osp" "a \<noteq> n"
    "set es \<subseteq> set (start_page_table osp)" "distinct (map as_vpage es)"
    "as_vpage ` set es \<inter> as_vpage ` set (start_page_table nsp) = {}"
  shows "(\<exists>s'. copy_ptes n es s = Some (Inl ENOMEM, s') \<and> space_gone n s s')
    \<or> (\<exists>s' es'. copy_ptes n es s = Some (Inr (), s') \<and> vm_ok s' \<and> kroom s'
      \<and> aspaces s' = (aspaces s)(n \<mapsto> nsp\<lparr>start_page_table := start_page_table nsp @ es'\<rparr>) \<and> map as_vpage es' = map as_vpage es
      \<and> amem s' = (amem s)(n \<mapsto> (\<lambda>va. if va \<in> as_vpage ` set es then uview s osp va else uview s nsp va))
      \<and> cur_as s' = cur_as s \<and> tlb s' = tlb s)"
    (is "?fail es s \<or> ?done es s nsp")
  using assms
proof (induction es arbitrary: s nsp)
  case Nil
  have "amem s = (amem s)(n \<mapsto> uview s nsp)" using amem_space [of s n nsp] Nil.prems(3) by (simp add: fun_upd_idem)
  then show ?case using Nil.prems by (auto simp: fun_upd_idem intro!: exI [of _ "[]"])
next
  case (Cons old es)
  have old: "old \<in> set (start_page_table osp)" "as_vpage old \<notin> as_vpage ` set (start_page_table nsp)" using Cons.prems(7,9) by auto
  from Cons.prems(1-5) old show ?case
  proof (cases rule: copy_pte_step [where es = es])
    case (fail s')
    then show ?thesis by blast
  next
    case (step e s1)
    let ?nsp = "nsp\<lparr>start_page_table := start_page_table nsp @ [e]\<rparr>"
    have v: "uview s1 osp = uview s osp" "uview s1 ?nsp = (uview s nsp)(as_vpage old := uview s osp (as_vpage old))"
      using arg_cong [OF step(7), of "\<lambda>f. f a"] arg_cong [OF step(7), of "\<lambda>f. f n"] Cons.prems(5,6) step(4)
      by (simp_all add: amem_def)
    have "?fail es s1 \<or> ?done es s1 ?nsp"
      by (rule Cons.IH [OF step(2,3)]) (use Cons.prems step(4,5,8) in auto)
    then show ?thesis
    proof
      assume "?fail es s1"
      then show ?thesis using step(1) space_gone_after [OF _ step(4,7-9)] by auto
    next
      assume "?done es s1 ?nsp"
      then obtain s' es' where s': "copy_ptes n es s1 = Some (Inr (), s')" "vm_ok s'" "kroom s'"
        "aspaces s' = (aspaces s1)(n \<mapsto> ?nsp\<lparr>start_page_table := start_page_table ?nsp @ es'\<rparr>)" "map as_vpage es' = map as_vpage es"
        "amem s' = (amem s1)(n \<mapsto> (\<lambda>va. if va \<in> as_vpage ` set es then uview s1 osp va else uview s1 ?nsp va))"
        "cur_as s' = cur_as s1" "tlb s' = tlb s1" by blast
      have "amem s' = (amem s)(n \<mapsto> (\<lambda>va. if va \<in> as_vpage ` set (old # es) then uview s osp va else uview s nsp va))"
        unfolding s'(6) step(7) v by (auto simp: fun_eq_iff)
      then have "?done (old # es) s nsp" using s'(1,4,5,7,8) step(1,4,5,8,9)
        by (intro exI [of _ s'] exI [of _ "e # es'"] conjI s'(2,3)) simp_all
      then show ?thesis ..
    qed
  qed
qed

text \<open>A region block joins a space.\<close>

lemma link_region:
  assumes ok: "vmok M X s" and M: "M a = Some sp" and r: "rg_addr r \<in> lv s - set (wchans s)" "unowned M {rg_addr r}"
  shows "vmok (M(a \<mapsto> sp\<lparr>start_region := start_region sp @ [r]\<rparr>)) X s"
proof -
  let ?sp = "sp\<lparr>start_region := start_region sp @ [r]\<rparr>"
  have as: "as_ok s a sp" by (rule vmokD(2) [OF ok M])
  have "rg_addr r \<notin> set (as_plain a sp @ as_wchans sp)" using r(2) M by (auto simp: unowned_def)
  then have as': "as_ok s a ?sp" using as r(1) by (auto simp: as_ok_def blocks_ok_def as_plain_def as_wchans_def)
  show ?thesis
  proof (rule vmok_upd_space [OF ok M as' _ r(2)])
    show "disk_apart (M(a \<mapsto> ?sp))" by (rule disk_apart_sub [OF vmokD(4) [OF ok]]) (use M in auto)
    show "X \<subseteq> as_frames (start_page_table ?sp) \<union> X" by blast
  qed (auto simp: as_plain_def as_wchans_def maps_to_def)
qed

lemma uview_regions [simp]: "uview s (sp\<lparr>start_region := rs\<rparr>) = uview s sp" "uview s (sp\<lparr>heap_start := h\<rparr>) = uview s sp"
  "uview s (sp\<lparr>heap_end := h\<rparr>) = uview s sp"
  by (simp_all add: uview_def fun_eq_iff)

lemma add_region_ok:
  assumes ok: "vm_ok s" and room: "kroom s" and a: "aspaces s a = Some sp"
  obtains (fail) s' where "obj_alloc 20 s = Some (0, s')" "vm_ok s'" "kstep s s'"
  | (got) p s1 where "obj_alloc 20 s = Some (p, s1)" "p \<noteq> 0" "aspaces s1 = aspaces s" "cur_as s1 = cur_as s" "tlb s1 = tlb s"
      "\<And>r s'. rg_addr r = p \<Longrightarrow> s' = set_as a (sp\<lparr>start_region := start_region sp @ [r]\<rparr>) s1 \<Longrightarrow> vm_ok s' \<and> kroom s' \<and> amem s' = amem s"
proof -
  have "(20 :: u32) < LARGEST_SUBPAGE_SIZE" by simp
  with vmokD(1) [OF ok] room show thesis
  proof (cases rule: obj_alloc_ok)
    case (fail s1)
    have "vmok (aspaces s) {} s1" by (rule vmok_kalloc [OF ok fail(2), of "{}" "{}"]) (simp_all add: fail)
    then show ?thesis using that(1) [of s1] fail kstep_more(1) [OF fail(2)] by simp
  next
    case (got p s1)
    note mo = kstep_more [OF got(3)]
    have ok1: "vmok (aspaces s) {} s1" by (rule vmok_kalloc [OF ok got(3), of "{p}" "{}"]) (use got in simp_all)
    have w: "p \<notin> set (wchans s1)" using vmokD(1) [OF ok] got(5,7) by (auto simp: kobj_ok_def)
    have "vm_ok s' \<and> kroom s' \<and> amem s' = amem s"
      if r: "rg_addr r = p" "s' = set_as a (sp\<lparr>start_region := start_region sp @ [r]\<rparr>) s1" for r s'
    proof -
      have M: "aspaces s' = (aspaces s)(a \<mapsto> sp\<lparr>start_region := start_region sp @ [r]\<rparr>)" using r(2) mo(1) by (simp add: set_as_def)
      have "vmok (aspaces s') {} s1" unfolding M
        by (rule link_region [OF ok1 a]) (use r(1) got(6) w fresh_addr(3) [OF ok got(5,2)] in simp_all)
      then have "vm_ok s'" by (simp add: r(2) set_as_def)
      moreover have uf: "uframe {} (kh s) (kh s')" "swap_data s' = swap_data s"
        using got(3) mo(5) uframe_kframe by (auto simp: r(2) set_as_def kstep_def)
      have "amem s' = (amem s)(a \<mapsto> uview s sp)"
        using amem_upd [OF ok uf M] uview_frame [OF vmokD(2) [OF ok a] uf(1) _ uf(2)] by simp
      ultimately show ?thesis using amem_space [of s a sp, OF a] got(4) by (simp add: fun_upd_idem r(2) set_as_def)
    qed
    then show ?thesis using got(1,2) mo(1-3) by (intro that(2) [of p s1])
  qed
qed

lemma copy_regions_ok:
  assumes "vm_ok s" "kroom s" "aspaces s n = Some nsp" "n \<noteq> cur_as s"
  shows "(\<exists>s'. copy_regions n rs s = Some (Inl ENOMEM, s') \<and> space_gone n s s')
    \<or> (\<exists>s' rs'. copy_regions n rs s = Some (Inr (), s') \<and> vm_ok s' \<and> kroom s'
      \<and> aspaces s' = (aspaces s)(n \<mapsto> nsp\<lparr>start_region := start_region nsp @ rs'\<rparr>)
      \<and> map (rg_addr_update (\<lambda>_. 0)) rs' = map (rg_addr_update (\<lambda>_. 0)) rs
      \<and> amem s' = amem s \<and> cur_as s' = cur_as s \<and> tlb s' = tlb s)" (is "?fail rs s \<or> ?done rs s nsp")
  using assms
proof (induction rs arbitrary: s nsp)
  case Nil
  then show ?case by (auto simp: fun_upd_idem intro!: exI [of _ "[]"])
next
  case (Cons r rs)
  from Cons.prems(1-3) show ?case
  proof (cases rule: add_region_ok)
    case (fail s1)
    have "vmok (aspaces s) {} s1" using fail(2) kstep_more(1) [OF fail(3)] by simp
    then obtain s' where "as_destroy n s1 = Some s'" "space_gone n s s'" by (rule destroy_new [OF Cons.prems(1) _ fail(3) Cons.prems(3,4)])
    then show ?thesis using fail(1) by simp
  next
    case (got p s1)
    let ?r = "r\<lparr>rg_addr := p\<rparr>" let ?nsp = "nsp\<lparr>start_region := start_region nsp @ [?r]\<rparr>" let ?s = "set_as n ?nsp s1"
    have g: "vm_ok ?s" "kroom ?s" "amem ?s = amem s" using got(6) [of ?r ?s] by simp_all
    have m: "aspaces ?s = (aspaces s)(n \<mapsto> ?nsp)" "cur_as ?s = cur_as s" "tlb ?s = tlb s" using got(3-5) by (simp_all add: set_as_def)
    have run: "copy_regions n (r # rs) s = copy_regions n rs ?s" using got(1-3) Cons.prems(3) by simp
    have "?fail rs ?s \<or> ?done rs ?s ?nsp" by (rule Cons.IH [OF g(1,2)]) (use m Cons.prems(4) in simp_all)
    then show ?thesis
    proof
      assume "?fail rs ?s"
      moreover have "amem ?s = (amem s)(n := amem s n)" using g(3) by simp
      note space_gone_after [OF _ m(1) this m(2,3)]
      ultimately show ?thesis unfolding run by blast
    next
      assume "?done rs ?s ?nsp"
      then obtain s' rs' where s': "copy_regions n rs ?s = Some (Inr (), s')" "vm_ok s'" "kroom s'"
        "aspaces s' = (aspaces ?s)(n \<mapsto> ?nsp\<lparr>start_region := start_region ?nsp @ rs'\<rparr>)"
        "map (rg_addr_update (\<lambda>_. 0)) rs' = map (rg_addr_update (\<lambda>_. 0)) rs" "amem s' = amem ?s" "cur_as s' = cur_as ?s" "tlb s' = tlb ?s" by blast
      then have "?done (r # rs) s nsp" using run m g(3)
        by (intro exI [of _ s'] exI [of _ "?r # rs'"] conjI s'(2,3)) (simp_all del: copy_regions.simps)
      then show ?thesis ..
    qed
  qed
qed

text \<open>The heap bounds of a space are only data.\<close>

lemma vmok_heap_bounds:
  assumes ok: "vmok M X s" and M: "M a = Some sp"
  shows "vmok (M(a \<mapsto> sp\<lparr>heap_start := h, heap_end := h'\<rparr>)) X s"
proof -
  let ?sp = "sp\<lparr>heap_start := h, heap_end := h'\<rparr>"
  have "as_ok s a ?sp" using vmokD(2) [OF ok M] by (simp add: as_ok_def as_plain_def as_wchans_def)
  then show ?thesis
  proof (rule vmok_upd_space [OF ok M])
    show "disk_apart (M(a \<mapsto> ?sp))" by (rule disk_apart_sub [OF vmokD(4) [OF ok]]) (use M in auto)
    show "unowned M {}" by (simp add: unowned_def)
    show "X \<subseteq> as_frames (start_page_table ?sp) \<union> X" by blast
  qed (auto simp: as_plain_def as_wchans_def maps_to_def)
qed

lemma set_heap_bounds:
  assumes ok: "vm_ok s" and a: "aspaces s a = Some sp" and s': "s' = set_as a (sp\<lparr>heap_start := h, heap_end := h'\<rparr>) s"
  shows "vm_ok s'" "amem s' = amem s" "kroom s' = kroom s" "aspaces s' = (aspaces s)(a \<mapsto> sp\<lparr>heap_start := h, heap_end := h'\<rparr>)"
proof -
  show M: "aspaces s' = (aspaces s)(a \<mapsto> sp\<lparr>heap_start := h, heap_end := h'\<rparr>)" by (simp add: s' set_as_def)
  show "vm_ok s'" unfolding M using vmok_heap_bounds [OF ok a] by (simp add: s' set_as_def)
  have "amem s' = (amem s)(a \<mapsto> uview s' sp)" using amem_upd [OF ok _ _ M] by (simp add: s' set_as_def)
  moreover have "uview s' sp = uview s sp" 
    by (rule uview_frame [OF vmokD(2) [OF ok a], of "{}"]) (simp_all add: s' set_as_def)
  ultimately show "amem s' = amem s" using amem_space [of s a sp, OF a] by (simp add: fun_upd_idem)
qed (simp add: s' set_as_def)

text \<open>A copy has the same layout and the same contents as the original, in frames of its own.\<close>

definition same_layout :: "addrspace \<Rightarrow> addrspace \<Rightarrow> bool" where
  "same_layout sp sp' \<longleftrightarrow> heap_start sp' = heap_start sp \<and> heap_end sp' = heap_end sp
     \<and> map (rg_addr_update (\<lambda>_. 0)) (start_region sp') = map (rg_addr_update (\<lambda>_. 0)) (start_region sp)
     \<and> map as_vpage (start_page_table sp') = map as_vpage (start_page_table sp)"

lemma as_copy_ok:
  assumes ok: "vm_ok s" and room: "kroom s" and a: "aspaces s a = Some osp"
  obtains (fail) s' where "as_copy a s = Some (Inl ENOMEM, s')" "vm_ok s'" "aspaces s' = aspaces s" "amem s' = amem s"
      "cur_as s' = cur_as s" "tlb s' = tlb s"
  | (copied) n nsp s' where "as_copy a s = Some (Inr n, s')" "n \<noteq> 0" "aspaces s n = None" "vm_ok s'" "kroom s'"
      "aspaces s' = (aspaces s)(n \<mapsto> nsp)" "same_layout osp nsp" "amem s' = (amem s)(n \<mapsto> uview s osp)"
      "cur_as s' = cur_as s" "tlb s' = tlb s"
proof -
  let ?empty = "\<lparr>start_region = [], start_page_table = [], heap_start = 0, heap_end = 0\<rparr>"
  from ok room show thesis
  proof (cases rule: as_create_ok)
    case (fail s1)
    show ?thesis by (rule that(1) [of s1]) (use fail kstep_more [OF fail(3)] kstep_amem [OF ok fail(3)] in \<open>simp_all add: as_copy_def\<close>)
  next
    case (got n s1)
    have na: "a \<noteq> n" using a got(8) by auto
    have am1: "amem s1 = (amem s)(n \<mapsto> (\<lambda>va x. 0))"
      using amem_upd [OF ok uframe_kframe [OF got(11)] got(13) got(7)] by (simp add: uview_def [abs_def])
    have es: "distinct (map as_vpage (start_page_table osp))" using vmokD(2) [OF ok a] by (simp add: as_ok_def ptes_ok_def)
    have idle: "(aspaces s)(n := None) = aspaces s" "(amem s)(n := None) = amem s"
      using got(8) by (simp_all add: fun_upd_idem amem_def)
    have nomem: thesis if "as_copy a s = Some (Inl ENOMEM, s')" "space_gone n s s'" for s'
      using that idle unfolding space_gone_def by (elim conjE, intro fail [of s']) simp_all
    have osp: "uview s1 osp = uview s osp"
      by (rule uview_frame [OF vmokD(2) [OF ok a] uframe_kframe [OF got(11)] _ got(13), of "{}"]) simp
    have n1: "aspaces s1 n = Some ?empty" "n \<noteq> cur_as s1" "aspaces s1 a = Some osp"
      "as_vpage ` set (start_page_table osp) \<inter> as_vpage ` set (start_page_table ?empty) = {}" using got na a by simp_all
    from copy_ptes_ok [OF got(3,4) n1(1-3) na subset_refl es n1(4)] show ?thesis
    proof (elim disjE exE conjE)
      fix s2 assume 2: "copy_ptes n (start_page_table osp) s1 = Some (Inl ENOMEM, s2)" "space_gone n s1 s2"
      show thesis by (rule nomem [OF _ space_gone_after [OF 2(2) got(7) am1 got(9,10)]]) (use got(1,2,7) a na 2(1) in \<open>simp add: as_copy_def\<close>)
    next
      fix s2 es' assume 2: "copy_ptes n (start_page_table osp) s1 = Some (Inr (), s2)" "vm_ok s2" "kroom s2"
        "aspaces s2 = (aspaces s1)(n \<mapsto> ?empty\<lparr>start_page_table := start_page_table ?empty @ es'\<rparr>)"
        "map as_vpage es' = map as_vpage (start_page_table osp)"
        "amem s2 = (amem s1)(n \<mapsto> (\<lambda>va. if va \<in> as_vpage ` set (start_page_table osp) then uview s1 osp va else uview s1 ?empty va))"
        "cur_as s2 = cur_as s1" "tlb s2 = tlb s1"
      let ?sp2 = "?empty\<lparr>start_page_table := es'\<rparr>"
      have M2: "aspaces s2 = (aspaces s)(n \<mapsto> ?sp2)" using 2(4) got(7) by simp
      have "(\<lambda>va. if va \<in> as_vpage ` set (start_page_table osp) then uview s1 osp va else uview s1 ?empty va) = uview s osp"
        using osp uview_none [of _ osp s] by (auto simp: fun_eq_iff uview_def)
      then have am2: "amem s2 = (amem s)(n \<mapsto> uview s osp)" using 2(6) am1 by simp
      have c2: "cur_as s2 = cur_as s" "tlb s2 = tlb s" using 2(7,8) got(9,10) by simp_all
      have n2: "aspaces s2 n = Some ?sp2" "n \<noteq> cur_as s2" using M2 c2 got(6) by simp_all
      from copy_regions_ok [OF 2(2,3) n2, of "start_region osp"] show thesis
      proof (elim disjE exE conjE)
        fix s3 assume 3: "copy_regions n (start_region osp) s2 = Some (Inl ENOMEM, s3)" "space_gone n s2 s3"
        show thesis by (rule nomem [OF _ space_gone_after [OF 3(2) M2 am2 c2]]) (use got(1,2,7) a na 2(1) 3(1) in \<open>simp add: as_copy_def\<close>)
      next
        fix s3 rs' assume 3: "copy_regions n (start_region osp) s2 = Some (Inr (), s3)" "vm_ok s3" "kroom s3"
          "aspaces s3 = (aspaces s2)(n \<mapsto> ?sp2\<lparr>start_region := start_region ?sp2 @ rs'\<rparr>)"
          "map (rg_addr_update (\<lambda>_. 0)) rs' = map (rg_addr_update (\<lambda>_. 0)) (start_region osp)" "amem s3 = amem s2"
          "cur_as s3 = cur_as s2" "tlb s3 = tlb s2"
        let ?sp3 = "?sp2\<lparr>start_region := rs'\<rparr>"
        let ?nsp = "?sp3\<lparr>heap_start := heap_start osp, heap_end := heap_end osp\<rparr>"
        have n3: "aspaces s3 n = Some ?sp3" using 3(4) by simp
        note hb = set_heap_bounds [OF 3(2) n3 refl, where h = "heap_start osp" and h' = "heap_end osp"]
        have run: "as_copy a s = Some (Inr n, set_as n ?nsp s3)"
          using got(1,2,7) a na 2(1) 3(1) n3 by (simp add: as_copy_def)
        have lay: "same_layout osp ?nsp" using 2(5) 3(5) by (simp add: same_layout_def)
        show thesis by (rule copied [OF run got(2,8) hb(1) _ _ lay])
            (use hb(2-4) 3 am2 M2 c2 in \<open>simp_all add: set_as_def\<close>)
      qed
    qed
  qed
qed

end
