(* ===== verification/Vmsbrk.thy ===== *)
theory Vmsbrk
  imports Vmspace
begin

text \<open>
  \<^verbatim>\<open>sys_sbrk\<close> (\<^verbatim>\<open>kern/syscall/proc_syscalls.c\<close>) over the invariant of \<open>Vmsys\<close>: which requests fail and how, and what growing
  and shrinking the heap do to the memory of the process and of all others.
\<close>

section \<open>Invalidating a translation\<close>

lemma TLBHI_INVALID_inj: "i < NUM_TLB \<Longrightarrow> j < NUM_TLB \<Longrightarrow> TLBHI_INVALID i = TLBHI_INVALID j \<Longrightarrow> i = j"
  by (drule arg_cong [of _ _ unat]) (simp add: unat_TLBHI_INVALID)

lemma tlb_slot_cases:
  assumes ok: "vmok M X s" and c: "cur_as s \<noteq> 0" and i: "i < NUM_TLB"
  obtains "fst (tlb s ! i) = TLBHI_INVALID i"
  | "fst (tlb s ! i) < MIPS_KSEG0" "fst (tlb s ! i) AND PAGE_FRAME = fst (tlb s ! i)"
proof -
  obtain sp where sp: "M (cur_as s) = Some sp"
    and en: "tlb s ! i = (TLBHI_INVALID i, 0) \<or> (\<exists>va pa. maps_to sp va pa \<and> tlb s ! i = tlb_entry va pa)"
    using vmokD(3) [OF ok] c i unfolding tlb_ok_def by blast
  show thesis
  proof (cases "tlb s ! i = (TLBHI_INVALID i, 0)")
    case False
    then obtain va pa where "maps_to sp va pa" "tlb s ! i = tlb_entry va pa" using en by blast
    then show ?thesis using vmokD(2) [OF ok sp] that(2)
      by (auto simp: maps_to_def as_ok_def ptes_ok_def pte_ok_def tlb_entry_def)
  qed (use that(1) in simp)
qed

lemma tlb_invalidate_ok:
  assumes ok: "vmok M X s" and c: "cur_as s \<noteq> 0" and va: "va < MIPS_KSEG0" "va AND PAGE_FRAME = va"
  obtains t where "tlb_invalidate_entry va s = Some (s\<lparr>tlb := t\<rparr>)" "vmok M X (s\<lparr>tlb := t\<rparr>)" "va \<notin> fst ` set t"
proof -
  have t: "tlb_ok M s" by (rule vmokD(3) [OF ok])
  have len: "length (tlb s) = NUM_TLB" and di: "distinct (map fst (tlb s))" using t c by (auto simp: tlb_ok_def)
  show thesis
  proof (cases "tlb_probe va s")
    case None
    have "va \<notin> fst ` set (tlb s)"
    proof
      assume "va \<in> fst ` set (tlb s)"
      then obtain j where "j < length (tlb s)" "fst (tlb s ! j) = va" by (auto simp: in_set_conv_nth)
      then show False using None by (auto simp: tlb_probe_def find_None_iff)
    qed
    then show ?thesis using that [of "tlb s"] None ok by (simp add: tlb_invalidate_entry_def)
  next
    case (Some i)
    then have i: "i < NUM_TLB" "fst (tlb s ! i) AND PAGE_FRAME = va" using len va(2) by (auto simp: tlb_probe_def find_Some_iff)
    have kern: "TLBHI_INVALID i AND PAGE_FRAME = TLBHI_INVALID i"
      unfolding TLBHI_INVALID_def frame_mask by (rule bit_eqI) (auto simp: bit_simps)
    from ok c i(1) have eq: "fst (tlb s ! i) = va"
    proof (cases rule: tlb_slot_cases)
      case 1
      then show ?thesis using i kern by simp
    next
      case 2
      then show ?thesis using i(2) by simp
    qed
    let ?t = "(tlb s)[i := (TLBHI_INVALID i, 0)]"
    have ne: "fst (tlb s ! j) \<noteq> TLBHI_INVALID i" if "j < NUM_TLB" "j \<noteq> i" for j
      using ok c that(1)
    proof (cases rule: tlb_slot_cases)
      case 1
      then show ?thesis using TLBHI_INVALID_inj [OF that(1) i(1)] that(2) by auto
    next
      case 2
      from TLBHI_INVALID_kernel [OF i(1) 2(1)] show ?thesis by simp
    qed
    have "tlb_ok M (s\<lparr>tlb := ?t\<rparr>)" by (rule tlb_ok_upd [OF t i(1)]) (use ne in auto)
    moreover have "fst (?t ! j) \<noteq> va" if "j < NUM_TLB" for j
      using that eq di len TLBHI_INVALID_kernel [OF i(1) va(1)] i(1) by (cases "j = i") (auto simp: distinct_conv_nth)
    then have "\<forall>x\<in>set ?t. fst x \<noteq> va" using len by (simp add: all_set_conv_all_nth)
    then have "va \<notin> fst ` set ?t" by auto
    ultimately show ?thesis using that [of ?t] vmok_tlb [OF ok] Some i(1) len
      by (simp add: tlb_invalidate_entry_def tlb_write_def wr_def)
  qed
qed

section \<open>Unlinking an entry\<close>

lemma blocks_ok_split:
  assumes "blocks_ok s (P @ B @ Q) (V @ w # W)"
  shows "blocks_ok s (P @ Q) (V @ W)" "blocks_ok s B [w]" "set (B @ [w]) \<inter> set ((P @ Q) @ (V @ W)) = {}"
  using assms by (auto simp: blocks_ok_def)

lemma unlink_pte:
  assumes ok: "vmok M X s" and M: "M a = Some sp" and es: "start_page_table sp = ps @ e # qs"
    and tl: "a = cur_as s \<Longrightarrow> vstate e = Mapped \<Longrightarrow> as_vpage e \<notin> fst ` set (tlb s)"
  defines "M' \<equiv> M(a \<mapsto> sp\<lparr>start_page_table := ps @ qs\<rparr>)"
  shows "vmok M' (X \<union> as_frames [e]) s" "detached M' s a [e]"
proof -
  let ?sp = "sp\<lparr>start_page_table := ps @ qs\<rparr>"
  have as: "as_ok s a sp" by (rule vmokD(2) [OF ok M])
  define P Q V W where "P = a # map rg_addr (start_region sp) @ concat (map pte_plain ps)" and "Q = concat (map pte_plain qs)"
    and "V = map pte_wchan ps" and "W = map pte_wchan qs"
  have sp: "as_plain a sp = P @ pte_plain e @ Q" "as_wchans sp = V @ pte_wchan e # W"
    and sp': "as_plain a ?sp = P @ Q" "as_wchans ?sp = V @ W"
    by (simp_all add: as_plain_def as_wchans_def es P_def Q_def V_def W_def)
  have "blocks_ok s (P @ pte_plain e @ Q) (V @ pte_wchan e # W)" using as unfolding as_ok_def sp by blast
  note bl = blocks_ok_split [OF this]
  have pe: "pte_ok s a e" and vp: "as_vpage e \<notin> as_vpage ` set (ps @ qs)" and po: "ptes_ok s a (ps @ qs)" "ptes_ok s a (e # ps @ qs)"
    using as by (auto simp: as_ok_def ptes_ok_def es)
  have as': "as_ok s a ?sp" unfolding as_ok_def sp' using bl(1) po(1) by simp
  have un: "unowned M {}" by (simp add: unowned_def)
  have da: "disk_apart M'" unfolding M'_def by (rule disk_apart_sub [OF vmokD(4) [OF ok]]) (use M es in auto)
  show "vmok M' (X \<union> as_frames [e]) s" unfolding M'_def
  proof (rule vmok_upd_space [OF ok M as' _ un _ _ _ da [unfolded M'_def]])
    show "maps_to ?sp va pa" if "a = cur_as s" "maps_to sp va pa" "va \<in> fst ` set (tlb s)" for va pa
      using that tl by (auto simp: maps_to_def es)
    show "set (as_plain a ?sp @ as_wchans ?sp) \<subseteq> set (as_plain a sp @ as_wchans sp) \<union> {}" unfolding sp sp' by auto
  qed (auto simp: es as_frames_def)
  have sub: "set (pte_blocks e) \<subseteq> set (as_plain a sp @ as_wchans sp)" unfolding sp pte_blocks_def by auto
  have own: "set (pte_blocks e) \<inter> set (as_plain a ?sp @ as_wchans ?sp) = {}" using bl(3) unfolding sp' pte_blocks_def .
  have spaces: "b = a \<and> sb = ?sp \<or> b \<noteq> a \<and> M b = Some sb" if "M' b = Some sb" for b sb
    using that by (auto simp: M'_def split: if_splits)
  have "unowned M' (set (pte_blocks e))" unfolding unowned_def
  proof (intro allI impI)
    fix b sb assume "M' b = Some sb"
    with spaces consider "b = a" "sb = ?sp" | "b \<noteq> a" "M b = Some sb" by blast
    then show "set (pte_blocks e) \<inter> set (as_plain b sb @ as_wchans sb) = {}"
    proof cases
      case 2
      from vmokD(8) [OF ok M 2(2)] 2(1) show ?thesis using sub by blast
    qed (use own in simp)
  qed
  moreover have "unmapped M' i" if "i \<in> as_frames [e]" for i unfolding unmapped_def
  proof (intro allI impI)
    fix b sb assume "M' b = Some sb"
    with spaces consider "b = a" "sb = ?sp" | "b \<noteq> a" "M b = Some sb" by blast
    then show "i \<notin> as_frames (start_page_table sb)"
    proof cases
      case 1
      from ptes_frames_apart [OF po(2)] show ?thesis using that 1 by auto
    next
      case 2
      have "as_frames [e] \<subseteq> as_frames (start_page_table sp)" by (auto simp: as_frames_def es)
      then show ?thesis using frames_apart [OF ok M 2(2)] 2(1) that by blast
    qed
  qed
  moreover have "d \<notin> as_disk (start_page_table sb)" if d: "d \<in> as_disk [e]" and b: "M' b = Some sb" for d b sb
  proof
    assume "d \<in> as_disk (start_page_table sb)"
    then obtain x where x: "x \<in> set (start_page_table sb)" "vstate x = Swapped" "diskpage_location x = Some d" by (auto simp: as_disk_def)
    obtain sc where sc: "M b = Some sc" "x \<in> set (start_page_table sc)" "b = a \<longrightarrow> x \<in> set (ps @ qs)"
      using spaces [OF b] x(1) M es by auto
    have "e \<in> set (start_page_table sp)" "vstate e = Swapped" "diskpage_location e = Some d" using d by (auto simp: es as_disk_def)
    then have "a = b \<and> as_vpage e = as_vpage x" using vmokD(4) [OF ok] M sc(1,2) x(2,3) unfolding disk_apart_def by metis
    then show False using sc(3) vp by (metis imageI)
  qed
  ultimately show "detached M' s a [e]" using bl(2) pe
    by (simp add: detached_def ptes_ok_def disk_inj_def)
qed

lemma uview_cong:
  assumes "kh s' = kh s" "swap_data s' = swap_data s"
  shows "uview s' = uview s"
proof -
  have "pte_word s' = pte_word s" unfolding pte_word_def assms ..
  then show ?thesis unfolding uview_def by (simp only:)
qed

lemma uview_unlink:
  assumes "distinct (map as_vpage (ps @ e # qs))" "start_page_table sp = ps @ e # qs"
  shows "uview s (sp\<lparr>start_page_table := ps @ qs\<rparr>) = (uview s sp)(as_vpage e := (\<lambda>x. 0))"
proof -
  have "find (\<lambda>e. as_vpage e = va) (ps @ qs) = (if va = as_vpage e then None else find (\<lambda>e. as_vpage e = va) (ps @ e # qs))" for va
    using assms(1) by (induction ps) (auto simp: find_None_iff image_iff)
  then show ?thesis by (simp add: uview_def assms(2) fun_eq_iff)
qed

lemma amem_upd_on:
  assumes ok: "vmok (aspaces s) X s" and u: "uframe P (kh s) (kh s')" and d: "swap_data s' = swap_data s"
    and P: "\<And>b sb. aspaces s b = Some sb \<Longrightarrow> b \<noteq> a \<Longrightarrow> P \<inter> as_frames (start_page_table sb) = {}"
    and M: "aspaces s' = (aspaces s)(a := Some sp')"
  shows "amem s' = (amem s)(a := Some (uview s' sp'))"
proof
  fix b
  have "uview s' sb = uview s sb" if "aspaces s b = Some sb" "b \<noteq> a" for sb
    by (rule uview_frame [OF vmokD(2) [OF ok that(1)] u P [OF that] d])
  then show "amem s' b = ((amem s)(a := Some (uview s' sp'))) b" by (cases "aspaces s b") (auto simp: amem_def M)
qed

text \<open>The page of an entry goes and its translation with it, then the entry is unlinked and freed.\<close>

lemma tlb_invalidate_kh: "tlb_invalidate_entry va (s\<lparr>kh := h\<rparr>) = map_option (\<lambda>s. s\<lparr>kh := h\<rparr>) (tlb_invalidate_entry va s)"
  by (simp add: tlb_invalidate_entry_def tlb_probe_def tlb_write_def wr_def split: option.split)

lemma release_pte_ok:
  assumes ok: "vm_ok s" and c: "cur_as s \<noteq> 0" and sp: "aspaces s (cur_as s) = Some sp" and es: "start_page_table sp = ps @ e # qs"
  defines "M' \<equiv> (aspaces s)(cur_as s \<mapsto> sp\<lparr>start_page_table := ps @ qs\<rparr>)"
  obtains s1 where "release_pte (as_vpage e) e s = Some s1" "vmok M' {} s1" "lv s1 = lv s" "wchans s1 = wchans s" "kroom s1 = kroom s"
    "uframe (as_frames [e]) (kh s) (kh s1)" "aspaces s1 = aspaces s" "cur_as s1 = cur_as s" "swap_data s1 = swap_data s"
    "detached M' s (cur_as s) [e]"
proof -
  have pe: "pte_ok s (cur_as s) e" using vmokD(2) [OF ok sp] es by (simp add: as_ok_def ptes_ok_def)
  show thesis
  proof (cases "vstate e = Swapped")
    case True
    note ul = unlink_pte [OF ok sp es, folded M'_def]
    have f: "as_frames [e] = {}" using True by (simp add: as_frames_def)
    have ok': "vmok M' {} s" and de: "detached M' s (cur_as s) [e]" using ul True f by simp_all
    obtain s1 where s1: "drop_page e s = Some (False, s1)" "vmok M' ({} - as_frames [e]) s1" "lv s1 = lv s" "wchans s1 = wchans s"
      "kroom s1 = kroom s" "uframe (as_frames [e]) (kh s) (kh s1)" "aspaces s1 = aspaces s" "cur_as s1 = cur_as s" "swap_data s1 = swap_data s"
      by (rule drop_page_ok [OF ok' de])
    have "release_pte (as_vpage e) e s = Some s1" using s1(1) True
      by (auto simp: release_pte_def drop_page_def split: bind_splits)
    then show ?thesis using that [of s1] s1 de by simp
  next
    case False
    then have m: "vstate e = Mapped" using pe by (cases "vstate e") (auto simp: pte_ok_def)
    have va: "as_vpage e < MIPS_KSEG0" "as_vpage e AND PAGE_FRAME = as_vpage e" using pe by (auto simp: pte_ok_def)
    obtain t where t: "tlb_invalidate_entry (as_vpage e) s = Some (s\<lparr>tlb := t\<rparr>)" "vm_ok (s\<lparr>tlb := t\<rparr>)" "as_vpage e \<notin> fst ` set t"
      using tlb_invalidate_ok [OF ok c va] by auto
    let ?s = "s\<lparr>tlb := t\<rparr>"
    have sp': "aspaces s (cur_as s) = Some sp" by (rule sp)
    note ul = unlink_pte [OF t(2), of "cur_as s", OF _ es]
    have ok': "vmok M' (as_frames [e]) ?s" and de: "detached M' ?s (cur_as s) [e]" using ul t(3) sp by (simp_all add: M'_def)
    obtain s1 where s1: "drop_page e ?s = Some (False, s1)" "vmok M' (as_frames [e] - as_frames [e]) s1" "lv s1 = lv ?s" "wchans s1 = wchans ?s"
      "kroom s1 = kroom ?s" "uframe (as_frames [e]) (kh ?s) (kh s1)" "aspaces s1 = aspaces ?s" "cur_as s1 = cur_as ?s" "swap_data s1 = swap_data ?s"
      by (rule drop_page_ok [OF ok' de])
    have "release_pte (as_vpage e) e s = Some s1" using s1(1) m t(1)
      by (auto simp: release_pte_def drop_page_def tlb_invalidate_kh split: bind_splits)
    moreover have "detached M' s (cur_as s) [e]" using de
      by (simp add: detached_def ptes_ok_def pte_ok_def blocks_ok_def swap_used_def wchans_def)
    ultimately show ?thesis using that [of s1] s1 by (simp add: wchans_def)
  qed
qed

lemma sbrk_remove_ok:
  assumes ok: "vm_ok s" and c: "cur_as s \<noteq> 0" and sp: "aspaces s (cur_as s) = Some sp"
  obtains s' es where "sbrk_remove (cur_as s) va s = Some s'" "vm_ok s'" "aspaces s' = (aspaces s)(cur_as s \<mapsto> sp\<lparr>start_page_table := es\<rparr>)"
    "amem s' = (amem s)(cur_as s \<mapsto> (uview s sp)(va := (\<lambda>x. 0)))" "cur_as s' = cur_as s" "kroom s \<longrightarrow> kroom s'"
    "as_vpage ` set es = as_vpage ` set (start_page_table sp) - {va}"
proof -
  let ?a = "cur_as s"
  have as: "as_ok s ?a sp" by (rule vmokD(2) [OF ok sp])
  then have nf: "\<forall>e\<in>set (start_page_table sp). \<not> pte_freed e" by (auto simp: as_ok_def ptes_ok_def pte_ok_def)
  then show thesis
  proof (cases rule: find_pte_cases [of _ va 0])
    case none
    have "(uview s sp)(va := (\<lambda>x. 0)) = uview s sp" using uview_none [OF none(2)] by (auto simp: fun_eq_iff)
    then have "amem s = (amem s)(?a \<mapsto> (uview s sp)(va := (\<lambda>x. 0)))" using amem_space [of s ?a sp, OF sp] by (simp add: fun_upd_idem)
    then show ?thesis using none sp ok by (intro that [of s "start_page_table sp"]) (auto simp: sbrk_remove_def fun_upd_idem)
  next
    case (found ps e qs)
    let ?sp = "sp\<lparr>start_page_table := ps @ qs\<rparr>" let ?M = "(aspaces s)(?a \<mapsto> ?sp)"
    obtain s1 where 1: "release_pte (as_vpage e) e s = Some s1" "vmok ?M {} s1" "lv s1 = lv s" "wchans s1 = wchans s" "kroom s1 = kroom s"
      "uframe (as_frames [e]) (kh s) (kh s1)" "aspaces s1 = aspaces s" "cur_as s1 = cur_as s" "swap_data s1 = swap_data s"
      "detached ?M s ?a [e]" by (rule release_pte_ok [OF ok c sp found(1)])
    define s2 where "s2 = set_as ?a ?sp s1"
    have ok2: "vmok ?M {} s2" and M2: "aspaces s2 = ?M" using 1(2,7) by (simp_all add: s2_def set_as_def)
    have bl: "blocks_ok s2 (pte_plain e) [pte_wchan e]" and un: "unowned ?M (set (pte_blocks e))"
      using 1(10) 1(3,4) by (simp_all add: detached_def blocks_ok_def s2_def set_as_def wchans_def)
    obtain s3 where 3: "(lock_destroy (pte_lock e) s2 \<bind> obj_free (pte_addr e)) = Some s3" "vmok ?M {} s3" "kstep s2 s3" "kroom s2 \<longrightarrow> kroom s3"
      by (rule free_pte_blocks [OF ok2 bl un])
    note mo = kstep_more [OF 3(3)]
    have M3: "aspaces s3 = ?M" using mo(1) M2 by simp
    have run: "sbrk_remove ?a va s = Some s3" using sp found 1(1) 3(1) by (simp add: sbrk_remove_def s2_def)
    have sd: "swap_data s3 = swap_data s" "cur_as s3 = cur_as s" using mo(2,5) 1(8,9) by (simp_all add: s2_def set_as_def)
    have uf: "uframe (as_frames [e]) (kh s) (kh s3)"
      using uframe_step [OF 1(6), of "kh s3"] 3(3) by (simp add: kstep_def s2_def set_as_def)
    have sub: "as_frames [e] \<subseteq> as_frames (start_page_table sp)" using found(1) by (auto simp: as_frames_def)
    have di: "distinct (map as_vpage (ps @ e # qs))" using as found(1) by (simp add: as_ok_def ptes_ok_def)
    have am: "amem s3 = (amem s)(?a \<mapsto> uview s3 ?sp)"
      by (rule amem_upd_on [OF ok uf sd(1) _ M3]) (use frames_apart [OF ok sp] sub in blast)
    have po: "ptes_ok s ?a (e # ps @ qs)" using as found(1) by (auto simp: as_ok_def ptes_ok_def)
    have "uview s3 ?sp = uview s ?sp"
      by (rule uview_frame_ptes [where a = ?a, OF _ uf _ sd(1)]) (use po ptes_frames_apart [OF po] in \<open>simp_all add: ptes_ok_def\<close>)
    then have am': "amem s3 = (amem s)(?a \<mapsto> (uview s sp)(va := (\<lambda>x. 0)))" using am uview_unlink [OF di found(1)] found(2) by simp
    have vp: "as_vpage ` set (ps @ qs) = as_vpage ` set (start_page_table sp) - {va}"
    proof -
      have "va \<notin> as_vpage ` set (ps @ qs)" "as_vpage ` set (start_page_table sp) = insert va (as_vpage ` set (ps @ qs))"
        using di found(1,2) by auto
      then show ?thesis by simp
    qed
    have kr: "kroom s \<longrightarrow> kroom s3" using 3(4) 1(5) by (simp add: s2_def set_as_def)
    show ?thesis by (rule that [OF run _ M3 am' sd(2) kr vp]) (use 3(2) M3 in simp)
  qed
qed

section \<open>The shrinking loop\<close>

definition removed :: "vaddr \<Rightarrow> nat \<Rightarrow> nat \<Rightarrow> vaddr set" where
  "removed old_end i n = (\<lambda>j. old_end - (of_nat j + 1) * 4096) ` {i..<i + n}"

lemma removed_Suc: "removed oe i (Suc n) = insert (oe - (of_nat i + 1) * 4096) (removed oe (i + 1) n)"
proof -
  have "{i..<i + Suc n} = insert i {i + 1..<i + 1 + n}" by auto
  then show ?thesis by (simp add: removed_def)
qed

lemma sbrk_loop_ok:
  assumes "vm_ok s" "cur_as s \<noteq> 0" "aspaces s (cur_as s) = Some sp"
  shows "\<exists>s' es. sbrk_loop (cur_as s) oe i n s = Some s' \<and> vm_ok s'
    \<and> aspaces s' = (aspaces s)(cur_as s \<mapsto> sp\<lparr>start_page_table := es\<rparr>)
    \<and> amem s' = (amem s)(cur_as s \<mapsto> (\<lambda>va. if va \<in> removed oe i n then (\<lambda>x. 0) else uview s sp va))
    \<and> cur_as s' = cur_as s \<and> (kroom s \<longrightarrow> kroom s') \<and> as_vpage ` set es = as_vpage ` set (start_page_table sp) - removed oe i n"
  using assms
proof (induction n arbitrary: i s sp)
  case 0
  have "amem s = (amem s)(cur_as s \<mapsto> uview s sp)" using amem_space [of s "cur_as s" sp, OF 0(3)] by (simp add: fun_upd_idem)
  then show ?case using 0 by (intro exI [of _ s] exI [of _ "start_page_table sp"]) (simp add: removed_def fun_upd_idem)
next
  case (Suc n)
  let ?a = "cur_as s" and ?va = "oe - (of_nat i + 1) * 4096"
  obtain s1 es1 where 1: "sbrk_remove ?a ?va s = Some s1" "vm_ok s1" "aspaces s1 = (aspaces s)(?a \<mapsto> sp\<lparr>start_page_table := es1\<rparr>)"
    "amem s1 = (amem s)(?a \<mapsto> (uview s sp)(?va := (\<lambda>x. 0)))" "cur_as s1 = ?a" "kroom s \<longrightarrow> kroom s1"
    "as_vpage ` set es1 = as_vpage ` set (start_page_table sp) - {?va}" by (rule sbrk_remove_ok [OF Suc.prems, of ?va])
  let ?sp1 = "sp\<lparr>start_page_table := es1\<rparr>"
  have v: "uview s1 ?sp1 = (uview s sp)(?va := (\<lambda>x. 0))"
    using arg_cong [OF 1(4), of "\<lambda>f. f ?a"] 1(3) by (simp add: amem_def)
  have c1: "cur_as s1 \<noteq> 0" "aspaces s1 (cur_as s1) = Some ?sp1" using 1(3,5) Suc.prems(2) by simp_all
  from Suc.IH [OF 1(2) c1, of "i + 1"] obtain s' es where
    s': "sbrk_loop ?a oe (i + 1) n s1 = Some s'" "vm_ok s'" "aspaces s' = (aspaces s1)(?a \<mapsto> ?sp1\<lparr>start_page_table := es\<rparr>)"
    "amem s' = (amem s1)(?a \<mapsto> (\<lambda>va. if va \<in> removed oe (i + 1) n then (\<lambda>x. 0) else uview s1 ?sp1 va))"
    "cur_as s' = ?a" "kroom s1 \<longrightarrow> kroom s'" "as_vpage ` set es = as_vpage ` set (start_page_table ?sp1) - removed oe (i + 1) n"
    unfolding 1(5) by blast
  have "amem s' = (amem s)(?a \<mapsto> (\<lambda>va. if va \<in> removed oe i (Suc n) then (\<lambda>x. 0) else uview s sp va))"
    unfolding s'(4) 1(4) v removed_Suc by (auto simp: fun_eq_iff)
  moreover have "as_vpage ` set es = as_vpage ` set (start_page_table sp) - removed oe i (Suc n)"
    using s'(7) 1(7) unfolding removed_Suc by auto
  moreover have "aspaces s' = (aspaces s)(?a \<mapsto> sp\<lparr>start_page_table := es\<rparr>)" using s'(3) 1(3) by simp
  ultimately show ?case using s'(1,5,6) 1(1,6) by (intro exI [of _ s'] exI [of _ es] conjI s'(2)) simp_all
qed

section \<open>The system call\<close>

text \<open>A heap lies below the stack and both its ends are page boundaries. \<open>as_prepare_load\<close> sets it up so and \<open>sys_sbrk\<close> keeps it.\<close>

definition heap_wf :: "addrspace \<Rightarrow> bool" where
  "heap_wf sp \<longleftrightarrow> unat (heap_start sp) \<le> unat (heap_end sp) \<and> unat (heap_end sp) < 0x7ff80000
     \<and> unat (heap_start sp) mod PAGE_SIZE = 0 \<and> unat (heap_end sp) mod PAGE_SIZE = 0"

lemma unat_sub_pages:
  assumes "unat oe = k * PAGE_SIZE" "j < k"
  shows "unat (oe - (of_nat j + 1) * 4096 :: u32) = (k - (j + 1)) * PAGE_SIZE"
proof -
  have k: "k * PAGE_SIZE < 4294967296" using unsigned_less [of oe, where 'a = nat] assms(1) by simp
  have "unat oe = unat (of_nat (k * PAGE_SIZE) :: u32)" by (simp only: assms(1) unat_of_nat_u32 [OF k])
  then have oe: "oe = of_nat (k * PAGE_SIZE)" by (rule unsigned_word_eqI)
  have "oe - (of_nat j + 1) * 4096 = of_nat (k * PAGE_SIZE) - of_nat ((j + 1) * PAGE_SIZE)" unfolding oe by simp
  also have "\<dots> = of_nat ((k - (j + 1)) * PAGE_SIZE)" 
    unfolding diff_mult_distrib by (rule of_nat_diff [symmetric]) (use assms(2) in simp)
  also have "unat \<dots> = (k - (j + 1)) * PAGE_SIZE" by (rule unat_of_nat_u32) (use k in simp)
  finally show ?thesis .
qed

lemma removed_iff:
  assumes oe: "unat oe mod PAGE_SIZE = 0" and n: "n * PAGE_SIZE \<le> unat oe"
  shows "va \<in> removed oe 0 n \<longleftrightarrow> unat va mod PAGE_SIZE = 0 \<and> unat oe - n * PAGE_SIZE \<le> unat va \<and> unat va < unat oe"
proof -
  obtain k where k: "unat oe = k * PAGE_SIZE" using oe by (metis dvd_div_mult_self mod_0_imp_dvd)
  have nk: "n \<le> k" using n k by simp
  have r: "va \<in> removed oe 0 n \<longleftrightarrow> (\<exists>j<n. unat va = (k - (j + 1)) * PAGE_SIZE)"
  proof -
    define f where "f = (\<lambda>j. oe - (of_nat j + 1) * 4096 :: u32)"
    have "va = f j \<longleftrightarrow> unat va = (k - (j + 1)) * PAGE_SIZE" if "j < n" for j
    proof -
      have "unat (f j) = (k - (j + 1)) * PAGE_SIZE" unfolding f_def by (rule unat_sub_pages [OF k]) (use that nk in simp)
      then show ?thesis by (simp only: word_unat_eq_iff)
    qed
    moreover have "removed oe 0 n = f ` {0..<n}" by (simp add: removed_def f_def)
    ultimately show ?thesis by (simp add: image_iff Bex_def cong: conj_cong)
  qed
  show ?thesis
  proof
    assume "va \<in> removed oe 0 n"
    then obtain j where "j < n" "unat va = (k - (j + 1)) * PAGE_SIZE" using r by blast
    then show "unat va mod PAGE_SIZE = 0 \<and> unat oe - n * PAGE_SIZE \<le> unat va \<and> unat va < unat oe"
      using nk k by (simp add: diff_mult_distrib)
  next
    assume a: "unat va mod PAGE_SIZE = 0 \<and> unat oe - n * PAGE_SIZE \<le> unat va \<and> unat va < unat oe"
    then obtain m where m: "unat va = m * PAGE_SIZE" by (metis dvd_div_mult_self mod_0_imp_dvd)
    have "k - n \<le> m" "m < k" using a m k by (simp_all flip: diff_mult_distrib)
    then have "k - 1 - m < n" "k - (k - 1 - m + 1) = m" using nk by linarith+
    then show "va \<in> removed oe 0 n" unfolding r using m by metis
  qed
qed

text \<open>The sum of an address below the stack and a signed increment, read as a signed number.\<close>

lemma sint_add_below:
  fixes oe w :: u32
  assumes "unat oe < 0x7ff80000"
  shows "sint (oe + w) = (if int (unat oe) + sint w < 2147483648 then int (unat oe) + sint w else int (unat oe) + sint w - 4294967296)"
    "0 \<le> int (unat oe) + sint w \<Longrightarrow> int (unat (oe + w)) = int (unat oe) + sint w"
proof -
  define a b where "a = unat oe" and "b = unat w"
  have w: "b < 4294967296" using unsigned_less [of w, where 'a = nat] by (simp add: b_def)
  have "unat (oe + w) = (a + b) mod 4294967296" by (simp add: unat_word_ariths a_def b_def)
  also have "\<dots> = (if a + b < 4294967296 then a + b else a + b - 4294967296)"
    using w assms by (simp add: mod_if a_def)
  finally have u: "unat (oe + w) = (if a + b < 4294967296 then a + b else a + b - 4294967296)" .
  have i: "int (unat oe) = int a" by (simp add: a_def)
  have s: "sint w = (if b < 2147483648 then int b else int b - 4294967296)" unfolding sint_u32 b_def ..
  have a: "a < 0x7ff80000" using assms by (simp add: a_def)
  show "sint (oe + w) = (if int (unat oe) + sint w < 2147483648 then int (unat oe) + sint w else int (unat oe) + sint w - 4294967296)"
    unfolding i s sint_u32 [of "oe + w"] u using a w by auto
  show "int (unat (oe + w)) = int (unat oe) + sint w" if "0 \<le> int (unat oe) + sint w"
    using that unfolding i s u using a w by (auto split: if_splits)
qed

text \<open>What a request should do, on mathematical integers.\<close>

definition sbrk_spec :: "int \<Rightarrow> int \<Rightarrow> int \<Rightarrow> errno + int" where
  "sbrk_spec hs he inc = (
     if 0 < inc \<and> 0x7ff80000 \<le> he + inc then Inl ENOMEM
     else if inc < 0 \<and> he + inc < hs then Inl EINVAL
     else if inc mod 4096 \<noteq> 0 then Inl EINVAL
     else Inr (he + inc))"

text \<open>The checks of the code decide as the specification does.\<close>

lemma sbrk_checks:
  assumes wf: "heap_wf sp" and ne: "ne = heap_end sp + w" and w: "w \<noteq> 0"
  shows "sbrk_spec (int (unat (heap_start sp))) (int (unat (heap_end sp))) (sint w) =
    (if (0 < sint w \<and> sint ne < sint (heap_end sp)) \<or> (sint w < 0 \<and> sint ne < sint (heap_start sp))
       then Inl (if 0 < sint w then ENOMEM else EINVAL)
     else if 0 < sint w \<and> sint (USERSTACK - VM_STACKPAGES * 4096) \<le> sint ne then Inl ENOMEM
     else if sint w mod 4096 \<noteq> 0 then Inl EINVAL else Inr (int (unat ne)))"
proof -
  define hs he i where "hs = int (unat (heap_start sp))" and "he = int (unat (heap_end sp))" and "i = sint w"
  have b: "0 \<le> hs" "hs \<le> he" "he < 0x7ff80000" "unat (heap_end sp) < 0x7ff80000"
    using wf unfolding heap_wf_def hs_def he_def by linarith+
  have i: "- 2147483648 \<le> i" "i < 2147483648" "i \<noteq> 0"
  proof -
    have "unat w < 4294967296" using unsigned_less [of w, where 'a = nat] by simp
    then show "- 2147483648 \<le> i" "i < 2147483648" 
      unfolding i_def sint_u32 by (cases "unat w < 2147483648"; simp only: if_True if_False; linarith)+
    show "i \<noteq> 0" using w by (simp add: i_def signed_eq_0_iff)
  qed
  have sh: "sint (heap_start sp) = hs" "sint (heap_end sp) = he"
    using b unfolding sint_u32 hs_def he_def by (simp_all only: if_True split: if_split) linarith+
  have sn: "sint ne = (if he + i < 2147483648 then he + i else he + i - 4294967296)" "0 \<le> he + i \<Longrightarrow> int (unat ne) = he + i"
    using sint_add_below [OF b(4), of w] unfolding ne he_def i_def by blast+
  have st: "sint (USERSTACK - VM_STACKPAGES * 4096) = 0x7ff80000" by (simp add: sint_u32)
  show ?thesis unfolding hs_def [symmetric] he_def [symmetric] i_def [symmetric] sh sn(1) st sbrk_spec_def
    using b i sn(2) by auto
qed

lemma frame_aligned:
  fixes x :: u32
  assumes "x AND PAGE_FRAME = x"
  shows "unat x mod PAGE_SIZE = 0"
proof -
  have "x AND mask 12 = (x AND NOT (mask 12)) AND mask 12" using assms unfolding frame_mask by simp
  also have "\<dots> = 0" by (simp add: and.assoc)
  finally have "take_bit 12 x = 0" by (simp add: take_bit_eq_mask)
  then have "take_bit 12 (unat x) = 0" by (metis unsigned_0 unsigned_take_bit_eq)
  then show ?thesis by (simp add: take_bit_eq_mod)
qed

lemma uview_unaligned:
  assumes "as_ok s a sp" "unat va mod PAGE_SIZE \<noteq> 0"
  shows "uview s sp va = (\<lambda>x. 0)"
proof -
  have "va \<notin> as_vpage ` set (start_page_table sp)"
    using assms frame_aligned by (auto simp: as_ok_def ptes_ok_def pte_ok_def)
  from uview_none [OF this] show ?thesis by (simp add: fun_eq_iff)
qed

lemma sbrk_spec_wf:
  assumes wf: "heap_wf sp" and r: "sbrk_spec (int (unat (heap_start sp))) (int (unat (heap_end sp))) i = Inr (int (unat ne))"
  shows "heap_wf (sp\<lparr>heap_end := ne\<rparr>)" "int (unat ne) = int (unat (heap_end sp)) + i" "i mod 4096 = 0"
proof -
  show v: "int (unat ne) = int (unat (heap_end sp)) + i" and m: "i mod 4096 = 0" using r by (auto simp: sbrk_spec_def split: if_splits)
  have w: "unat (heap_start sp) \<le> unat (heap_end sp)" "unat (heap_end sp) < 0x7ff80000" "unat (heap_end sp) mod PAGE_SIZE = 0"
    "unat (heap_start sp) mod PAGE_SIZE = 0" using wf unfolding heap_wf_def by blast+
  have "int (unat (heap_end sp)) mod 4096 = 0" using arg_cong [OF w(3), of int] by (simp only: of_nat_mod of_nat_numeral of_nat_0)
  with m have "int (unat ne) mod 4096 = 0" 
    unfolding v by (simp add: dvd_add mod_0_imp_dvd)
  then have "int (unat ne mod PAGE_SIZE) = 0" by (simp only: of_nat_mod of_nat_numeral)
  then have al: "unat ne mod PAGE_SIZE = 0" by linarith
  have "int (unat (heap_start sp)) \<le> int (unat ne)" "int (unat ne) < 0x7ff80000"
    using r w(1,2) unfolding v sbrk_spec_def by (auto split: if_splits simp del: of_nat_unat)
  then have "unat (heap_start sp) \<le> unat ne" "unat ne < 0x7ff80000" by linarith+
  then show "heap_wf (sp\<lparr>heap_end := ne\<rparr>)" using w(4) al by (simp add: heap_wf_def)
qed

lemma sys_sbrk_ok:
  assumes ok: "vm_ok s" and c: "cur_as s \<noteq> 0" and sp: "aspaces s (cur_as s) = Some sp" and wf: "heap_wf sp"
  obtains (err) e where "sbrk_spec (int (unat (heap_start sp))) (int (unat (heap_end sp))) (sint w) = Inl e"
      "sys_sbrk w s = Some (Inl e, s)"
  | (moved) ne es s' where "sbrk_spec (int (unat (heap_start sp))) (int (unat (heap_end sp))) (sint w) = Inr (int (unat ne))"
      "sys_sbrk w s = Some (Inr (heap_end sp), s')" "vm_ok s'" "heap_wf (sp\<lparr>heap_end := ne\<rparr>)"
      "aspaces s' = (aspaces s)(cur_as s \<mapsto> sp\<lparr>start_page_table := es, heap_end := ne\<rparr>)"
      "amem s' = (amem s)(cur_as s \<mapsto> (\<lambda>va. if ne \<le> va \<and> va < heap_end sp then (\<lambda>x. 0) else uview s sp va))"
      "cur_as s' = cur_as s" "kroom s \<longrightarrow> kroom s'"
proof (cases "w = 0")
  case True
  have "(\<lambda>va. if heap_end sp \<le> va \<and> va < heap_end sp then (\<lambda>x. 0) else uview s sp va) = uview s sp" by (auto simp: fun_eq_iff)
  then show thesis using True sp c ok wf amem_space [of s "cur_as s" sp, OF sp]
    by (intro moved [of "heap_end sp" s "start_page_table sp"]) (auto simp: sbrk_spec_def sys_sbrk_def heap_wf_def fun_upd_idem)
next
  case False
  let ?a = "cur_as s" and ?oe = "heap_end sp" and ?ne = "heap_end sp + w"
  note ch = sbrk_checks [OF wf refl False]
  define spec where "spec = sbrk_spec (int (unat (heap_start sp))) (int (unat ?oe)) (sint w)"
  have run: "sys_sbrk w s = (case spec of Inl e \<Rightarrow> Some (Inl e, s)
    | Inr v \<Rightarrow> if 0 < sint w then Some (Inr ?oe, set_as ?a (sp\<lparr>heap_end := ?ne\<rparr>) s)
        else do { s1 \<leftarrow> sbrk_loop ?a ?oe 0 (nat (- sint w div 4096)) s; sp1 \<leftarrow> aspaces s1 ?a;
                  Some (Inr ?oe, set_as ?a (sp1\<lparr>heap_end := ?ne\<rparr>) s1) })"
    unfolding spec_def ch using sp c False by (simp add: sys_sbrk_def Let_def)
  show thesis
  proof (cases spec)
    case (Inl e)
    then show ?thesis using err run by (simp add: spec_def)
  next
    case (Inr v)
    then have v: "spec = Inr (int (unat ?ne))" using ch unfolding spec_def by (simp split: if_splits)
    note sw = sbrk_spec_wf [OF wf v [unfolded spec_def]]
    show ?thesis
    proof (cases "0 < sint w")
      case True
      have "unat ?oe < unat ?ne" using sw(2) True by linarith
      then have "(\<lambda>va. if ?ne \<le> va \<and> va < ?oe then (\<lambda>x. 0) else uview s sp va) = uview s sp"
        by (auto simp: fun_eq_iff word_less_nat_alt word_le_nat_alt)
      moreover note hb = set_heap_bounds [OF ok sp refl, where h = "heap_start sp" and h' = ?ne]
      ultimately show ?thesis using run v True sw(1) amem_space [of s ?a sp, OF sp] unfolding spec_def
        by (intro moved [of ?ne "set_as ?a (sp\<lparr>heap_end := ?ne\<rparr>) s" "start_page_table sp"]) (simp_all add: fun_upd_idem, simp_all add: set_as_def)
    next
      case neg: False
      define n where "n = nat (- sint w div 4096)"
      have "4096 dvd - sint w" using sw(3) by (simp add: mod_0_imp_dvd)
      moreover have "int n = - sint w div 4096" using neg by (simp add: n_def pos_imp_zdiv_nonneg_iff)
      ultimately have "int n * 4096 = - sint w" by (simp only: dvd_div_mult_self)
      then have n: "unat ?oe - n * PAGE_SIZE = unat ?ne" "n * PAGE_SIZE \<le> unat ?oe" using sw(2) by linarith+
      from sbrk_loop_ok [OF ok c sp, of ?oe 0 n] obtain s1 es where 1: "sbrk_loop ?a ?oe 0 n s = Some s1" "vm_ok s1"
        "aspaces s1 = (aspaces s)(?a \<mapsto> sp\<lparr>start_page_table := es\<rparr>)"
        "amem s1 = (amem s)(?a \<mapsto> (\<lambda>va. if va \<in> removed ?oe 0 n then (\<lambda>x. 0) else uview s sp va))"
        "cur_as s1 = ?a" "kroom s \<longrightarrow> kroom s1" by blast
      let ?sp1 = "sp\<lparr>start_page_table := es\<rparr>"
      have sp1: "aspaces s1 ?a = Some ?sp1" using 1(3) by simp
      note hb = set_heap_bounds [OF 1(2) sp1 refl, where h = "heap_start ?sp1" and h' = ?ne]
      have oe: "unat ?oe mod PAGE_SIZE = 0" using wf by (simp add: heap_wf_def)
      have "(\<lambda>va. if va \<in> removed ?oe 0 n then (\<lambda>x. 0) else uview s sp va) =
          (\<lambda>va. if ?ne \<le> va \<and> va < ?oe then (\<lambda>x. 0) else uview s sp va)"
        using uview_unaligned [OF vmokD(2) [OF ok sp]]
        by (auto simp: fun_eq_iff removed_iff [OF oe n(2)] n(1) word_less_nat_alt word_le_nat_alt)
      then show ?thesis using run v neg sw(1) 1 sp1 hb unfolding spec_def n_def [symmetric]
        by (intro moved [of ?ne "set_as ?a (?sp1\<lparr>heap_end := ?ne\<rparr>) s1" es]) (simp_all, simp_all add: set_as_def)
    qed
  qed
qed

end
