(* ===== verification/Vmevict.thy ===== *)
theory Vmevict
  imports Vmsbrk
begin

text \<open>
  Eviction (\<^verbatim>\<open>evict_page\<close> of \<^verbatim>\<open>kern/vm/vm.c\<close>): the clock hand stops, the page goes to the swap disk, and no process notices.
\<close>

section \<open>The clock hand\<close>

text \<open>Two coremaps that differ in reference bits only.\<close>

definition refs_only :: "coremap_page list \<Rightarrow> coremap_page list \<Rightarrow> bool" where
  "refs_only cm cm' \<longleftrightarrow> length cm' = length cm \<and> (\<forall>i<length cm. state (cm' ! i) = state (cm ! i)
     \<and> chunk_size (cm' ! i) = chunk_size (cm ! i) \<and> owner_addrspace (cm' ! i) = owner_addrspace (cm ! i)
     \<and> owner_vaddr (cm' ! i) = owner_vaddr (cm ! i) \<and> (state (cm ! i) \<noteq> Used \<longrightarrow> cm' ! i = cm ! i))"

lemma refs_only_refl [simp]: "refs_only cm cm"
  by (simp add: refs_only_def)

lemma refs_only_upd:
  assumes "refs_only (cm[i := (cm ! i)\<lparr>ref_bit := b\<rparr>]) cm'" "state (cm ! i) = Used" "i < length cm"
  shows "refs_only cm cm'"
  using assms by (auto simp: refs_only_def nth_list_update split: if_splits)

definition refs :: "coremap_page list \<Rightarrow> nat set" where
  "refs cm = {i. i < length cm \<and> state (cm ! i) = Used \<and> ref_bit (cm ! i)}"

lemma next_slot:
  fixes p n d :: nat
  assumes "0 < d"
  shows "((p + 1) mod n + (d - 1)) mod n = (p + d) mod n"
proof -
  have "((p + 1) mod n + (d - 1)) mod n = (p + 1 + (d - 1)) mod n" by (rule mod_add_left_eq)
  also have "p + 1 + (d - 1) = p + d" using assms by simp
  finally show ?thesis .
qed

lemma clock_hand_stops:
  assumes "memory_end h div PAGE_SIZE = length (coremap h)" "eviction_pointer h < length (coremap h)" "d < length (coremap h)"
    "state (coremap h ! ((eviction_pointer h + d) mod length (coremap h))) = Used"
  shows "\<exists>cm' p. clock_hand h = Some (h\<lparr>coremap := cm', eviction_pointer := p\<rparr>) \<and> refs_only (coremap h) cm'
    \<and> p < length cm' \<and> state (cm' ! p) = Used \<and> \<not> ref_bit (cm' ! p)"
  using assms
proof (induction "card (refs (coremap h)) * length (coremap h) + d" arbitrary: h d rule: less_induct)
  case less
  let ?cm = "coremap h" and ?p = "eviction_pointer h" let ?n = "length ?cm" and ?q = "?cm ! ?p"
  have rd: "rd ?cm ?p = Some ?q" using less.prems(2) by (simp add: rd_def)
  have lt: "(?p + 1) mod ?n < ?n" by (rule mod_less_divisor) (use less.prems(2) in linarith)
  note step = clock_hand.simps [of h, unfolded rd, simplified]
  show ?case
  proof (cases "state ?q = Used")
    case True
    show ?thesis
    proof (cases "ref_bit ?q")
      case False
      have "clock_hand h = Some h" using step True False by simp
      then show ?thesis using True False less.prems(2)
        by (intro exI [of _ ?cm] exI [of _ ?p]) simp
    next
      case ref: True
      let ?cm1 = "?cm[?p := ?q\<lparr>ref_bit := False\<rparr>]" let ?h1 = "h\<lparr>coremap := ?cm1, eviction_pointer := (?p + 1) mod ?n\<rparr>"
      have run: "clock_hand h = clock_hand ?h1" using step True ref less.prems(1,2) by (simp add: wr_def)
      have "refs ?cm1 = refs ?cm - {?p}" using less.prems(2) by (auto simp: refs_def nth_list_update split: if_splits)
      moreover have "?p \<in> refs ?cm" "finite (refs ?cm)" using True ref less.prems(2) by (simp_all add: refs_def)
      ultimately have c: "card (refs ?cm) = Suc (card (refs ?cm1))" by (metis card_Suc_Diff1)
      have bk: "((?p + 1) mod ?n + (?n - 1)) mod ?n = ?p" 
        using next_slot [of ?n ?p ?n] less.prems(2) by fastforce
      have "\<exists>cm' p. clock_hand ?h1 = Some (?h1\<lparr>coremap := cm', eviction_pointer := p\<rparr>) \<and> refs_only (coremap ?h1) cm'
          \<and> p < length cm' \<and> state (cm' ! p) = Used \<and> \<not> ref_bit (cm' ! p)"
        by (rule less.hyps [of ?h1 "?n - 1"]) (use c less.prems lt bk True in \<open>simp_all\<close>)
      then obtain cm' p where r: "clock_hand ?h1 = Some (?h1\<lparr>coremap := cm', eviction_pointer := p\<rparr>)" "refs_only (coremap ?h1) cm'"
        "p < length cm' \<and> state (cm' ! p) = Used \<and> \<not> ref_bit (cm' ! p)" by blast
      have "refs_only ?cm cm'" by (rule refs_only_upd [OF _ True less.prems(2)]) (use r(2) in simp)
      then show ?thesis unfolding run using r(1,3) by (intro exI [of _ cm'] exI [of _ p]) simp
    qed
  next
    case False
    then have d: "0 < d" using less.prems(2,4) by (cases d) auto
    let ?h1 = "h\<lparr>eviction_pointer := (?p + 1) mod ?n\<rparr>"
    have run: "clock_hand h = clock_hand ?h1" using step False less.prems(1) by simp
    have next': "((?p + 1) mod ?n + (d - 1)) mod ?n = (?p + d) mod ?n" by (rule next_slot [OF d])
    have "\<exists>cm' p. clock_hand ?h1 = Some (?h1\<lparr>coremap := cm', eviction_pointer := p\<rparr>) \<and> refs_only (coremap ?h1) cm'
        \<and> p < length cm' \<and> state (cm' ! p) = Used \<and> \<not> ref_bit (cm' ! p)"
      by (rule less.hyps [of ?h1 "d - 1"]) (use d less.prems lt next' in simp_all)
    then obtain cm' p where r: "clock_hand ?h1 = Some (?h1\<lparr>coremap := cm', eviction_pointer := p\<rparr>)" "refs_only (coremap ?h1) cm'"
      "p < length cm' \<and> state (cm' ! p) = Used \<and> \<not> ref_bit (cm' ! p)" by blast
    then show ?thesis unfolding run by (intro exI [of _ cm'] exI [of _ p]) simp
  qed
qed

lemma refs_only_owns: "refs_only cm cm' \<Longrightarrow> owns_frame cm' a va i = owns_frame cm a va i"
  by (auto simp: owns_frame_def refs_only_def)

section \<open>The swap map and the disk\<close>

lemma vmok_mark:
  assumes ok: "vmok M X s" and b: "swap_bitmap s = Some b" and b': "bitmap_ok b'" "nbits b' = nbits b" "bitmap_used b \<subseteq> bitmap_used b'"
  shows "vmok M X (s\<lparr>swap_bitmap := Some b'\<rparr>)"
proof -
  let ?s = "s\<lparr>swap_bitmap := Some b'\<rparr>"
  have "pte_ok ?s a e" if "pte_ok s a e" for a e
    using that b b'(3) by (auto simp: pte_ok_def swap_used_def)
  then have "as_ok ?s a sp" if "M a = Some sp" for a sp
    using vmokD(2) [OF ok that] by (simp add: as_ok_def blocks_ok_def ptes_ok_def wchans_def)
  then show ?thesis using ok b'(1,2) vmokD(7) [OF ok b] unfolding vmok_def tlb_ok_def kobj_ok_def wchans_def by simp
qed

lemma vmok_swap_data: "vmok M X s \<Longrightarrow> vmok M X (s\<lparr>swap_data := f\<rparr>)"
proof -
  assume ok: "vmok M X s"
  let ?s = "s\<lparr>swap_data := f\<rparr>"
  have "as_ok ?s = as_ok s" by (rule as_ok_cong) (simp_all add: wchans_def)
  moreover have "kobj_ok ?s = kobj_ok s" by (simp add: kobj_ok_def wchans_def)
  ultimately show ?thesis using ok by (simp add: vmok_def tlb_ok_def)
qed

text \<open>A page written to a free block, and the map that remembers the block.\<close>

definition page_out :: "nat \<Rightarrow> nat \<Rightarrow> vmsys \<Rightarrow> nat \<Rightarrow> u32" where
  "page_out pa d s = (\<lambda>x. if d * PAGE_SIZE \<le> x \<and> x < d * PAGE_SIZE + PAGE_SIZE then ram (kh s) (pa + (x - d * PAGE_SIZE)) else swap_data s x)"

lemma write_swap_disk_ok:
  assumes b: "swap_bitmap s = Some b" and bo: "bitmap_ok b" "nbits b \<le> 1048576" and io: "set (swap_io s) \<subseteq> {None}"
    and free: "\<not> {..<nbits b} \<subseteq> bitmap_used b"
  obtains d b' ios where "write_swap_disk pa s = Some (Inr d, s\<lparr>swap_bitmap := Some b', swap_io := ios, swap_data := page_out pa d s\<rparr>)"
    "d \<notin> bitmap_used b" "bitmap_used b' = insert d (bitmap_used b)" "bitmap_ok b'" "nbits b' = nbits b" "set ios \<subseteq> {None}"
proof -
  obtain d where d: "d < nbits b" "d \<notin> bitmap_used b" "\<forall>j<d. j \<in> bitmap_used b" by (rule bm.least_free [OF bo(1) free])
  from bm.alloc_ok [OF bo(1) d] obtain b' where
    b': "bitmap_alloc b = Some (Inr d, b')" "bitmap_ok b'" "nbits b' = nbits b" "bitmap_used b' = insert d (bitmap_used b)" by blast
  obtain ios where ios: "next_io (swap_io s) = (None, ios)" "set ios \<subseteq> {None}" by (rule swap_io_none [OF io])
  have "d * PAGE_SIZE < 4294967296" using d(1) bo(2) by simp
  then have off: "unat (swap_offset d) = d * PAGE_SIZE" using d(1) bo(2) unat_of_nat_u32 [of d] by (simp add: swap_offset_def unat_word_ariths)
  have "disk_write pa (swap_offset d) (s\<lparr>swap_bitmap := Some b'\<rparr>) = (None, s\<lparr>swap_bitmap := Some b', swap_io := ios, swap_data := page_out pa d s\<rparr>)"
    using ios(1) unfolding disk_write_def page_out_def off by (simp add: Let_def cong: if_cong)
  then show thesis using b b'(1) by (intro that [OF _ d(2) b'(4,2,3) ios(2)]) (simp add: write_swap_disk_def)
qed

section \<open>Eviction\<close>

text \<open>Frames and disk blocks that belong to an entry are left alone.\<close>

lemma pte_word_keep:
  assumes e: "pte_ok s a e" and u: "uframe {} (kh s) (kh s')"
    and d: "\<And>d x. d \<in> as_disk [e] \<Longrightarrow> x < PAGE_SIZE \<Longrightarrow> swap_data s' (d * PAGE_SIZE + x) = swap_data s (d * PAGE_SIZE + x)"
    and x: "x < PAGE_SIZE"
  shows "pte_word s' e x = pte_word s e x"
proof (cases "vstate e")
  case Mapped
  have "pte_word s' e x = pte_word (s'\<lparr>swap_data := swap_data s\<rparr>) e x" using Mapped by (simp add: pte_word_def split: option.split)
  also have "\<dots> = pte_word s e x" by (rule pte_word_frame [OF e, of "{}"]) (use u x in simp_all)
  finally show ?thesis .
next
  case Swapped
  then show ?thesis using d [OF _ x] by (auto simp: pte_word_def as_disk_def split: option.split)
qed (simp add: pte_word_def)

lemma uview_keep:
  assumes "\<forall>e\<in>set (start_page_table sp). pte_ok s a e" "uframe {} (kh s) (kh s')"
    and "\<And>d x. d \<in> as_disk (start_page_table sp) \<Longrightarrow> x < PAGE_SIZE \<Longrightarrow> swap_data s' (d * PAGE_SIZE + x) = swap_data s (d * PAGE_SIZE + x)"
  shows "uview s' sp = uview s sp"
proof -
  have "pte_word s' e x = pte_word s e x" if "e \<in> set (start_page_table sp)" "x < PAGE_SIZE" for e x
    by (rule pte_word_keep [OF _ assms(2)]) (use assms(1,3) that in \<open>auto simp: as_disk_def\<close>)
  moreover have "e \<in> set (start_page_table sp)" if "find P (start_page_table sp) = Some e" for P e
    using that by (auto simp: find_Some_iff)
  ultimately show ?thesis by (auto simp: uview_def fun_eq_iff split: option.split)
qed

lemma used_page_entry:
  assumes ok: "vm_ok s" and i: "i < length (coremap (kh s))" "state (coremap (kh s) ! i) = Used"
  obtains a sp ps e qs where "aspaces s a = Some sp" "start_page_table sp = ps @ e # qs" "vstate e = Mapped"
    "as_ppage e = Some (i * PAGE_SIZE)" "owns_frame (coremap (kh s)) a (as_vpage e) i"
    "find_pte (as_vpage e) (start_page_table sp) 0 = Some (Some (length ps))"
proof -
  obtain a sp where a: "aspaces s a = Some sp" "i \<in> as_frames (start_page_table sp)" using vmokD(9) [OF ok i] by auto
  have as: "as_ok s a sp" by (rule vmokD(2) [OF ok a(1)])
  then have po: "\<forall>e\<in>set (start_page_table sp). pte_ok s a e" and di: "distinct (map as_vpage (start_page_table sp))"
    by (auto simp: as_ok_def ptes_ok_def)
  obtain e where e: "e \<in> set (start_page_table sp)" "vstate e = Mapped" "as_ppage e = Some (i * PAGE_SIZE)"
    using a(2) by (auto simp: as_frames_def)
  have own: "owns_frame (coremap (kh s)) a (as_vpage e) i" using po e by (auto simp: pte_ok_def)
  have nf: "\<forall>e\<in>set (start_page_table sp). \<not> pte_freed e" using po by (auto simp: pte_ok_def)
  then show thesis
  proof (cases rule: find_pte_cases [of _ "as_vpage e" 0])
    case none
    then show ?thesis using e(1) by auto
  next
    case (found ps e' qs)
    have "e' \<in> set (start_page_table sp)" using found(1) by simp
    then have "e' = e" using di e(1) found(2) by (simp add: distinct_map inj_on_def)
    then show ?thesis using that a(1) found e own by simp
  qed
qed

lemma tlb_invalidate_any:
  assumes ok: "vmok M X s" and va: "va < MIPS_KSEG0" "va AND PAGE_FRAME = va"
  obtains t where "tlb_invalidate_entry va s = Some (s\<lparr>tlb := t\<rparr>)" "vmok M X (s\<lparr>tlb := t\<rparr>)" "cur_as s \<noteq> 0 \<Longrightarrow> va \<notin> fst ` set t"
proof (cases "cur_as s = 0")
  case True
  have len: "length (tlb s) = NUM_TLB" using vmokD(3) [OF ok] by (simp add: tlb_ok_def)
  have t: "\<exists>t. tlb_invalidate_entry va s = Some (s\<lparr>tlb := t\<rparr>) \<and> length t = NUM_TLB"
  proof (cases "tlb_probe va s")
    case None
    then show ?thesis using len by (intro exI [of _ "tlb s"]) (simp add: tlb_invalidate_entry_def)
  next
    case (Some i)
    then have "i < length (tlb s)" by (auto simp: tlb_probe_def find_Some_iff)
    then show ?thesis using Some len
      by (intro exI [of _ "(tlb s)[i := (TLBHI_INVALID i, 0)]"]) (simp add: tlb_invalidate_entry_def tlb_write_def wr_def)
  qed
  then obtain t where t: "tlb_invalidate_entry va s = Some (s\<lparr>tlb := t\<rparr>)" "length t = NUM_TLB" by blast
  have "vmok M X (s\<lparr>tlb := t\<rparr>)" by (rule vmok_tlb [OF ok]) (use True t(2) in \<open>simp add: tlb_ok_def\<close>)
  then show thesis using that t(1) True by blast
next
  case False
  show thesis by (rule tlb_invalidate_ok [OF ok False va]) (use that in blast)
qed

lemma hand_distance:
  fixes p j n :: nat
  assumes "p < n" "j < n"
  obtains d where "d < n" "(p + d) mod n = j"
proof (rule that)
  show "(j + n - p) mod n < n" using assms by simp
  have "(p + (j + n - p) mod n) mod n = (p + (j + n - p)) mod n" by (rule mod_add_right_eq)
  also have "p + (j + n - p) = j + n" using assms by simp
  finally show "(p + (j + n - p) mod n) mod n = j" using assms by simp
qed

text \<open>The hand stops at a used page; its state changes to being evicted.\<close>

definition evicting :: "nat \<Rightarrow> coremap_page list \<Rightarrow> coremap_page list" where
  "evicting i cm = cm[i := (cm ! i)\<lparr>state := In_eviction\<rparr>]"

lemma evicting_uchange:
  assumes ok: "coremap_ok h" and r: "refs_only (coremap h) cm" and i: "i < length (coremap h)" "state (coremap h ! i) = Used"
  shows "uchange h (h\<lparr>coremap := evicting i cm, eviction_pointer := k\<rparr>)" "uframe {} h (h\<lparr>coremap := evicting i cm, eviction_pointer := k\<rparr>)"
    "j \<noteq> i \<Longrightarrow> owns_frame (evicting i cm) a va j = owns_frame (coremap h) a va j"
    "j < length cm \<Longrightarrow> state (evicting i cm ! j) = (if j = i then In_eviction else state (coremap h ! j))"
proof -
  have len: "length cm = length (coremap h)" using r by (simp add: refs_only_def)
  have st: "state (cm ! j) = state (coremap h ! j)" "chunk_size (cm ! j) = chunk_size (coremap h ! j)"
    "state (coremap h ! j) \<noteq> Used \<Longrightarrow> cm ! j = coremap h ! j" if "j < length (coremap h)" for j
    using r that by (auto simp: refs_only_def)
  have sim: "cm_similar (coremap h) (evicting i cm)"
    using st len i by (auto simp: cm_similar_def evicting_def nth_list_update)
  show "uchange h (h\<lparr>coremap := evicting i cm, eviction_pointer := k\<rparr>)"
    by (rule uchange_similar(2) [OF ok sim]) (use st(3) i len in \<open>auto simp: evicting_def nth_list_update\<close>)
  show "uframe {} h (h\<lparr>coremap := evicting i cm, eviction_pointer := k\<rparr>)"
    using st(1) len i(1) by (auto simp: uframe_def evicting_def nth_list_update user_page_def)
  show "owns_frame (evicting i cm) a va j = owns_frame (coremap h) a va j" if "j \<noteq> i"
    using that refs_only_owns [OF r] by (simp add: owns_frame_def evicting_def)
  show "state (evicting i cm ! j) = (if j = i then In_eviction else state (coremap h ! j))" if "j < length cm"
    using st(1) len that by (simp add: evicting_def nth_list_update)
qed

lemma disk_apart_swapped:
  assumes ap: "disk_apart M" and M: "M a = Some sp" "start_page_table sp = ps @ e # qs"
    and fresh: "\<And>c sc y. M c = Some sc \<Longrightarrow> y \<in> set (start_page_table sc) \<Longrightarrow> vstate y = Swapped \<Longrightarrow> diskpage_location y \<noteq> Some d"
    and e': "vstate e' = Swapped" "diskpage_location e' = Some d"
  shows "disk_apart (M(a \<mapsto> sp\<lparr>start_page_table := ps @ e' # qs\<rparr>))" (is "disk_apart ?M")
proof -
  have old: "c = a \<and> y = e' \<or> (\<exists>sb. M c = Some sb \<and> y \<in> set (start_page_table sb))"
    if "?M c = Some sc" "y \<in> set (start_page_table sc)" for c sc y
    using that M by (auto split: if_splits)
  show ?thesis unfolding disk_apart_def
  proof (intro allI impI)
    fix c c' sc sc' y y' assume y: "?M c = Some sc" "?M c' = Some sc'" "y \<in> set (start_page_table sc)" "y' \<in> set (start_page_table sc')"
      "vstate y = Swapped" "vstate y' = Swapped" "diskpage_location y = diskpage_location y'"
    from old [OF y(1,3)] old [OF y(2,4)] show "c = c' \<and> as_vpage y = as_vpage y'"
    proof (elim disjE exE conjE)
      fix sb sb' assume "M c = Some sb" "y \<in> set (start_page_table sb)" "M c' = Some sb'" "y' \<in> set (start_page_table sb')"
      then show ?thesis using ap y(5-7) unfolding disk_apart_def by blast
    qed (use fresh y(5-7) e' in auto)
  qed
qed

lemma evict_vmok:
  assumes ok: "vm_ok s" and e: "aspaces s a = Some sp" "start_page_table sp = ps @ e # qs" "vstate e = Mapped" "as_ppage e = Some (i * PAGE_SIZE)"
      "owns_frame (coremap (kh s)) a (as_vpage e) i"
    and r: "refs_only (coremap (kh s)) cm" and t: "vm_ok (s\<lparr>tlb := t\<rparr>)" "cur_as s \<noteq> 0 \<Longrightarrow> as_vpage e \<notin> fst ` set t"
    and b: "swap_bitmap s = Some b" "d \<notin> bitmap_used b" "bitmap_used b' = insert d (bitmap_used b)" "bitmap_ok b'" "nbits b' = nbits b"
    and io: "set ios \<subseteq> {None}"
  defines "M' \<equiv> (aspaces s)(a \<mapsto> sp\<lparr>start_page_table := ps @ e\<lparr>diskpage_location := Some d, vstate := Swapped\<rparr> # qs\<rparr>)"
  shows "vmok M' {} (s\<lparr>tlb := t, swap_bitmap := Some b', swap_io := ios, swap_data := f,
    kh := (kh s)\<lparr>coremap := evicting i cm, eviction_pointer := k\<rparr>\<rparr>)"
proof -
  let ?e = "e\<lparr>diskpage_location := Some d, vstate := Swapped\<rparr>"
  have i: "i < length (coremap (kh s))" "state (coremap (kh s) ! i) = Used" using e(5) by (auto simp: owns_frame_def)
  have as: "as_ok s a sp" by (rule vmokD(2) [OF ok e(1)])
  have pe: "pte_ok s a e" and di: "as_vpage e \<notin> as_vpage ` set (ps @ qs)" using as e(2) by (auto simp: as_ok_def ptes_ok_def)
  define s1 where "s1 = s\<lparr>tlb := t, swap_bitmap := Some b', swap_io := ios, swap_data := f\<rparr>"
  have "vmok (aspaces s) {} (s\<lparr>tlb := t, swap_bitmap := Some b'\<rparr>)"
    by (rule vmok_mark [of _ _ "s\<lparr>tlb := t\<rparr>" b]) (use t(1) b in auto)
  then have ok1: "vmok (aspaces s) {} s1" unfolding s1_def by (intro vmok_swap_data vmok_swap_io io)
  have used: "x \<in> bitmap_used b" if "aspaces s c = Some sc" "y \<in> set (start_page_table sc)" "vstate y = Swapped" "diskpage_location y = Some x" for c sc x y
    using vmokD(2) [OF ok that(1)] that(2-4) b(1) by (auto simp: as_ok_def ptes_ok_def pte_ok_def swap_used_def)
  have ok2: "vmok M' {i} s1" unfolding M'_def
  proof (rule vmok_replace_pte [OF ok1 e(1,2)])
    show "pte_ok s1 a ?e" using pe b(3) by (auto simp: pte_ok_def swap_used_def s1_def)
    show "vstate ?e = Mapped \<and> as_ppage ?e = Some pa" if "a = cur_as s1" "as_vpage e \<in> fst ` set (tlb s1)" for pa
      using that t(2) space_addr_live(2) [OF ok e(1)] by (simp add: s1_def)
    show "disk_apart ((aspaces s)(a \<mapsto> sp\<lparr>start_page_table := ps @ ?e # qs\<rparr>))"
      by (rule disk_apart_swapped [OF vmokD(4) [OF ok] e(1,2)]) (use used b(2) in auto)
  qed (use e(3,4) in \<open>auto simp: as_frames_def\<close>)
  note ev = evicting_uchange [OF vmok_heap(3) [OF ok] r i]
  have "vmok M' {} (s1\<lparr>kh := (kh s)\<lparr>coremap := evicting i cm, eviction_pointer := k\<rparr>\<rparr>)"
  proof (rule vmok_uchange [OF ok2])
    show "uchange (kh s1) ((kh s)\<lparr>coremap := evicting i cm, eviction_pointer := k\<rparr>)" using ev(1) by (simp add: s1_def)
    fix c sc j x assume x: "M' c = Some sc" "x \<in> set (start_page_table sc)" "vstate x = Mapped" "owns_frame (coremap (kh s1)) c (as_vpage x) j"
    have "j \<noteq> i"
    proof
      assume "j = i"
      then have "c = a" "as_vpage x = as_vpage e" using owns_frame_inj [OF x(4)] e(5) by (auto simp: s1_def)
      then have "x \<in> set (ps @ qs)" using x(1-3) by (auto simp: M'_def)
      then show False using di \<open>as_vpage x = as_vpage e\<close> by (metis imageI)
    qed
    then show "owns_frame (coremap ((kh s)\<lparr>coremap := evicting i cm, eviction_pointer := k\<rparr>)) c (as_vpage x) j"
      using x(4) ev(3) by (simp add: s1_def)
  next
    fix j assume j: "j < length (coremap (kh s1))" "state (coremap ((kh s)\<lparr>coremap := evicting i cm, eviction_pointer := k\<rparr>) ! j) = Used"
    have "length cm = length (coremap (kh s))" using r by (simp add: refs_only_def)
    then show "state (coremap (kh s1) ! j) = Used \<and> j \<notin> {i}" using j ev(4) [of j] by (auto simp: s1_def split: if_splits)
  qed
  then show ?thesis by (simp add: s1_def)
qed

lemma evict_amem:
  assumes ok: "vm_ok s" and e: "aspaces s a = Some sp" "start_page_table sp = ps @ e # qs" "vstate e = Mapped" "as_ppage e = Some (i * PAGE_SIZE)"
    and b: "swap_bitmap s = Some b" "d \<notin> bitmap_used b"
    and s': "uframe {} (kh s) (kh s')" "ram (kh s') = ram (kh s)" "swap_data s' = page_out (i * PAGE_SIZE) d s"
      "aspaces s' = (aspaces s)(a \<mapsto> sp\<lparr>start_page_table := ps @ e\<lparr>diskpage_location := Some d, vstate := Swapped\<rparr> # qs\<rparr>)"
  shows "amem s' = amem s"
proof -
  let ?e = "e\<lparr>diskpage_location := Some d, vstate := Swapped\<rparr>"
  have keep: "uview s' sc = uview s sc" if "aspaces s c = Some sc" for c sc
  proof (rule uview_keep [where a = c, OF _ s'(1)])
    have po: "\<forall>y\<in>set (start_page_table sc). pte_ok s c y" using vmokD(2) [OF ok that] by (simp add: as_ok_def ptes_ok_def)
    then show "\<forall>y\<in>set (start_page_table sc). pte_ok s c y" .
    fix d' x assume x: "d' \<in> as_disk (start_page_table sc)" "x < PAGE_SIZE"
    then have "d' \<in> bitmap_used b" using po b(1) by (fastforce simp: as_disk_def pte_ok_def swap_used_def)
    then have "d' \<noteq> d" using b(2) by auto
    then have "\<not> (d * PAGE_SIZE \<le> d' * PAGE_SIZE + x \<and> d' * PAGE_SIZE + x < d * PAGE_SIZE + PAGE_SIZE)"
      using same_page [of d' "d' * PAGE_SIZE + x" d] x(2) by auto
    then show "swap_data s' (d' * PAGE_SIZE + x) = swap_data s (d' * PAGE_SIZE + x)" unfolding s'(3) page_out_def by auto
  qed
  have "pte_word s' ?e x = pte_word s' e x" if "x < PAGE_SIZE" for x
    using that e(3,4) s'(2,3) by (simp add: pte_word_def page_out_def)
  from uview_replace [where sp = sp and ps = ps and qs = qs, OF _ this] have "uview s' (sp\<lparr>start_page_table := ps @ ?e # qs\<rparr>) = uview s' sp"
    using e(2) [symmetric] by simp
  then have "amem s' c = amem s c" for c using keep e(1) s'(4) by (cases "aspaces s c") (auto simp: amem_def)
  then show ?thesis by blast
qed

lemma evict_page_ok:
  assumes ok: "vm_ok s" and b: "swap_bitmap s = Some b" "\<not> {..<nbits b} \<subseteq> bitmap_used b"
    and used: "j < length (coremap (kh s))" "state (coremap (kh s) ! j) = Used" and ep: "eviction_pointer (kh s) < length (coremap (kh s))"
  obtains i s' where "evict_page s = Some (i * PAGE_SIZE, s')" "vm_ok s'" "amem s' = amem s" "i < length (coremap (kh s))"
    "state (coremap (kh s) ! i) = Used" "state (coremap (kh s') ! i) = In_eviction" "cur_as s' = cur_as s"
proof -
  let ?cm = "coremap (kh s)" let ?n = "length ?cm"
  have cok: "coremap_ok (kh s)" by (rule vmok_heap(3) [OF ok])
  have mem: "memory_end (kh s) div PAGE_SIZE = ?n" using cok by (simp add: coremap_ok_def)
  obtain dd where dd: "dd < ?n" "(eviction_pointer (kh s) + dd) mod ?n = j" by (rule hand_distance [OF ep used(1)])
  from clock_hand_stops [OF mem ep dd(1)] used(2) dd(2) obtain cm i where
    hand: "clock_hand (kh s) = Some ((kh s)\<lparr>coremap := cm, eviction_pointer := i\<rparr>)" "refs_only ?cm cm" "i < length cm" "state (cm ! i) = Used"
    by auto
  have i: "i < ?n" "state (?cm ! i) = Used" using hand(2-4) by (auto simp: refs_only_def)
  have rd: "rd cm i = Some (cm ! i)" using hand(3) by (simp add: rd_def)
  obtain a sp ps e qs where e: "aspaces s a = Some sp" "start_page_table sp = ps @ e # qs" "vstate e = Mapped" "as_ppage e = Some (i * PAGE_SIZE)"
    "owns_frame ?cm a (as_vpage e) i" "find_pte (as_vpage e) (start_page_table sp) 0 = Some (Some (length ps))"
    by (rule used_page_entry [OF ok i])
  have own: "owner_addrspace (cm ! i) = Some (unat a)" "owner_vaddr (cm ! i) = as_vpage e"
    using e(5) hand(2) i(1) by (auto simp: owns_frame_def refs_only_def)
  have as: "as_ok s a sp" by (rule vmokD(2) [OF ok e(1)])
  have pe: "pte_ok s a e" and po: "\<forall>x\<in>set (start_page_table sp). pte_ok s a x" and di: "as_vpage e \<notin> as_vpage ` set (ps @ qs)"
    using as e(2) by (auto simp: as_ok_def ptes_ok_def)
  have va: "as_vpage e < MIPS_KSEG0" "as_vpage e AND PAGE_FRAME = as_vpage e" using pe by (auto simp: pte_ok_def)
  let ?h = "(kh s)\<lparr>coremap := evicting i cm, eviction_pointer := (i + 1) mod ?n\<rparr>"
  note ev = evicting_uchange [OF cok hand(2) i]
  obtain t where t: "tlb_invalidate_entry (as_vpage e) s = Some (s\<lparr>tlb := t\<rparr>)" "vm_ok (s\<lparr>tlb := t\<rparr>)"
    "cur_as s \<noteq> 0 \<Longrightarrow> as_vpage e \<notin> fst ` set t" using tlb_invalidate_any [OF ok va] by auto
  define s2 where "s2 = s\<lparr>tlb := t, kh := ?h\<rparr>"
  have ti: "tlb_invalidate_entry (as_vpage e) (s\<lparr>kh := ?h\<rparr>) = Some s2" using t(1) by (simp add: tlb_invalidate_kh s2_def)
  obtain d b' ios where w: "write_swap_disk (i * PAGE_SIZE) s2 =
      Some (Inr d, s2\<lparr>swap_bitmap := Some b', swap_io := ios, swap_data := page_out (i * PAGE_SIZE) d s2\<rparr>)"
    "d \<notin> bitmap_used b" "bitmap_used b' = insert d (bitmap_used b)" "bitmap_ok b'" "nbits b' = nbits b" "set ios \<subseteq> {None}"
    by (rule write_swap_disk_ok [of s2 b]) (use b vmokD(5-7) [OF ok] in \<open>auto simp: s2_def\<close>)
  define s3 where "s3 = s2\<lparr>swap_bitmap := Some b', swap_io := ios, swap_data := page_out (i * PAGE_SIZE) d s2\<rparr>"
  let ?e = "e\<lparr>diskpage_location := Some d, vstate := Swapped\<rparr>" let ?sp = "sp\<lparr>start_page_table := ps @ ?e # qs\<rparr>"
  let ?s = "set_as a ?sp s3" let ?M = "(aspaces s)(a \<mapsto> ?sp)"
  have asp: "aspaces s3 = aspaces s" "aspaces ?s = ?M" by (simp_all add: s3_def s2_def set_as_def)
  have run: "evict_page s = Some (i * PAGE_SIZE, ?s)"
    using hand(1,3,4) rd own e(1,3,4,6) ti w(1) mem asp(1) unfolding evict_page_def
    by (simp add: e(2) wr_def evicting_def put_pte_def s3_def Let_def)
  have "s3 = s\<lparr>tlb := t, swap_bitmap := Some b', swap_io := ios, swap_data := page_out (i * PAGE_SIZE) d s2, kh := ?h\<rparr>"
    unfolding s3_def by (cases s) (simp add: s2_def)
  then have "vmok ?M {} s3" using evict_vmok [OF ok e(1-5) hand(2) t(2,3) b(1) w(2-6)] by simp
  then have vm: "vm_ok ?s" unfolding asp(2) by (simp add: set_as_def)
  have pg: "page_out (i * PAGE_SIZE) d s2 = page_out (i * PAGE_SIZE) d s" by (simp add: page_out_def s2_def cong: if_cong)
  have am: "amem ?s = amem s"
    by (rule evict_amem [OF ok e(1-4) b(1) w(2) _ _ _ asp(2)]) (use ev(2) pg in \<open>simp_all add: set_as_def s3_def s2_def\<close>)
  have "state (coremap (kh ?s) ! i) = In_eviction" using ev(4) [of i] hand(3) by (simp add: set_as_def s3_def s2_def)
  then show thesis by (intro that [OF run vm am i]) (simp_all add: set_as_def s3_def s2_def)
qed

end
