(* ===== verification/Vmdemo.thy ===== *)
theory Vmdemo
  imports Vmevict
begin

text \<open>
  The steps of the virtual memory system and that each keeps it consistent; and a small concrete machine, one address space with one
  mapped page, on which the hypotheses of the properties hold.
\<close>

section \<open>Switching to an address space\<close>

lemma as_activate_ok:
  assumes ok: "vmok M X s" and M: "M a = Some sp"
  shows "vmok M X (as_activate (s\<lparr>cur_as := a\<rparr>))" "kroom (as_activate (s\<lparr>cur_as := a\<rparr>)) = kroom s"
    "aspaces (as_activate (s\<lparr>cur_as := a\<rparr>)) = aspaces s" "cur_as (as_activate (s\<lparr>cur_as := a\<rparr>)) = a"
    "kh (as_activate (s\<lparr>cur_as := a\<rparr>)) = kh s"
proof -
  let ?t = "map (\<lambda>i. (TLBHI_INVALID i, 0 :: u32)) [0..<NUM_TLB]" let ?s = "s\<lparr>cur_as := a, tlb := ?t\<rparr>"
  have a0: "a \<noteq> 0" by (rule space_addr_live(2) [OF ok M])
  have s: "as_activate (s\<lparr>cur_as := a\<rparr>) = ?s" using a0 unfolding as_activate_def by simp
  have "distinct (map fst ?t)" unfolding distinct_conv_nth
  proof (intro allI impI)
    fix i j assume ij: "i < length (map fst ?t)" "j < length (map fst ?t)" "i \<noteq> j"
    then show "map fst ?t ! i \<noteq> map fst ?t ! j" using TLBHI_INVALID_inj [of i j] by auto
  qed
  then have "tlb_ok M ?s" using M by (simp add: tlb_ok_def del: upt_rec_numeral)
  moreover have "as_ok ?s = as_ok s" by (rule as_ok_cong) (simp_all add: wchans_def)
  moreover have "kobj_ok ?s = kobj_ok s" by (simp add: kobj_ok_def wchans_def)
  ultimately have "vmok M X ?s" using ok by (simp add: vmok_def)
  then show "vmok M X (as_activate (s\<lparr>cur_as := a\<rparr>))" unfolding s .
  show "kroom (as_activate (s\<lparr>cur_as := a\<rparr>)) = kroom s" "aspaces (as_activate (s\<lparr>cur_as := a\<rparr>)) = aspaces s"
    "cur_as (as_activate (s\<lparr>cur_as := a\<rparr>)) = a" "kh (as_activate (s\<lparr>cur_as := a\<rparr>)) = kh s"
    unfolding s by simp_all
qed

section \<open>All operations keep the system consistent\<close>

lemma as_define_region_ok:
  assumes ok: "vm_ok s" "kroom s" and a: "aspaces s a = Some sp" and run: "as_define_region a va sz r w x s = Some (res, s')"
  shows "vm_ok s'"
  using ok a
proof (cases rule: add_region_ok)
  case (fail s1)
  then show ?thesis using run by (auto simp: as_define_region_def split: bind_splits if_splits)
next
  case (got p s1)
  let ?sz = "(sz + ((va AND PAGE_FRAME) AND NOT PAGE_FRAME) + 4096 - 1) AND PAGE_FRAME"
  let ?r = "\<lparr>rg_addr = p, rg_start = va AND PAGE_FRAME, rg_size = ?sz, rg_npages = ?sz div 4096, rg_read = (r AND 4 \<noteq> 0),
    rg_write = (w AND 2 \<noteq> 0), rg_execute = (x AND 1 \<noteq> 0)\<rparr>"
  have "s' = set_as a (sp\<lparr>start_region := start_region sp @ [?r]\<rparr>) s1"
    using run got(1-3) a by (simp add: as_define_region_def Let_def split: bind_splits)
  then show ?thesis using got(6) [of ?r s'] by simp
qed

lemma as_prepare_load_ok:
  assumes ok: "vm_ok s" and a: "aspaces s a = Some sp" and run: "as_prepare_load a s = Some s'"
  shows "vm_ok s'"
  using set_heap_bounds(1) [OF ok a] run a by (auto simp: as_prepare_load_def Let_def split: bind_splits)

lemma sys_sbrk_vm_ok:
  assumes ok: "vm_ok s" and c: "cur_as s \<noteq> 0" and sp: "aspaces s (cur_as s) = Some sp" and run: "sys_sbrk w s = Some (r, s')"
  shows "vm_ok s'"
proof -
  have set: "vm_ok (set_as a (sp1\<lparr>heap_end := h\<rparr>) s1)" if "vm_ok s1" "aspaces s1 a = Some sp1" for a sp1 s1 h
    using set_heap_bounds(1) [OF that refl, where h = "heap_start sp1" and h' = h] by simp
  obtain s1 es where 1: "sbrk_loop (cur_as s) (heap_end sp) 0 (nat (- sint w div 4096)) s = Some s1" "vm_ok s1"
    "aspaces s1 = (aspaces s)(cur_as s \<mapsto> sp\<lparr>start_page_table := es\<rparr>)"
    using sbrk_loop_ok [OF ok c sp, of "heap_end sp" 0 "nat (- sint w div 4096)"] by blast
  have "s' = s \<or> s' = set_as (cur_as s) (sp\<lparr>heap_end := heap_end sp + w\<rparr>) s
      \<or> s' = set_as (cur_as s) (sp\<lparr>start_page_table := es, heap_end := heap_end sp + w\<rparr>) s1"
    using run sp c 1(1,3) by (auto simp: sys_sbrk_def Let_def split: if_splits)
  then show ?thesis
  proof (elim disjE)
    assume "s' = set_as (cur_as s) (sp\<lparr>heap_end := heap_end sp + w\<rparr>) s"
    then show ?thesis by (simp only: set [OF ok sp])
  next
    assume "s' = set_as (cur_as s) (sp\<lparr>start_page_table := es, heap_end := heap_end sp + w\<rparr>) s1"
    moreover have "aspaces s1 (cur_as s) = Some (sp\<lparr>start_page_table := es\<rparr>)" using 1(3) by simp
    ultimately show ?thesis by (simp only: set [OF 1(2)])
  qed (use ok in simp)
qed

text \<open>The operations of the virtual memory system, each under the conditions its callers establish: an allocating operation finds
  room in the heap's root table, a fault comes from a user address that missed the TLB, and nobody destroys the space in use. A
  fault that runs out of memory is left out: it may leave a freed entry behind.\<close>

inductive vm_step :: "vmsys \<Rightarrow> vmsys \<Rightarrow> bool" where
  fault: "vm_fault rnd fa s = Some (r, s') \<Longrightarrow> r \<noteq> Inl ENOMEM \<Longrightarrow> rnd < NUM_TLB \<Longrightarrow> fa < MIPS_KSEG0 \<Longrightarrow>
    fa AND PAGE_FRAME \<notin> fst ` set (tlb s) \<Longrightarrow> kroom s \<Longrightarrow> vm_step s s'"
| create: "as_create s = Some (a, s') \<Longrightarrow> kroom s \<Longrightarrow> vm_step s s'"
| destroy: "as_destroy a s = Some s' \<Longrightarrow> a \<noteq> cur_as s \<Longrightarrow> vm_step s s'"
| copy: "as_copy a s = Some (res, s') \<Longrightarrow> aspaces s a \<noteq> None \<Longrightarrow> kroom s \<Longrightarrow> vm_step s s'"
| region: "as_define_region a va sz re wt ex s = Some (res', s') \<Longrightarrow> aspaces s a \<noteq> None \<Longrightarrow> kroom s \<Longrightarrow> vm_step s s'"
| prepare: "as_prepare_load a s = Some s' \<Longrightarrow> vm_step s s'"
| activate: "aspaces s a \<noteq> None \<Longrightarrow> vm_step s (as_activate (s\<lparr>cur_as := a\<rparr>))"
| sbrk: "sys_sbrk w s = Some (res, s') \<Longrightarrow> vm_step s s'"
| evict: "evict_page s = Some (pa, s') \<Longrightarrow> swap_bitmap s = Some b \<Longrightarrow> \<not> {..<nbits b} \<subseteq> bitmap_used b \<Longrightarrow>
    Used \<in> set (map state (coremap (kh s))) \<Longrightarrow> eviction_pointer (kh s) < length (coremap (kh s)) \<Longrightarrow> vm_step s s'"

lemma vm_step_ok:
  assumes st: "vm_step s s'" and ok: "vm_ok s"
  shows "vm_ok s'"
  using st
proof cases
  case (fault rnd fa r)
  show ?thesis
  proof (cases "cur_as s = 0")
    case True
    then show ?thesis using fault(1) ok by (simp add: vm_fault_def)
  next
    case False
    then obtain sp where sp: "aspaces s (cur_as s) = Some sp" using cur_as_space [OF ok] by blast
    from ok fault(6,3,4,5) False sp show ?thesis by (cases rule: vm_fault_ok) (use fault(1,2) ok in simp_all)
  qed
next
  case (create a)
  from ok create(2) show ?thesis by (cases rule: as_create_ok) (use create(1) in simp_all)
next
  case (destroy a)
  then obtain sp where sp: "aspaces s a = Some sp" by (auto simp: as_destroy_def split: bind_splits)
  show ?thesis by (rule as_destroy_amem [OF ok sp destroy(2)]) (use destroy(1) in simp)
next
  case (copy a res)
  then obtain sp where sp: "aspaces s a = Some sp" by blast
  from ok copy(3) sp show ?thesis by (cases rule: as_copy_ok) (use copy(1) in simp_all)
next
  case (region a va sz re wt ex res')
  then show ?thesis using as_define_region_ok [OF ok] by blast
next
  case (prepare a)
  moreover obtain sp where "aspaces s a = Some sp" using prepare by (auto simp: as_prepare_load_def split: bind_splits)
  ultimately show ?thesis using as_prepare_load_ok [OF ok] by blast
next
  case (activate a)
  then obtain sp where sp: "aspaces s a = Some sp" by blast
  show ?thesis unfolding activate(1) as_activate_ok(3) [OF ok sp] by (rule as_activate_ok(1) [OF ok sp])
next
  case (sbrk w res)
  then have "cur_as s \<noteq> 0" by (auto simp: sys_sbrk_def Let_def split: bind_splits)
  then show ?thesis using sys_sbrk_vm_ok [OF ok _ _ sbrk] cur_as_space [OF ok] by blast
next
  case (evict pa b)
  obtain j where "j < length (coremap (kh s))" "state (coremap (kh s) ! j) = Used"
    using evict(4) by (metis in_set_conv_nth length_map nth_map)
  from evict_page_ok [OF ok evict(2,3) this evict(5)] show ?thesis using evict(1) by auto
qed

lemma reachable_ok: "vm_step\<^sup>*\<^sup>* s s' \<Longrightarrow> vm_ok s \<Longrightarrow> vm_ok s'"
  by (induction rule: rtranclp_induct) (auto intro: vm_step_ok)

section \<open>A small machine\<close>

fun demo_blocks :: "nat \<Rightarrow> kheap \<Rightarrow> (vaddr list \<times> kheap) option" where
  "demo_blocks 0 h = Some ([], h)"
| "demo_blocks (Suc n) h = do { (a, h1) \<leftarrow> kmalloc 1500 h; (as, h2) \<leftarrow> demo_blocks n h1; Some (a # as, h2) }"

lemma demo_blocks_ok:
  assumes "demo_blocks n h = Some (as, h')" "heap_ok h" "roots_room h" "0 \<notin> set as"
  shows "heap_ok h' \<and> roots_room h' \<and> kframe h h' \<and> distinct as \<and> set as \<inter> live_addrs h = {} \<and> live_addrs h' = set as \<union> live_addrs h"
  using assms
proof (induction n arbitrary: h as)
  case (Suc n)
  from Suc.prems(1) obtain a h1 as1 where r: "kmalloc 1500 h = Some (a, h1)" "demo_blocks n h1 = Some (as1, h')" "as = a # as1"
    by (auto split: bind_splits)
  have "(1500 :: u32) < LARGEST_SUBPAGE_SIZE" by simp
  with Suc.prems(2,3) show ?case
  proof (cases rule: kmalloc_addr_ok)
    case (fail s')
    then show ?thesis using r Suc.prems(4) by simp
  next
    case (got a' s')
    then have [simp]: "a' = a" "s' = h1" using r(1) by simp_all
    have "heap_ok h' \<and> roots_room h' \<and> kframe h1 h' \<and> distinct as1 \<and> set as1 \<inter> live_addrs h1 = {} \<and> live_addrs h' = set as1 \<union> live_addrs h1"
      by (rule Suc.IH [OF r(2)]) (use got r(3) Suc.prems(4) in auto)
    then show ?thesis using got kframe_trans r(3) by auto
  qed
qed simp

definition demo_kheap :: kheap where
  "demo_kheap = snd (the (demo_blocks 5 demo_heap))"

lemma demo_blocks_run: "demo_blocks 5 demo_heap = Some ([0x80002800, 0x80002000, 0x80004800, 0x80004000, 0x80005800], demo_kheap)"
proof -
  have "map_option fst (demo_blocks 5 demo_heap) = Some [0x80002800, 0x80002000, 0x80004800, 0x80004000, 0x80005800]" by code_simp
  then show ?thesis by (auto simp: demo_kheap_def)
qed

text \<open>The address space at the first block; the other four belong to its one entry, whose page is mapped at \<^verbatim>\<open>0x1000\<close>.\<close>

definition demo_swap :: bitmap where
  "demo_swap = the (fst (the (bitmap_create 8 [])))"

definition demo_sys0 :: vmsys where
  "demo_sys0 = \<lparr>kh = demo_kheap, allwchans = \<lparr>arr_v = [Some 0x80005800, None, None, None], arr_num = 1, arr_max = 4\<rparr>,
     wc_index = (\<lambda>w. 0), koracle = [], aspaces = Map.empty, cur_as = 0, tlb = replicate NUM_TLB (0, 0),
     swap_bitmap = Some demo_swap, swap_data = (\<lambda>x. 0), swap_io = []\<rparr>"

abbreviation demo_as :: vaddr where "demo_as \<equiv> 0x80002800"

definition demo_pte :: page_table_entry where
  "demo_pte = \<lparr>pte_addr = 0x80002000, as_vpage = 0x1000, as_ppage = Some (6 * PAGE_SIZE), vpage_permission = None, vstate = Mapped,
     diskpage_location = None, pte_lock = \<lparr>lk_addr = 0x80004800, lk_name = 0x80004000, lk_wchan = 0x80005800\<rparr>, pte_freed = False\<rparr>"

definition demo_space :: addrspace where
  "demo_space = \<lparr>start_region = [], start_page_table = [demo_pte], heap_start = 0x1000, heap_end = 0x3000\<rparr>"

definition demo_sys1 :: vmsys where
  "demo_sys1 = demo_sys0\<lparr>kh := upage_taken 6 (unat demo_as) 0x1000 False demo_kheap, aspaces := [demo_as \<mapsto> demo_space]\<rparr>"

definition demo_sys :: vmsys where
  "demo_sys = as_activate (demo_sys1\<lparr>cur_as := demo_as\<rparr>)"

lemma demo_kheap_ok:
  "heap_ok demo_kheap" "roots_room demo_kheap" "live_addrs demo_kheap = {0x80002800, 0x80002000, 0x80004800, 0x80004000, 0x80005800}"
proof -
  have "live_addrs demo_heap = {}" using demo_heap_ok(3) by (simp add: live_addrs_def)
  then show "heap_ok demo_kheap" "roots_room demo_kheap" "live_addrs demo_kheap = {0x80002800, 0x80002000, 0x80004800, 0x80004000, 0x80005800}"
    using demo_blocks_ok [OF demo_blocks_run demo_heap_ok(1,2)] by simp_all
qed

lemma demo_coremap:
  "map state (coremap demo_kheap) = replicate 6 Fixed @ replicate 6 Free" "first_page demo_kheap = 2" "eviction_pointer demo_kheap = 2"
proof -
  have "(map state (coremap demo_kheap), first_page demo_kheap, eviction_pointer demo_kheap) =
      (replicate 6 Fixed @ replicate 6 Free, 2, 2)" by code_simp
  then show "map state (coremap demo_kheap) = replicate 6 Fixed @ replicate 6 Free" "first_page demo_kheap = 2" "eviction_pointer demo_kheap = 2"
    by simp_all
qed

lemma demo_state: "i < 12 \<Longrightarrow> state (coremap demo_kheap ! i) = (if i < 6 then Fixed else Free)" "length (coremap demo_kheap) = 12"
proof -
  show len: "length (coremap demo_kheap) = 12" using arg_cong [OF demo_coremap(1), of length] by simp
  assume i: "i < 12"
  have "state (coremap demo_kheap ! i) = (replicate 6 Fixed @ replicate 6 Free) ! i"
    using arg_cong [OF demo_coremap(1), of "\<lambda>l. l ! i"] i len by simp
  also have "\<dots> = (if i < 6 then Fixed else Free)" using i by (simp add: nth_append)
  finally show "state (coremap demo_kheap ! i) = (if i < 6 then Fixed else Free)" .
qed

lemma demo_swap_ok: "bitmap_ok demo_swap" "nbits demo_swap = 8" "bitmap_used demo_swap = {}"
proof -
  have "unat (8 :: u32) \<le> 2 ^ 32 - 8" "kmalloc_ok [] = (True, [])" by simp_all
  from bitmap_create_eq [OF this this(2)] show "bitmap_ok demo_swap" "nbits demo_swap = 8" "bitmap_used demo_swap = {}"
    by (auto simp: demo_swap_def)
qed

lemma demo_sys0_ok: "vmok Map.empty {} demo_sys0"
proof -
  have w: "wchans demo_sys0 = [0x80005800]" by (simp add: wchans_def demo_sys0_def arr_list_def)
  have "array_ok (allwchans demo_sys0)" by (simp add: demo_sys0_def array_ok_def array_cap_ok_def)
  then have "kobj_ok demo_sys0" using demo_kheap_ok w by (simp add: kobj_ok_def demo_sys0_def)
  moreover have "state (coremap (kh demo_sys0) ! i) \<noteq> Used" if "i < length (coremap (kh demo_sys0))" for i
    using demo_state that by (simp add: demo_sys0_def)
  ultimately show ?thesis using demo_swap_ok by (simp add: vmok_def tlb_ok_def disk_apart_def demo_sys0_def)
qed

lemma demo_sys1_ok: "vm_ok demo_sys1" "kroom demo_sys1"
proof -
  let ?sp = "\<lparr>start_region = [], start_page_table = [], heap_start = 0x1000, heap_end = 0x3000\<rparr>"
  let ?h = "upage_taken 6 (unat demo_as) 0x1000 False demo_kheap" let ?s = "demo_sys0\<lparr>kh := ?h\<rparr>"
  have kh: "kh demo_sys0 = demo_kheap" by (simp add: demo_sys0_def)
  have w: "wchans demo_sys0 = [0x80005800]" by (simp add: wchans_def demo_sys0_def arr_list_def)
  let ?e = "\<lparr>start_region = [], start_page_table = [], heap_start = 0, heap_end = 0\<rparr>"
  have "vmok [demo_as \<mapsto> ?e] {} demo_sys0"
    by (rule vmok_new_space [OF demo_sys0_ok]) (simp_all add: kh demo_kheap_ok(3) w unowned_def, simp add: demo_sys0_def)
  from vmok_heap_bounds [OF this, where a = demo_as and sp = ?e and h = "0x1000" and h' = "0x3000"] have ok0: "vmok [demo_as \<mapsto> ?sp] {} demo_sys0" by simp
  have b: "first_page (kh demo_sys0) \<le> 6" "6 < length (coremap (kh demo_sys0))" "state (coremap (kh demo_sys0) ! 6) = Free"
    using demo_state(1) [of 6] demo_state(2) demo_coremap(2) by (simp_all add: kh)
  have ok1: "vmok [demo_as \<mapsto> ?sp] {6} ?s" using vmok_take_page [OF ok0 b] by (simp add: kh)
  note uk = uchange_kobj [OF vmokD(1) [OF ok0] uchange_upage_taken [OF vmok_heap(3) [OF ok0] b]]
  have lv: "lv ?s = {0x80002800, 0x80002000, 0x80004800, 0x80004000, 0x80005800}" using uk(2) demo_kheap_ok(3) by (simp add: kh)
  have "owns_frame (coremap ?h) demo_as 0x1000 6" using b(2) by (simp add: owns_frame_def kh)
  then have pe: "pte_ok ?s demo_as demo_pte" by (auto simp: pte_ok_def demo_pte_def)
  have "vmok ([demo_as \<mapsto> ?sp](demo_as \<mapsto> ?sp\<lparr>start_page_table := start_page_table ?sp @ [demo_pte]\<rparr>)) ({6} - {6}) ?s"
  proof (rule link_pte [OF ok1 _ pe])
    show "blocks_ok ?s (pte_plain demo_pte) [pte_wchan demo_pte]"
      using lv w by (simp add: blocks_ok_def pte_plain_def demo_pte_def wchans_def)
    show "unowned [demo_as \<mapsto> ?sp] (set (pte_blocks demo_pte))"
      by (simp add: unowned_def pte_blocks_def pte_plain_def demo_pte_def as_plain_def as_wchans_def)
  qed (simp_all add: as_frames_def demo_pte_def)
  then show "vm_ok demo_sys1" by (simp add: demo_sys1_def demo_space_def)
  show "kroom demo_sys1" using uk(3) demo_kheap_ok(2) by (simp add: demo_sys1_def kh)
qed

lemma demo_lv: "lv demo_sys1 = {0x80002800, 0x80002000, 0x80004800, 0x80004000, 0x80005800}"
proof -
  have kh: "kh demo_sys0 = demo_kheap" by (simp add: demo_sys0_def)
  have b: "first_page (kh demo_sys0) \<le> 6" "6 < length (coremap (kh demo_sys0))" "state (coremap (kh demo_sys0) ! 6) = Free"
    using demo_state(1) [of 6] demo_state(2) demo_coremap(2) by (simp_all add: kh)
  from uchange_kobj(2) [OF vmokD(1) [OF demo_sys0_ok] uchange_upage_taken [OF vmok_heap(3) [OF demo_sys0_ok] b]]
  show ?thesis using demo_kheap_ok(3) by (simp add: demo_sys1_def kh)
qed

lemma demo_sys_ok: "vm_ok demo_sys" "kroom demo_sys" "aspaces demo_sys demo_as = Some demo_space" "cur_as demo_sys = demo_as"
proof -
  have sp: "aspaces demo_sys1 demo_as = Some demo_space" by (simp add: demo_sys1_def)
  note a = as_activate_ok [OF demo_sys1_ok(1) sp]
  show "vm_ok demo_sys" "kroom demo_sys" "aspaces demo_sys demo_as = Some demo_space" "cur_as demo_sys = demo_as"
    unfolding demo_sys_def using a demo_sys1_ok(2) sp by simp_all
qed

lemma demo_tlb: "set (tlb demo_sys) = (\<lambda>i. (TLBHI_INVALID i, 0)) ` {..<NUM_TLB}"
  unfolding demo_sys_def as_activate_def by (simp add: lessThan_atLeast0 del: upt_rec_numeral)

lemma demo_hand: "swap_bitmap demo_sys = Some demo_swap" "Used \<in> set (map state (coremap (kh demo_sys)))"
  "eviction_pointer (kh demo_sys) < length (coremap (kh demo_sys))" "memory_end (kh demo_sys) div PAGE_SIZE = length (coremap (kh demo_sys))"
proof -
  have kh: "kh demo_sys = upage_taken 6 (unat demo_as) 0x1000 False demo_kheap"
    by (simp add: demo_sys_def as_activate_def demo_sys1_def demo_sys0_def)
  show "swap_bitmap demo_sys = Some demo_swap" by (simp add: demo_sys_def as_activate_def demo_sys1_def demo_sys0_def)
  show "Used \<in> set (map state (coremap (kh demo_sys)))"
    using demo_state(2) unfolding kh in_set_conv_nth by (intro exI [of _ 6]) simp
  show "eviction_pointer (kh demo_sys) < length (coremap (kh demo_sys))"
    using demo_coremap(3) demo_state(2) unfolding kh by (simp add: upage_taken_def as_zero_region_def)
  show "memory_end (kh demo_sys) div PAGE_SIZE = length (coremap (kh demo_sys))"
    using vmok_heap(3) [OF demo_sys_ok(1)] by (simp add: coremap_ok_def)
qed

end
