(* ===== verification/Vmprops.thy ===== *)
theory Vmprops
  imports Vmdemo
begin

text \<open>
  The properties of the virtual memory system.
\<close>

section \<open>Properties\<close>







text \<open>C10. \<^verbatim>\<open>as_destroy\<close> of a space that is not in use returns normally and takes away exactly that space: every other space keeps its
  contents, and the heap blocks that are gone are precisely the structure itself, its region nodes and its page table entries with
  their locks, lock names and wait channels.\<close>

theorem as_destroy_exact:
  assumes "vm_ok s" and "aspaces s a = Some sp" and "a \<noteq> cur_as s"
  shows "\<exists>s'. as_destroy a s = Some s' \<and> vm_ok s' \<and> aspaces s' = (aspaces s)(a := None) \<and> amem s' = (amem s)(a := None)
    \<and> lv s' = lv s - set (as_plain a sp @ as_wchans sp)"
proof -
  obtain s' where s': "as_destroy a s = Some s'" "vm_ok s'" "aspaces s' = (aspaces s)(a := None)" "amem s' = (amem s)(a := None)"
    "lv s' = lv s - set (as_plain a sp @ as_wchans sp)" by (rule as_destroy_amem [OF assms])
  then show ?thesis by (intro exI [of _ s'] conjI)
qed

theorem as_destroy_exact_witness:
  "\<exists>s'. as_destroy demo_as demo_sys1 = Some s' \<and> vm_ok s' \<and> aspaces s' demo_as = None \<and> lv s' = {}"
proof -
  have d: "aspaces demo_sys1 demo_as = Some demo_space" "demo_as \<noteq> cur_as demo_sys1" by (simp_all add: demo_sys1_def demo_sys0_def)
  obtain s' where s': "as_destroy demo_as demo_sys1 = Some s'" "vm_ok s'" "aspaces s' = (aspaces demo_sys1)(demo_as := None)"
    "lv s' = lv demo_sys1 - set (as_plain demo_as demo_space @ as_wchans demo_space)"
    using as_destroy_exact [OF demo_sys1_ok(1) d] by blast
  have "lv s' = {}" unfolding s'(4) demo_lv
    by (auto simp: as_plain_def as_wchans_def demo_space_def demo_pte_def pte_plain_def)
  then show ?thesis using s'(1-3) by (intro exI [of _ s'] conjI) simp_all
qed





text \<open>C33. The clock hand is live: from any position, as long as one page of the coremap is in use, the search of \<^verbatim>\<open>evict_page\<close> ends, at a
  used page without reference bit, having changed nothing but reference bits and the hand.\<close>

theorem clock_hand_ends:
  assumes "memory_end h div PAGE_SIZE = length (coremap h)" and "eviction_pointer h < length (coremap h)"
    and "Used \<in> set (map state (coremap h))"
  shows "\<exists>cm p. clock_hand h = Some (h\<lparr>coremap := cm, eviction_pointer := p\<rparr>) \<and> refs_only (coremap h) cm
    \<and> p < length cm \<and> state (cm ! p) = Used \<and> \<not> ref_bit (cm ! p)"
proof -
  obtain j where j: "j < length (coremap h)" "state (coremap h ! j) = Used"
    using assms(3) by (metis in_set_conv_nth length_map nth_map)
  obtain d where "d < length (coremap h)" "(eviction_pointer h + d) mod length (coremap h) = j" by (rule hand_distance [OF assms(2) j(1)])
  then show ?thesis using clock_hand_stops [OF assms(1,2)] j(2) by simp
qed

theorem clock_hand_ends_witness:
  "\<exists>cm p. clock_hand (kh demo_sys) = Some ((kh demo_sys)\<lparr>coremap := cm, eviction_pointer := p\<rparr>) \<and> state (cm ! p) = Used"
  using clock_hand_ends [OF demo_hand(4,3,2)] by blast

end
