(* ===== verification/Cmem.thy ===== *)
theory Cmem
  imports Uio
begin

text \<open>
  The block functions of libc shared by kernel and userland, \<^verbatim>\<open>common/libc/string\<close>:
  \<^verbatim>\<open>memcpy.c\<close>, \<^verbatim>\<open>memmove.c\<close>, \<^verbatim>\<open>memset.c\<close>, \<^verbatim>\<open>bzero.c\<close>, and \<^verbatim>\<open>memcmp.c\<close> of the userland
  library. Memory is a function from 32-bit addresses to bytes and pointer arithmetic wraps.
  Each routine has the loop of the source, with its choice between a word loop and a byte
  loop. The lemmas show that both loops, in either direction, have the one effect the other
  components rely on: the block at \<open>dst\<close> receives what the block at \<open>src\<close> held.
\<close>

section \<open>Model\<close>

type_synonym bytes = "u32 \<Rightarrow> u8"

text \<open>\<^verbatim>\<open>sizeof(long)\<close> is 4 on the MIPS port.\<close>

definition word_aligned :: "u32 \<Rightarrow> u32 \<Rightarrow> nat \<Rightarrow> bool" where
  "word_aligned dst src len \<longleftrightarrow> unat dst mod 4 = 0 \<and> unat src mod 4 = 0 \<and> len mod 4 = 0"

text \<open>\<^verbatim>\<open>d[i] = s[i]\<close> for elements of \<open>k\<close> bytes: the whole element is loaded, then stored.\<close>

definition move_elem :: "nat \<Rightarrow> u32 \<Rightarrow> u32 \<Rightarrow> nat \<Rightarrow> bytes \<Rightarrow> bytes" where
  "move_elem k dst src i m =
     kwrite m (dst + of_nat (k * i)) (kread m (src + of_nat (k * i)) k)"

definition memcpy :: "u32 \<Rightarrow> u32 \<Rightarrow> nat \<Rightarrow> bytes \<Rightarrow> bytes" where
  "memcpy dst src len m =
     (if word_aligned dst src len
      then fold (move_elem 4 dst src) [0..<len div 4] m
      else fold (move_elem 1 dst src) [0..<len] m)"

definition memmove_loops :: "u32 \<Rightarrow> u32 \<Rightarrow> nat \<Rightarrow> bytes \<Rightarrow> bytes" where
  "memmove_loops dst src len m =
     (if dst < src then memcpy dst src len m
      else if word_aligned dst src len
      then fold (move_elem 4 dst src) (rev [0..<len div 4]) m
      else fold (move_elem 1 dst src) (rev [0..<len]) m)"

definition set_elem :: "u8 list \<Rightarrow> u32 \<Rightarrow> nat \<Rightarrow> bytes \<Rightarrow> bytes" where
  "set_elem v p i m = kwrite m (p + of_nat (length v * i)) v"

text \<open>\<^verbatim>\<open>p[i] = ch\<close> truncates the \<^verbatim>\<open>int\<close> argument to a \<^verbatim>\<open>char\<close>.\<close>

definition memset :: "u32 \<Rightarrow> u32 \<Rightarrow> nat \<Rightarrow> bytes \<Rightarrow> bytes" where
  "memset p ch len m = fold (set_elem [ucast ch] p) [0..<len] m"

definition bzero :: "u32 \<Rightarrow> nat \<Rightarrow> bytes \<Rightarrow> bytes" where
  "bzero p len m =
     (if unat p mod 4 = 0 \<and> len mod 4 = 0
      then fold (set_elem [0, 0, 0, 0] p) [0..<len div 4] m
      else fold (set_elem [0] p) [0..<len] m)"

text \<open>\<^verbatim>\<open>(int)(a[i] - b[i])\<close>: both operands are promoted to \<^verbatim>\<open>int\<close>.\<close>

fun memcmp_loop :: "u32 \<Rightarrow> u32 \<Rightarrow> nat \<Rightarrow> nat \<Rightarrow> bytes \<Rightarrow> int" where
  "memcmp_loop a b i 0 m = 0"
| "memcmp_loop a b i (Suc n) m =
     (if m (a + of_nat i) \<noteq> m (b + of_nat i)
      then int (unat (m (a + of_nat i))) - int (unat (m (b + of_nat i)))
      else memcmp_loop a b (Suc i) n m)"

definition memcmp :: "u32 \<Rightarrow> u32 \<Rightarrow> nat \<Rightarrow> bytes \<Rightarrow> int" where
  "memcmp a b len m = memcmp_loop a b 0 len m"

section \<open>The copying loops\<close>

text \<open>A block that does not run over the top of memory.\<close>

definition block_ok :: "u32 \<Rightarrow> nat \<Rightarrow> bool" where
  "block_ok p len \<longleftrightarrow> unat p + len \<le> 4294967296"

lemma unat_offset:
  assumes "block_ok p len" "i < len"
  shows "unat (p + of_nat i) = unat p + i"
proof -
  have "i < 4294967296" "unat p + i < 4294967296" using assms by (simp_all add: block_ok_def)
  then show ?thesis by (simp add: unat_word_ariths unat_of_nat_u32)
qed

lemma unat_diff_block:
  assumes "block_ok p len"
  shows "unat (x - p) < len \<longleftrightarrow> (\<exists>i<len. x = p + of_nat i)"
    and "i < len \<Longrightarrow> unat (p + of_nat i - p) = i"
proof -
  have lt: "i < 4294967296" if "i < len" for i using that assms by (simp add: block_ok_def)
  show "unat (p + of_nat i - p) = i" if "i < len" for i using lt [OF that] by (simp add: unat_of_nat_u32)
  show "unat (x - p) < len \<longleftrightarrow> (\<exists>i<len. x = p + of_nat i)"
  proof
    assume "unat (x - p) < len"
    then show "\<exists>i<len. x = p + of_nat i" by (intro exI [of _ "unat (x - p)"]) simp
  next
    assume "\<exists>i<len. x = p + of_nat i"
    then show "unat (x - p) < len" using lt by (auto simp: unat_of_nat_u32)
  qed
qed

lemma unat_neg_of_nat:
  assumes "0 < n" "n < 4294967296"
  shows "unat (- of_nat n :: u32) = 4294967296 - n"
proof -
  have "of_nat (4294967296 - n) + of_nat n = (of_nat (4294967296 - n + n) :: u32)" by (simp only: of_nat_add)
  also have "\<dots> = 0" using assms by simp
  finally have "- of_nat n = (of_nat (4294967296 - n) :: u32)" by (simp add: eq_neg_iff_add_eq_0 [symmetric])
  then have "unat (- of_nat n :: u32) = unat (of_nat (4294967296 - n) :: u32)" by (rule arg_cong)
  also have "\<dots> = 4294967296 - n" using assms by (intro unat_of_nat_u32) simp
  finally show ?thesis .
qed

lemma kwrite_append:
  assumes "length xs + length ys \<le> 4294967296"
  shows "kwrite m p (xs @ ys) = kwrite (kwrite m p xs) (p + of_nat (length xs)) ys"
proof
  fix x
  define j where "j = unat (x - p)"
  have xj: "x = p + of_nat j" by (simp add: j_def)
  have jl: "j < 4294967296" unfolding j_def by (rule unat_u32_less)
  have off: "x - (p + of_nat (length xs)) = of_nat j - of_nat (length xs)" by (simp add: xj)
  show "kwrite m p (xs @ ys) x = kwrite (kwrite m p xs) (p + of_nat (length xs)) ys x"
  proof (cases "length xs \<le> j")
    case True
    then have "of_nat j - of_nat (length xs) = (of_nat (j - length xs) :: u32)" by (simp add: of_nat_diff)
    then have "unat (x - (p + of_nat (length xs))) = j - length xs"
      using jl by (simp add: off unat_of_nat_u32)
    then show ?thesis using True by (auto simp: kwrite_def j_def [symmetric] nth_append)
  next
    case False
    then have "of_nat j - of_nat (length xs) = - (of_nat (length xs - j) :: u32)" by (simp add: of_nat_diff)
    then have "unat (x - (p + of_nat (length xs))) = unat (- of_nat (length xs - j) :: u32)"
      unfolding off by (rule arg_cong)
    also have "\<dots> = 4294967296 - (length xs - j)" if "length xs < 4294967296"
      using False that by (intro unat_neg_of_nat) simp_all
    finally have "\<not> unat (x - (p + of_nat (length xs))) < length ys"
      using False assms by (cases "ys = []") auto
    then show ?thesis using False by (simp add: kwrite_def j_def [symmetric] nth_append)
  qed
qed

text \<open>What memory is when the bytes with an offset in \<open>A\<close> have been moved.\<close>

definition moved :: "u32 \<Rightarrow> u32 \<Rightarrow> (nat \<Rightarrow> bool) \<Rightarrow> bytes \<Rightarrow> bytes" where
  "moved dst src A m = (\<lambda>x. if A (unat (x - dst)) then m (src + (x - dst)) else m x)"

lemma moved_none: "(\<And>i. \<not> A i) \<Longrightarrow> moved dst src A m = m"
  by (simp add: moved_def fun_eq_iff)

lemma moved_all: "moved dst src (\<lambda>i. i < len) m = kwrite m dst (kread m src len)"
  by (auto simp: moved_def kwrite_def fun_eq_iff)

text \<open>One element more, when no byte still to be read has been overwritten.\<close>

lemma move_elem_moved:
  assumes blk: "block_ok dst len" "block_ok src len" and r: "k * i + k \<le> len"
    and A: "\<And>j. A j \<Longrightarrow> j < len"
    and unread: "\<And>j t. A j \<Longrightarrow> t < k \<Longrightarrow> dst + of_nat j \<noteq> src + of_nat (k * i + t)"
  shows "move_elem k dst src i (moved dst src A m) =
    moved dst src (\<lambda>j. A j \<or> (k * i \<le> j \<and> j < k * i + k)) m"
proof
  fix x
  define j where "j = unat (x - dst)"
  have xj: "x = dst + of_nat j" by (simp add: j_def)
  have off: "x - (dst + of_nat (k * i)) = of_nat j - of_nat (k * i)" by (simp add: xj)
  have jl: "j < 4294967296" unfolding j_def by (rule unat_u32_less)
  have len: "len \<le> 4294967296" using blk(1) by (simp add: block_ok_def)
  have rng: "unat (x - (dst + of_nat (k * i))) < k \<longleftrightarrow> k * i \<le> j \<and> j < k * i + k"
  proof (cases "k * i \<le> j")
    case True
    then have "of_nat j - of_nat (k * i) = (of_nat (j - k * i) :: u32)" by (simp add: of_nat_diff)
    then have "unat (x - (dst + of_nat (k * i))) = j - k * i"
      using jl by (simp add: off unat_of_nat_u32 del: of_nat_mult)
    then show ?thesis using True by auto
  next
    case False
    then have "of_nat j - of_nat (k * i) = - (of_nat (k * i - j) :: u32)" by (simp add: of_nat_diff)
    then have "unat (x - (dst + of_nat (k * i))) = unat (- of_nat (k * i - j) :: u32)"
      unfolding off by (rule arg_cong)
    also have "\<dots> = 4294967296 - (k * i - j)" using False r len by (intro unat_neg_of_nat) (cases k; simp)+
    finally have "unat (x - (dst + of_nat (k * i))) = 4294967296 - (k * i - j)" .
    then show ?thesis using False r len by linarith
  qed
  have rd: "moved dst src A m (src + of_nat (k * i + t)) = m (src + of_nat (k * i + t))" if "t < k" for t
  proof -
    let ?y = "src + of_nat (k * i + t)"
    have "\<not> A (unat (?y - dst))" using unread [of "unat (?y - dst)" t] that by auto
    then show ?thesis by (simp add: moved_def)
  qed
  show "move_elem k dst src i (moved dst src A m) x =
      moved dst src (\<lambda>j. A j \<or> (k * i \<le> j \<and> j < k * i + k)) m x"
  proof (cases "k * i \<le> j \<and> j < k * i + k")
    case True
    then have "of_nat j - of_nat (k * i) = (of_nat (j - k * i) :: u32)" by (simp add: of_nat_diff)
    then have o: "unat (x - (dst + of_nat (k * i))) = j - k * i"
      using jl by (simp add: off unat_of_nat_u32 del: of_nat_mult)
    have t: "j - k * i < k" "k * i + (j - k * i) = j" using True by linarith+
    have "move_elem k dst src i (moved dst src A m) x =
        moved dst src A m (src + of_nat (k * i) + of_nat (j - k * i))"
      using t(1) unfolding move_elem_def kwrite_def o by (simp del: of_nat_mult of_nat_diff)
    also have "\<dots> = moved dst src A m (src + of_nat (k * i + (j - k * i)))"
      by (simp only: of_nat_add add.assoc)
    also have "\<dots> = m (src + of_nat j)" using rd [OF t(1)] unfolding t(2) .
    finally show ?thesis using True jl by (simp add: moved_def xj unat_of_nat_u32)
  next
    case False
    then have "\<not> unat (x - (dst + of_nat (k * i))) < k" using rng by simp
    then have "move_elem k dst src i (moved dst src A m) x = moved dst src A m x"
      by (simp add: move_elem_def kwrite_def del: of_nat_mult)
    also have "\<dots> = moved dst src (\<lambda>j. A j \<or> (k * i \<le> j \<and> j < k * i + k)) m x"
      using False unfolding moved_def j_def [symmetric] by auto
    finally show ?thesis .
  qed
qed

definition clear_fwd :: "u32 \<Rightarrow> u32 \<Rightarrow> nat \<Rightarrow> bool" where
  "clear_fwd dst src len \<longleftrightarrow> (\<forall>j<len. \<forall>t<len. j < t \<longrightarrow> dst + of_nat j \<noteq> src + of_nat t)"

definition clear_bwd :: "u32 \<Rightarrow> u32 \<Rightarrow> nat \<Rightarrow> bool" where
  "clear_bwd dst src len \<longleftrightarrow> (\<forall>j<len. \<forall>t<len. t < j \<longrightarrow> dst + of_nat j \<noteq> src + of_nat t)"

lemma fold_forward:
  assumes blk: "block_ok dst len" "block_ok src len" and clear: "clear_fwd dst src len"
    and n: "k * n \<le> len"
  shows "fold (move_elem k dst src) [0..<n] m = moved dst src (\<lambda>j. j < k * n) m"
  using n
proof (induct n)
  case 0
  then show ?case by (simp add: moved_none)
next
  case (Suc n)
  have le: "k * n + k \<le> len" using Suc(2) by simp
  have "dst + of_nat j \<noteq> src + of_nat (k * n + t)" if "j < k * n" "t < k" for j t
  proof -
    have "j < len" "k * n + t < len" "j < k * n + t" using that le by linarith+
    with clear show ?thesis unfolding clear_fwd_def by blast
  qed
  then have "move_elem k dst src n (moved dst src (\<lambda>j. j < k * n) m) =
      moved dst src (\<lambda>j. j < k * n \<or> (k * n \<le> j \<and> j < k * n + k)) m"
    using le by (intro move_elem_moved [OF blk]) simp_all
  moreover have "(\<lambda>j. j < k * n \<or> (k * n \<le> j \<and> j < k * n + k)) = (\<lambda>j. j < k * Suc n)"
    by (auto simp: fun_eq_iff)
  ultimately show ?case using Suc le by simp
qed

lemma fold_backward:
  assumes blk: "block_ok dst len" "block_ok src len" and clear: "clear_bwd dst src len"
    and n: "k * n \<le> len" and i: "i \<le> n"
  shows "fold (move_elem k dst src) (rev [i..<n]) m = moved dst src (\<lambda>j. k * i \<le> j \<and> j < k * n) m"
  using i
proof (induct rule: inc_induct)
  case base
  show ?case by (simp add: moved_none)
next
  case (step i)
  have le: "k * i + k \<le> k * n" using step(2) mult_le_mono2 [of "Suc i" n k] by simp
  have "dst + of_nat j \<noteq> src + of_nat (k * i + t)" if "k * Suc i \<le> j \<and> j < k * n" "t < k" for j t
  proof -
    have "j < len" "k * i + t < len" "k * i + t < j" using that le n by (linarith, linarith, simp)
    with clear show ?thesis unfolding clear_bwd_def by blast
  qed
  then have "move_elem k dst src i (moved dst src (\<lambda>j. k * Suc i \<le> j \<and> j < k * n) m) =
      moved dst src (\<lambda>j. (k * Suc i \<le> j \<and> j < k * n) \<or> (k * i \<le> j \<and> j < k * i + k)) m"
  proof (intro move_elem_moved [OF blk])
    show "k * i + k \<le> len" using le n by linarith
    show "j < len" if "k * Suc i \<le> j \<and> j < k * n" for j using that n by linarith
  qed
  moreover have "(\<lambda>j. (k * Suc i \<le> j \<and> j < k * n) \<or> (k * i \<le> j \<and> j < k * i + k)) =
      (\<lambda>j. k * i \<le> j \<and> j < k * n)"
    using le by (auto simp: fun_eq_iff)
  ultimately show ?case using step(2,3) by (simp add: upt_conv_Cons)
qed

lemma clear_fwdI:
  assumes "block_ok dst len" "block_ok src len" "dst \<le> src \<or> unat src + len \<le> unat dst"
  shows "clear_fwd dst src len"
  unfolding clear_fwd_def
proof (intro allI impI notI)
  fix j t
  assume jt: "j < len" "t < len" "j < t" and eq: "dst + of_nat j = src + of_nat t"
  have "unat dst + j = unat src + t"
    using eq unat_offset [OF assms(1) jt(1)] unat_offset [OF assms(2) jt(2)] by simp
  with jt assms(3) show False by (auto simp: word_le_nat_alt)
qed

lemma clear_bwdI:
  assumes "block_ok dst len" "block_ok src len" "src \<le> dst"
  shows "clear_bwd dst src len"
  unfolding clear_bwd_def
proof (intro allI impI notI)
  fix j t
  assume jt: "j < len" "t < len" "t < j" and eq: "dst + of_nat j = src + of_nat t"
  have "unat dst + j = unat src + t"
    using eq unat_offset [OF assms(1) jt(1)] unat_offset [OF assms(2) jt(2)] by simp
  with jt assms(3) show False by (auto simp: word_le_nat_alt)
qed

lemma word_count: "word_aligned dst src len \<Longrightarrow> 4 * (len div 4) = len"
  unfolding word_aligned_def by presburger

lemma memcpy_copies:
  assumes "block_ok dst len" "block_ok src len" "dst \<le> src \<or> unat src + len \<le> unat dst"
  shows "memcpy dst src len m = kwrite m dst (kread m src len)"
  using fold_forward [OF assms(1,2) clear_fwdI [OF assms], of 4 "len div 4" m]
    fold_forward [OF assms(1,2) clear_fwdI [OF assms], of 1 len m]
  by (simp add: memcpy_def moved_all word_count)

lemma memmove_loops_copies:
  assumes "block_ok dst len" "block_ok src len"
  shows "memmove_loops dst src len m = kwrite m dst (kread m src len)"
proof (cases "dst < src")
  case True
  then have "dst \<le> src \<or> unat src + len \<le> unat dst" by (simp add: less_imp_le)
  with True show ?thesis using memcpy_copies [OF assms, of m] by (simp add: memmove_loops_def)
next
  case False
  then have c: "clear_bwd dst src len" by (intro clear_bwdI assms) simp
  show ?thesis
    using False fold_backward [OF assms c, of 4 "len div 4" 0 m] fold_backward [OF assms c, of 1 len 0 m]
    by (simp add: memmove_loops_def moved_all word_count)
qed

section \<open>The filling loops\<close>

lemma fold_set_elem:
  assumes "block_ok p len" "length v * n \<le> len"
  shows "fold (set_elem v p) [0..<n] m = kwrite m p (concat (replicate n v))"
  using assms(2)
proof (induct n)
  case 0
  then show ?case by simp
next
  case (Suc n)
  have len: "length (concat (replicate n v)) = length v * n" by (induct n) simp_all
  have small: "length v * n + length v \<le> 4294967296" using assms(1) Suc(2) by (simp add: block_ok_def)
  have "fold (set_elem v p) [0..<Suc n] m =
      kwrite (kwrite m p (concat (replicate n v))) (p + of_nat (length (concat (replicate n v)))) v"
    using Suc by (simp add: set_elem_def [of v p n] len)
  also have "\<dots> = kwrite m p (concat (replicate n v) @ v)"
    using small by (intro kwrite_append [symmetric]) (simp add: len)
  also have "concat (replicate n v) @ v = concat (replicate (Suc n) v)"
    by (induct n) simp_all
  finally show ?case .
qed

lemma concat_replicate_single: "concat (replicate n [c]) = replicate n c"
  by (induct n) simp_all

lemma concat_replicate_zeros: "concat (replicate n [0, 0, 0, 0 :: u8]) = replicate (4 * n) 0"
  by (induct n) (simp_all add: replicate_add numeral_eq_Suc)

lemma memset_fills:
  assumes "block_ok p len"
  shows "memset p ch len m = kwrite m p (replicate len (ucast ch))"
  using fold_set_elem [OF assms, of "[ucast ch]" len m]
  by (simp add: memset_def concat_replicate_single)

lemma bzero_clears:
  assumes "block_ok p len"
  shows "bzero p len m = kwrite m p (replicate len 0)"
proof (cases "unat p mod 4 = 0 \<and> len mod 4 = 0")
  case True
  then have "4 * (len div 4) = len" by presburger
  then show ?thesis
    using True fold_set_elem [OF assms, of "[0, 0, 0, 0]" "len div 4" m]
    by (simp add: bzero_def concat_replicate_zeros)
next
  case False
  then show ?thesis
    using fold_set_elem [OF assms, of "[0]" len m] by (auto simp: bzero_def concat_replicate_single)
qed

section \<open>Comparison\<close>

abbreviation byte_lex :: "u8 list \<Rightarrow> u8 list \<Rightarrow> bool" where
  "byte_lex xs ys \<equiv> (xs, ys) \<in> lexord {(x, y). x < y}"

lemma memcmp_loop_order:
  "memcmp_loop a b i n m = 0 \<longleftrightarrow> kread m (a + of_nat i) n = kread m (b + of_nat i) n"
  "memcmp_loop a b i n m < 0 \<longleftrightarrow> byte_lex (kread m (a + of_nat i) n) (kread m (b + of_nat i) n)"
proof (induct n arbitrary: i)
  case (Suc n)
  case 1
  show ?case using Suc(1) [of "Suc i"] by (simp add: kread_Suc add.assoc add.commute [of 1] word_uint_eq_iff)
  case 2
  show ?case using Suc(2) [of "Suc i"] by (simp add: kread_Suc add.assoc add.commute [of 1] word_less_def)
qed simp_all

section \<open>Properties\<close>

text \<open>C18. \<^verbatim>\<open>memmove\<close>: whatever the overlap and the alignment, the loops of \<^verbatim>\<open>memmove.c\<close> and
  of the \<^verbatim>\<open>memcpy.c\<close> it falls back on (forwards or backwards, by words or by bytes) have the
  effect of the block move that \<^verbatim>\<open>uiomove\<close> is modelled with: the block at \<open>dst\<close> holds what the
  block at \<open>src\<close> held, and the rest of kernel memory is as it was.\<close>

theorem memmove_equiv:
  assumes "unat dst + n \<le> 4294967296" "unat src + n \<le> 4294967296"
  shows "memmove dst src n mm = mm\<lparr>kmem := memmove_loops dst src n (kmem mm)\<rparr>"
  using assms by (simp add: memmove_def memmove_loops_copies block_ok_def)

theorem memmove_equiv_witness:
  "memmove 0x80001004 0x80001000 8 demo_memory =
     demo_memory\<lparr>kmem := memmove_loops 0x80001004 0x80001000 8 (kmem demo_memory)\<rparr>"
  using memmove_equiv [of "0x80001004" 8 "0x80001000" demo_memory] by simp

end
