(* ===== verification/Cstring.thy ===== *)
theory Cstring
  imports Cmem
begin

text \<open>
  The string functions of \<^verbatim>\<open>common/libc/string\<close> (\<^verbatim>\<open>strlen\<close>, \<^verbatim>\<open>strcpy\<close>, \<^verbatim>\<open>strcat\<close>, \<^verbatim>\<open>strchr\<close>,
  \<^verbatim>\<open>strrchr\<close>, \<^verbatim>\<open>strcmp\<close>, \<^verbatim>\<open>strtok_r\<close>), \<^verbatim>\<open>atoi\<close>, the userland \<^verbatim>\<open>strtok\<close>, and the two clients
  that split the kernel's command lines with them, \<^verbatim>\<open>cmd_dispatch\<close> and \<^verbatim>\<open>menu_execute\<close> of
  \<^verbatim>\<open>kern/main/menu.c\<close>. A loop that scans for a terminator need not end, so these are partial
  functions into \<open>option\<close>; the lemmas show that on a terminated string they return and what
  they return. \<open>cstr m p xs\<close> says that the string \<open>xs\<close> stands at address \<open>p\<close>.
\<close>

section \<open>Model\<close>

partial_function (option) strlen_loop :: "bytes \<Rightarrow> u32 \<Rightarrow> u32 \<Rightarrow> u32 option" where
  [code]: "strlen_loop m str ret = (if m (str + ret) = 0 then Some ret else strlen_loop m str (ret + 1))"

definition strlen :: "bytes \<Rightarrow> u32 \<Rightarrow> u32 option" where
  "strlen m str = strlen_loop m str 0"

partial_function (option) strcpy_loop :: "u32 \<Rightarrow> u32 \<Rightarrow> u32 \<Rightarrow> bytes \<Rightarrow> (u32 \<times> bytes) option" where
  [code]: "strcpy_loop dest src i m =
     (if m (src + i) = 0 then Some (i, m)
      else strcpy_loop dest src (i + 1) (m(dest + i := m (src + i))))"

definition strcpy :: "u32 \<Rightarrow> u32 \<Rightarrow> bytes \<Rightarrow> bytes option" where
  "strcpy dest src m = do { (i, m) \<leftarrow> strcpy_loop dest src 0 m; Some (m(dest + i := 0)) }"

definition strcat :: "u32 \<Rightarrow> u32 \<Rightarrow> bytes \<Rightarrow> bytes option" where
  "strcat dest src m = do { off \<leftarrow> strlen m dest; strcpy (dest + off) src m }"

text \<open>\<^verbatim>\<open>NULL\<close> is address 0; the search character has been narrowed to \<^verbatim>\<open>char\<close>.\<close>

partial_function (option) strchr :: "bytes \<Rightarrow> u32 \<Rightarrow> u8 \<Rightarrow> u32 option" where
  [code]: "strchr m s ch =
     (if m s \<noteq> 0
      then (if m s = ch then Some s else strchr m (s + 1) ch)
      else Some (if m s = ch then s else 0))"

function strrchr_loop :: "bytes \<Rightarrow> u32 \<Rightarrow> u8 \<Rightarrow> u32 \<Rightarrow> u32" where
  "strrchr_loop m s ch i =
     (if i = 0 then 0
      else let i = i - 1 in if m (s + i) = ch then s + i else strrchr_loop m s ch i)"
  by pat_completeness auto

termination
  by (relation "measure (\<lambda>(m, s, ch, i). unat i)") (auto simp: unat_minus_one unat_gt_0)

declare strrchr_loop.simps [simp del]

definition strrchr :: "bytes \<Rightarrow> u32 \<Rightarrow> u8 \<Rightarrow> u32 option" where
  "strrchr m s ch = do { n \<leftarrow> strlen m s; Some (strrchr_loop m s ch (n + 1)) }"

partial_function (option) strcmp_loop :: "bytes \<Rightarrow> u32 \<Rightarrow> u32 \<Rightarrow> u32 \<Rightarrow> u32 option" where
  [code]: "strcmp_loop m a b i =
     (if m (a + i) \<noteq> 0 \<and> m (a + i) = m (b + i) then strcmp_loop m a b (i + 1) else Some i)"

definition strcmp :: "bytes \<Rightarrow> u32 \<Rightarrow> u32 \<Rightarrow> int option" where
  "strcmp m a b = do {
     i \<leftarrow> strcmp_loop m a b 0;
     Some (if m (b + i) < m (a + i) then 1 else if m (a + i) = m (b + i) then 0 else - 1) }"

text \<open>\<^verbatim>\<open>while (*head && strchr(seps, *head)) head++\<close>, and the second loop with the test negated.\<close>

partial_function (option) strtok_skip :: "bytes \<Rightarrow> u32 \<Rightarrow> bool \<Rightarrow> u32 \<Rightarrow> u32 option" where
  [code]: "strtok_skip m seps want head =
     (if m head = 0 then Some head
      else do {
        p \<leftarrow> strchr m seps (m head);
        if (p \<noteq> 0) = want then strtok_skip m seps want (head + 1) else Some head })"

definition strtok_r :: "u32 \<Rightarrow> u32 \<Rightarrow> u32 \<Rightarrow> bytes \<Rightarrow> (u32 \<times> u32 \<times> bytes) option" where
  "strtok_r string seps ctx m = (
     let ctx = (if string \<noteq> 0 then string else ctx) in
     if ctx = 0 then Some (0, ctx, m)
     else do {
       head \<leftarrow> strtok_skip m seps True ctx;
       if m head = 0 then Some (0, 0, m)
       else do {
         tail \<leftarrow> strtok_skip m seps False head;
         if m tail = 0 then Some (head, 0, m)
         else Some (head, tail + 1, m(tail := 0)) } })"

text \<open>The userland \<^verbatim>\<open>strtok\<close> keeps the context in a static variable, here the state it threads.\<close>

definition strtok :: "u32 \<Rightarrow> u32 \<Rightarrow> u32 \<times> bytes \<Rightarrow> (u32 \<times> (u32 \<times> bytes)) option" where
  "strtok str seps = (\<lambda>(strtok_context, m). strtok_r str seps strtok_context m)"

text \<open>\<^verbatim>\<open>atoi\<close> reads its static table of digits at address \<open>digits\<close>.\<close>

partial_function (option) atoi_blanks :: "bytes \<Rightarrow> u32 \<Rightarrow> u32 option" where
  [code]: "atoi_blanks m s = (if m s = 32 \<or> m s = 9 then atoi_blanks m (s + 1) else Some s)"

partial_function (option) atoi_digits :: "bytes \<Rightarrow> u32 \<Rightarrow> u32 \<Rightarrow> u32 \<Rightarrow> u32 option" where
  [code]: "atoi_digits m digits s val =
     (if m s = 0 then Some val
      else do {
        at \<leftarrow> strchr m digits (m s);
        if at = 0 then Some val
        else atoi_digits m digits (s + 1) (val * 10 + (at - digits)) })"

definition atoi :: "bytes \<Rightarrow> u32 \<Rightarrow> u32 \<Rightarrow> u32 option" where
  "atoi m digits s = do {
     s \<leftarrow> atoi_blanks m s;
     let neg = (m s = 45);
     let s = (if neg \<or> m s = 43 then s + 1 else s);
     val \<leftarrow> atoi_digits m digits s 0;
     Some (if neg then - val else val) }"

text \<open>The kernel menu. A command is a function of its argument vector and of memory; the
  table pairs the address of a name with a command. The result is 0 or an error code.\<close>

type_synonym command = "u32 list \<Rightarrow> bytes \<Rightarrow> (u32 \<times> bytes) option"

abbreviation MAXMENUARGS :: nat where "MAXMENUARGS \<equiv> 16"

partial_function (option) menu_words ::
    "u32 \<Rightarrow> u32 \<Rightarrow> u32 \<Rightarrow> u32 list \<Rightarrow> bytes \<Rightarrow> (u32 list option \<times> bytes) option" where
  [code]: "menu_words blanks word ctx args m =
     (if word = 0 then Some (Some args, m)
      else if MAXMENUARGS \<le> length args then Some (None, m)
      else do {
        (word', ctx, m) \<leftarrow> strtok_r 0 blanks ctx m;
        menu_words blanks word' ctx (args @ [word]) m })"

fun menu_lookup :: "(u32 \<times> command) list \<Rightarrow> u32 list \<Rightarrow> bytes \<Rightarrow> (u32 \<times> bytes) option" where
  "menu_lookup [] args m = Some (errno_code EINVAL, m)"
| "menu_lookup ((name, func) # table) args m = do {
     c \<leftarrow> (if m name = 0 then Some 1 else strcmp m (hd args) name);
     if c = 0 then func args m else menu_lookup table args m }"

definition cmd_dispatch ::
    "u32 \<Rightarrow> (u32 \<times> command) list \<Rightarrow> u32 \<Rightarrow> bytes \<Rightarrow> (u32 \<times> bytes) option" where
  "cmd_dispatch blanks table cmd m = do {
     (word, ctx, m) \<leftarrow> strtok_r cmd blanks 0 m;
     (args, m) \<leftarrow> menu_words blanks word ctx [] m;
     (case args of
        None \<Rightarrow> Some (errno_code E2BIG, m)
      | Some [] \<Rightarrow> Some (0, m)
      | Some args \<Rightarrow> menu_lookup table args m) }"

partial_function (option) menu_commands ::
    "u32 \<Rightarrow> u32 \<Rightarrow> (u32 \<times> command) list \<Rightarrow> bool \<Rightarrow> u32 \<Rightarrow> u32 \<Rightarrow> bytes \<Rightarrow> bytes option" where
  [code]: "menu_commands semi blanks table isargs word ctx m =
     (if word = 0 then Some m
      else do {
        (result, m) \<leftarrow> cmd_dispatch blanks table word m;
        _ \<leftarrow> kassert (result = 0 \<or> \<not> isargs);
        (word, ctx, m) \<leftarrow> strtok_r 0 semi ctx m;
        menu_commands semi blanks table isargs word ctx m })"

definition menu_execute ::
    "u32 \<Rightarrow> u32 \<Rightarrow> (u32 \<times> command) list \<Rightarrow> u32 \<Rightarrow> bool \<Rightarrow> bytes \<Rightarrow> bytes option" where
  "menu_execute semi blanks table line isargs m = do {
     (word, ctx, m) \<leftarrow> strtok_r line semi 0 m;
     menu_commands semi blanks table isargs word ctx m }"

section \<open>Terminated strings\<close>

definition cstr :: "bytes \<Rightarrow> u32 \<Rightarrow> u8 list \<Rightarrow> bool" where
  "cstr m p xs \<longleftrightarrow> (\<forall>i<length xs. xs ! i \<noteq> 0 \<and> m (p + of_nat i) = xs ! i) \<and>
     m (p + of_nat (length xs)) = 0"

lemma cstr_Nil [simp]: "cstr m p [] \<longleftrightarrow> m p = 0"
  by (simp add: cstr_def)

lemma cstr_Cons [simp]: "cstr m p (x # xs) \<longleftrightarrow> x \<noteq> 0 \<and> m p = x \<and> cstr m (p + 1) xs"
  unfolding cstr_def by (auto simp: less_Suc_eq_0_disj add.assoc add.commute [of 1])

lemma cstr_append:
  "cstr m p (xs @ ys) \<longleftrightarrow>
     0 \<notin> set xs \<and> kread m p (length xs) = xs \<and> cstr m (p + of_nat (length xs)) ys"
  by (induct xs arbitrary: p) (auto simp: kread_Suc algebra_simps)

lemma cstr_kread: "cstr m p xs \<longleftrightarrow> 0 \<notin> set xs \<and> kread m p (Suc (length xs)) = xs @ [0]"
  by (induct xs arbitrary: p) (auto simp: kread_Suc)

lemma cstr_unique: "cstr m p xs \<Longrightarrow> cstr m p ys \<Longrightarrow> xs = ys"
proof (induct xs arbitrary: p ys)
  case Nil
  then show ?case by (cases ys) auto
next
  case (Cons x xs)
  then show ?case by (cases ys) auto
qed

lemma cstr_frame:
  assumes "\<And>i. i \<le> length xs \<Longrightarrow> m' (p + of_nat i) = m (p + of_nat i)"
  shows "cstr m' p xs \<longleftrightarrow> cstr m p xs"
  using assms by (auto simp: cstr_def)

lemma cstr_length:
  assumes "cstr m p xs"
  shows "length xs < 4294967296"
proof (rule ccontr)
  assume "\<not> length xs < 4294967296"
  then have n: "4294967296 \<le> length xs" by simp
  define k where "k = length xs - 4294967296"
  have "(of_nat (length xs) :: u32) = of_nat (4294967296 + k)" using n by (simp add: k_def)
  also have "\<dots> = of_nat k" by (simp only: of_nat_add) simp
  finally have "m (p + of_nat k) = 0" using assms by (simp add: cstr_def)
  moreover have "k < length xs" using n by (simp add: k_def)
  ultimately show False using assms by (auto simp: cstr_def)
qed

section \<open>Scanning\<close>

lemma strlen_loop_cstr:
  "cstr m (str + ret) xs \<Longrightarrow> strlen_loop m str ret = Some (ret + of_nat (length xs))"
proof (induct xs arbitrary: ret)
  case Nil
  then show ?case by (subst strlen_loop.simps) simp
next
  case (Cons x xs)
  then show ?case using Cons(1) [of "ret + 1"] by (subst strlen_loop.simps) (simp add: algebra_simps)
qed

lemma strlen_cstr: "cstr m p xs \<Longrightarrow> strlen m p = Some (of_nat (length xs))"
  using strlen_loop_cstr [of m p 0 xs] by (simp add: strlen_def)

lemma strchr_cstr:
  "cstr m p xs \<Longrightarrow> strchr m p ch =
     Some (if ch = 0 \<or> ch \<in> set xs then p + of_nat (length (takeWhile (\<lambda>c. c \<noteq> ch) xs)) else 0)"
proof (induct xs arbitrary: p)
  case Nil
  then show ?case by (subst strchr.simps) auto
next
  case (Cons x xs)
  then show ?case using Cons(1) [of "p + 1"] by (subst strchr.simps) (auto simp: algebra_simps)
qed

text \<open>A string that does not touch address 0, so that a pointer into it is never \<^verbatim>\<open>NULL\<close>.\<close>

definition cbuf :: "bytes \<Rightarrow> u32 \<Rightarrow> u8 list \<Rightarrow> bool" where
  "cbuf m p xs \<longleftrightarrow> cstr m p xs \<and> p \<noteq> 0 \<and> unat p + length xs < 4294967296"

lemma cbuf_unat:
  assumes "unat p + n < 4294967296" "i \<le> n"
  shows "unat (p + of_nat i :: u32) = unat p + i"
  using assms unat_offset [of p "Suc n" i] by (simp add: block_ok_def)

lemma cbuf_nonnull:
  assumes "cbuf m p xs" "i \<le> length xs"
  shows "p + of_nat i \<noteq> 0"
proof
  assume "p + of_nat i = 0"
  then have "unat p + i = 0" using cbuf_unat [of p "length xs" i] assms by (simp add: cbuf_def)
  then show False using assms(1) by (simp add: cbuf_def unat_eq_0)
qed

lemma strchr_found:
  assumes "cbuf m p xs" "ch \<noteq> 0"
  shows "\<exists>a. strchr m p ch = Some a \<and> (a \<noteq> 0 \<longleftrightarrow> ch \<in> set xs)"
proof -
  have "length (takeWhile (\<lambda>c. c \<noteq> ch) xs) \<le> length xs" by (rule length_takeWhile_le)
  then have "p + of_nat (length (takeWhile (\<lambda>c. c \<noteq> ch) xs)) \<noteq> 0" by (rule cbuf_nonnull [OF assms(1)])
  then show ?thesis using strchr_cstr [of m p xs ch] assms by (simp add: cbuf_def)
qed

lemma strrchr_loop_scan:
  assumes "\<And>i. i < n \<Longrightarrow> s + of_nat i \<noteq> 0" "n < 4294967296"
  shows "strrchr_loop m s ch (of_nat n) =
    (case find (\<lambda>i. m (s + of_nat i) = ch) (rev [0..<n]) of None \<Rightarrow> 0 | Some i \<Rightarrow> s + of_nat i)"
  using assms
proof (induct n)
  case 0
  then show ?case by (subst strrchr_loop.simps) simp
next
  case (Suc n)
  have "(of_nat (Suc n) :: u32) \<noteq> 0" using Suc(3) unat_of_nat_u32 [OF Suc(3)] by (metis unat_0 nat.simps(3))
  moreover have "(of_nat (Suc n) :: u32) - 1 = of_nat n" by simp
  ultimately show ?case using Suc by (subst strrchr_loop.simps) (simp add: Let_def)
qed

lemma strrchr_cstr:
  assumes "cbuf m p xs"
  shows "strrchr m p ch = Some (case find (\<lambda>i. (xs @ [0]) ! i = ch) (rev [0..<Suc (length xs)]) of
    None \<Rightarrow> 0 | Some i \<Rightarrow> p + of_nat i)"
proof -
  let ?n = "Suc (length xs)"
  have "p \<noteq> 0" "unat p + length xs < 4294967296" using assms by (simp_all add: cbuf_def)
  then have n: "?n < 4294967296" using unat_gt_0 [of p] by linarith
  have "find (\<lambda>i. m (p + of_nat i) = ch) (rev [0..<?n]) = find (\<lambda>i. (xs @ [0]) ! i = ch) (rev [0..<?n])"
    using assms by (intro find_cong) (auto simp: cbuf_def cstr_def nth_append less_Suc_eq)
  moreover have "strrchr_loop m p ch (of_nat ?n) =
      (case find (\<lambda>i. m (p + of_nat i) = ch) (rev [0..<?n]) of None \<Rightarrow> 0 | Some i \<Rightarrow> p + of_nat i)"
    using cbuf_nonnull [OF assms] n by (intro strrchr_loop_scan) simp_all
  ultimately show ?thesis using strlen_cstr [of m p xs] assms by (simp add: strrchr_def cbuf_def add.commute [of 1])
qed

lemma strcmp_loop_cstr:
  assumes "cstr m (a + i) xs" "cstr m (b + i) ys"
  shows "\<exists>k. strcmp_loop m a b i = Some k \<and>
    (m (a + k) = m (b + k) \<longleftrightarrow> xs = ys) \<and> (m (a + k) < m (b + k) \<longleftrightarrow> byte_lex xs ys)"
  using assms
proof (induct xs arbitrary: ys i)
  case Nil
  then show ?case by (subst strcmp_loop.simps) (cases ys; auto simp: word_gt_0)
next
  case (Cons x xs)
  show ?case
  proof (cases "ys \<noteq> [] \<and> hd ys = x")
    case True
    then obtain ys' where ys: "ys = x # ys'" by (cases ys) auto
    have "cstr m (a + (i + 1)) xs" "cstr m (b + (i + 1)) ys'" using Cons(2,3) ys by (simp_all add: algebra_simps)
    from Cons(1) [OF this] show ?thesis using Cons(2,3) ys by (subst strcmp_loop.simps) auto
  next
    case False
    then have "m (a + i) = x" "x \<noteq> 0" "m (b + i) \<noteq> x" using Cons(2,3) by (cases ys; auto)+
    moreover have "xs' < ys' \<longleftrightarrow> ys \<noteq> [] \<and> x < hd ys" if "xs' = x" "ys' = m (b + i)" for xs' ys' :: u8
      using that Cons(3) by (cases ys) auto
    ultimately show ?thesis using False by (subst strcmp_loop.simps) (cases ys; auto)
  qed
qed

section \<open>Copying\<close>

lemma strcpy_loop_cstr:
  assumes src: "cstr m src (ys @ zs)" and n: "unat dest + length (ys @ zs) < 4294967296"
    and disj: "\<And>i j. i < length (ys @ zs) \<Longrightarrow> j \<le> length (ys @ zs) \<Longrightarrow> dest + of_nat i \<noteq> src + of_nat j"
  shows "strcpy_loop dest src (of_nat (length ys)) (kwrite m dest ys) =
    Some (of_nat (length (ys @ zs)), kwrite m dest (ys @ zs))"
  using assms
proof (induct zs arbitrary: ys)
  case Nil
  have "kwrite m dest ys (src + of_nat (length ys)) = m (src + of_nat (length ys))"
  proof -
    let ?d = "unat (src + of_nat (length ys) - dest)"
    have "\<not> ?d < length ys" using Nil(3) [of ?d "length ys"] by auto
    then show ?thesis by (simp add: kwrite_def)
  qed
  also have "\<dots> = 0" using Nil(1) by (simp add: cstr_def)
  finally show ?case by (subst strcpy_loop.simps) simp
next
  case (Cons z zs)
  let ?k = "length ys"
  let ?d = "unat (src + of_nat ?k - dest)"
  have "\<not> ?d < ?k" using Cons(4) [of ?d ?k] by auto
  then have rd: "kwrite m dest ys (src + of_nat ?k) = m (src + of_nat ?k)" by (simp add: kwrite_def)
  have z: "m (src + of_nat ?k) = z" "z \<noteq> 0" using Cons(2) by (simp_all add: cstr_append)
  have "(kwrite m dest ys)(dest + of_nat ?k := z) = kwrite m dest (ys @ [z])"
  proof -
    have "kwrite m' a [z] = m'(a := z)" for m' a by (auto simp: kwrite_def fun_eq_iff unat_eq_0)
    then show ?thesis using kwrite_append [of ys "[z]" m dest] Cons(3) by simp
  qed
  then show ?case using Cons(1) [of "ys @ [z]"] Cons(2-4) rd z by (subst strcpy_loop.simps) (simp add: add.commute [of 1])
qed

lemma strcpy_cstr:
  assumes "cstr m src xs" "unat dest + length xs < 4294967296"
    and "\<And>i j. i < length xs \<Longrightarrow> j \<le> length xs \<Longrightarrow> dest + of_nat i \<noteq> src + of_nat j"
  shows "strcpy dest src m = Some (kwrite m dest (xs @ [0]))"
proof -
  have "kwrite m' a [z] = m'(a := z)" for m' a z by (auto simp: kwrite_def fun_eq_iff unat_eq_0)
  then show ?thesis
    using strcpy_loop_cstr [of m src "[]" xs dest] assms kwrite_append [of xs "[0]" m dest]
    by (simp add: strcpy_def)
qed

lemma cstr_kwrite:
  assumes "0 \<notin> set xs" "unat dest + length xs < 4294967296"
  shows "cstr (kwrite m dest (xs @ [0])) dest xs"
proof -
  have "kwrite m dest (xs @ [0]) (dest + of_nat i) = (xs @ [0]) ! i" if "i \<le> length xs" for i
    using that assms(2) by (simp add: kwrite_def unat_of_nat_u32)
  then show ?thesis using assms(1) by (auto simp: cstr_def nth_append in_set_conv_nth)
qed

lemma strcat_write:
  assumes "cstr m dest xs" "cstr m src ys" "unat dest + length xs + length ys < 4294967296"
    and "unat src + length ys < 4294967296"
    and "unat src + length ys < unat dest \<or> unat dest + length xs + length ys < unat src"
  defines "e \<equiv> dest + of_nat (length xs)"
  shows "strcat dest src m = Some (kwrite m e (ys @ [0]))"
    and "kwrite m e (ys @ [0]) a \<noteq> m a \<Longrightarrow>
      unat dest + length xs \<le> unat a \<and> unat a \<le> unat dest + length xs + length ys"
proof -
  have ue: "unat (e + of_nat i) = unat dest + length xs + i" if "i \<le> length ys" for i
    using cbuf_unat [of dest "length xs + length ys" "length xs + i"] assms(3) that
    by (simp add: e_def add.assoc)
  have "strcpy e src m = Some (kwrite m e (ys @ [0]))"
  proof (rule strcpy_cstr [OF assms(2)])
    show "unat e + length ys < 4294967296" using ue [of 0] assms(3) by simp
    show "e + of_nat i \<noteq> src + of_nat j" if "i < length ys" "j \<le> length ys" for i j
      using ue [of i] cbuf_unat [OF assms(4) that(2)] that assms(5) by auto
  qed
  then show "strcat dest src m = Some (kwrite m e (ys @ [0]))"
    using strlen_cstr [OF assms(1)] by (simp add: strcat_def e_def)
  assume "kwrite m e (ys @ [0]) a \<noteq> m a"
  then have "unat (a - e) < length (ys @ [0])" by (auto simp: kwrite_def split: if_splits)
  then have le: "unat (a - e) \<le> length ys" by simp
  from ue [OF this] have "unat a = unat dest + length xs + unat (a - e)" by simp
  then show "unat dest + length xs \<le> unat a \<and> unat a \<le> unat dest + length xs + length ys" using le by linarith
qed

section \<open>Tokens\<close>

function tokens :: "(u8 \<Rightarrow> bool) \<Rightarrow> u8 list \<Rightarrow> u8 list list" where
  "tokens P xs = (let ys = dropWhile P xs in
     if ys = [] then [] else takeWhile (\<lambda>c. \<not> P c) ys # tokens P (dropWhile (\<lambda>c. \<not> P c) ys))"
  by pat_completeness auto

termination
proof (relation "measure (\<lambda>(P, xs). length xs)")
  fix P and xs ys :: "u8 list"
  assume ys: "ys = dropWhile P xs" "ys \<noteq> []"
  then have "\<not> P (hd ys)" by (simp add: hd_dropWhile)
  then have "length (dropWhile (\<lambda>c. \<not> P c) ys) < length ys"
    using ys(2) length_dropWhile_le [of "\<lambda>c. \<not> P c" "tl ys"] by (cases ys) auto
  then show "((P, dropWhile (\<lambda>c. \<not> P c) ys), P, xs) \<in> measure (\<lambda>(P, xs). length xs)"
    using length_dropWhile_le [of P xs] unfolding ys(1) by simp
qed simp

declare tokens.simps [simp del]

lemma tokens_Nil [simp]: "tokens P [] = []"
  by (subst tokens.simps) simp

lemma tokens_drop: "P c \<Longrightarrow> tokens P (c # xs) = tokens P xs"
  by (subst (1 2) tokens.simps) simp

lemma tokens_nonempty: "w \<in> set (tokens P xs) \<Longrightarrow> w \<noteq> [] \<and> (\<forall>c\<in>set w. \<not> P c)"
proof (induct P xs rule: tokens.induct)
  case (1 P xs)
  let ?ys = "dropWhile P xs"
  show ?case
  proof (cases "?ys = []")
    case True
    then show ?thesis using 1(2) by (simp add: tokens.simps [of P xs])
  next
    case False
    then have "\<not> P (hd ?ys)" by (simp add: hd_dropWhile)
    then have "takeWhile (\<lambda>c. \<not> P c) ?ys \<noteq> []" using False by (cases ?ys) auto
    moreover have "tokens P xs = takeWhile (\<lambda>c. \<not> P c) ?ys # tokens P (dropWhile (\<lambda>c. \<not> P c) ?ys)"
      using False by (subst tokens.simps) (simp add: Let_def)
    ultimately have "w = takeWhile (\<lambda>c. \<not> P c) ?ys \<or> w \<in> set (tokens P (dropWhile (\<lambda>c. \<not> P c) ?ys))"
      and "takeWhile (\<lambda>c. \<not> P c) ?ys \<noteq> []" using 1(2) by simp_all
    then show ?thesis using 1(1) [OF refl False] set_takeWhileD [of _ "\<lambda>c. \<not> P c" ?ys] by metis
  qed
qed

lemma strtok_skip_cstr:
  assumes seps: "cbuf m seps ss" and str: "cstr m p xs"
  shows "strtok_skip m seps want p =
    Some (p + of_nat (length (takeWhile (\<lambda>c. (c \<in> set ss) = want) xs)))"
  using str
proof (induct xs arbitrary: p)
  case Nil
  then show ?case by (subst strtok_skip.simps) simp
next
  case (Cons x xs)
  have x: "m p = x" "x \<noteq> 0" "cstr m (p + 1) xs" using Cons(2) by simp_all
  obtain a where "strchr m seps x = Some a" "a \<noteq> 0 \<longleftrightarrow> x \<in> set ss" using strchr_found [OF seps x(2)] by blast
  then show ?case using x Cons(1) [OF x(3)] by (subst strtok_skip.simps) (auto simp: algebra_simps)
qed

text \<open>What is left to tokenise: nothing, or the string at the saved context.\<close>

definition rest_at :: "bytes \<Rightarrow> u32 \<Rightarrow> u8 list \<Rightarrow> bool" where
  "rest_at m ctx xs \<longleftrightarrow> (ctx = 0 \<and> xs = []) \<or> cbuf m ctx xs"

lemma cbuf_split:
  assumes "cbuf m p (xs @ ys)"
  shows "cbuf m (p + of_nat (length xs)) ys" "m (p + of_nat (length xs)) = (if ys = [] then 0 else hd ys)"
proof -
  have p: "cstr m p (xs @ ys)" "unat p + length (xs @ ys) < 4294967296" using assms by (simp_all add: cbuf_def)
  have "p + of_nat (length xs) \<noteq> 0" using cbuf_nonnull [OF assms, of "length xs"] by simp
  moreover have "unat (p + of_nat (length xs)) = unat p + length xs"
    using cbuf_unat [OF p(2), of "length xs"] by simp
  ultimately show c: "cbuf m (p + of_nat (length xs)) ys" using p by (simp add: cbuf_def cstr_append)
  then show "m (p + of_nat (length xs)) = (if ys = [] then 0 else hd ys)" by (cases ys) (simp_all add: cbuf_def)
qed

lemma cbuf_write_low:
  assumes "cbuf m p ys" "unat q < unat p"
  shows "cbuf (m(q := v)) p ys"
proof -
  have "p + of_nat i \<noteq> q" if "i \<le> length ys" for i
    using cbuf_unat [of p "length ys" i] that assms by (auto simp: cbuf_def)
  then show ?thesis using assms(1) cstr_frame [of ys "m(q := v)" p m] by (simp add: cbuf_def)
qed

lemma rest_at_zero [simp]: "rest_at m 0 xs \<longleftrightarrow> xs = []"
  by (auto simp: rest_at_def cbuf_def)

text \<open>One call of \<^verbatim>\<open>strtok_r\<close> on what is left. When there is a next word it is returned as a
  terminated string that lies below the new context, only the separator behind it is
  overwritten, and what is left has the remaining words.\<close>

lemma strtok_r_none:
  assumes "rest_at m ctx xs" "cbuf m seps ss" "tokens (\<lambda>c. c \<in> set ss) xs = []"
  shows "\<exists>ctx'. strtok_r 0 seps ctx m = Some (0, ctx', m)"
proof (cases "ctx = 0")
  case True
  then show ?thesis by (simp add: strtok_r_def)
next
  case False
  then have b: "cbuf m ctx xs" using assms(1) by (simp add: rest_at_def)
  have "dropWhile (\<lambda>c. c \<in> set ss) xs = []"
    using assms(3) by (subst (asm) tokens.simps) (auto simp: Let_def split: if_splits)
  then have "takeWhile (\<lambda>c. c \<in> set ss) xs = xs" by (simp add: takeWhile_eq_all_conv)
  from arg_cong [OF this, of length] have "strtok_skip m seps True ctx = Some (ctx + of_nat (length xs))"
    using strtok_skip_cstr [OF assms(2), of ctx xs True] b by (simp add: cbuf_def)
  then show ?thesis using False b cbuf_split(2) [of m ctx xs "[]"] by (simp add: strtok_r_def)
qed

lemma strtok_r_word:
  assumes rest: "rest_at m ctx xs" and seps: "cbuf m seps ss"
    and tok: "tokens (\<lambda>c. c \<in> set ss) xs = w # ws"
  shows "\<exists>head ctx' m' xs'. strtok_r 0 seps ctx m = Some (head, ctx', m') \<and> head \<noteq> 0 \<and> cbuf m' head w \<and>
    rest_at m' ctx' xs' \<and> tokens (\<lambda>c. c \<in> set ss) xs' = ws \<and>
    unat ctx \<le> unat head \<and> (ctx' \<noteq> 0 \<longrightarrow> unat head + length w < unat ctx' \<and>
      unat ctx' + length xs' = unat ctx + length xs) \<and>
    (\<forall>x. m' x \<noteq> m x \<longrightarrow> unat ctx \<le> unat x \<and> unat x < unat ctx + length xs)"
proof -
  let ?P = "\<lambda>c. c \<in> set ss"
  have "ctx \<noteq> 0" using rest tok by auto
  then have b: "cbuf m ctx xs" using rest by (simp add: rest_at_def)
  define as where "as = takeWhile ?P xs"
  define ys where "ys = dropWhile ?P xs"
  have xs: "xs = as @ ys" by (simp add: as_def ys_def)
  have "ys \<noteq> []" and w: "w = takeWhile (\<lambda>c. \<not> ?P c) ys" and ws: "ws = tokens ?P (dropWhile (\<lambda>c. \<not> ?P c) ys)"
    using tok unfolding ys_def by (subst (asm) tokens.simps, simp add: Let_def split: if_splits)+
  define zs where "zs = dropWhile (\<lambda>c. \<not> ?P c) ys"
  have ys: "ys = w @ zs" by (simp add: w zs_def)
  define head where "head = ctx + of_nat (length as)"
  define tail where "tail = head + of_nat (length w)"
  have h: "cbuf m head ys" "m head \<noteq> 0"
    using cbuf_split [of m ctx as ys] b \<open>ys \<noteq> []\<close> unfolding xs head_def by (auto simp: cbuf_def cstr_def)
  have t: "cbuf m tail zs" "m tail = (if zs = [] then 0 else hd zs)"
    using cbuf_split [of m head w zs] h(1) unfolding ys tail_def by simp_all
  have u: "unat head = unat ctx + length as" "unat tail = unat head + length w"
    using cbuf_unat [of ctx "length xs" "length as"] b cbuf_unat [of head "length ys" "length w"] h(1)
    unfolding head_def tail_def by (simp_all add: cbuf_def xs ys)
  have skip: "strtok_skip m seps True ctx = Some head" "strtok_skip m seps False head = Some tail"
    using strtok_skip_cstr [OF seps, of ctx xs True] b strtok_skip_cstr [OF seps, of head ys False] h(1)
    by (simp_all add: cbuf_def head_def tail_def as_def w)
  have hn: "head \<noteq> 0" using h(1) by (simp add: cbuf_def)
  show ?thesis
  proof (cases zs)
    case Nil
    then have "strtok_r 0 seps ctx m = Some (head, 0, m)"
      using \<open>ctx \<noteq> 0\<close> skip h(2) t(2) by (simp add: strtok_r_def)
    moreover have "cbuf m head w" using h(1) Nil by (simp add: ys)
    moreover have "ws = []" using Nil unfolding ws zs_def [symmetric] by simp
    ultimately show ?thesis using hn u(1)
      by (intro exI [of _ head] exI [of _ 0] exI [of _ m] exI [of _ "[]"]) simp
  next
    case (Cons z zs')
    let ?m = "m(tail := 0)"
    have z: "?P z" using Cons hd_dropWhile [of "\<lambda>c. \<not> ?P c" ys] unfolding zs_def by auto
    have "m tail \<noteq> 0" using t Cons by (simp add: cbuf_def)
    then have run: "strtok_r 0 seps ctx m = Some (head, tail + 1, ?m)"
      using \<open>ctx \<noteq> 0\<close> skip h(2) by (simp add: strtok_r_def)
    have next_at: "cbuf m (tail + 1) zs'" using cbuf_split(1) [of m tail "[z]" zs'] t(1) Cons by simp
    have ut: "unat (tail + 1) = unat tail + 1"
      using cbuf_unat [of tail "length zs" 1] t(1) Cons by (simp add: cbuf_def)
    have "cbuf ?m head w"
    proof -
      have "head + of_nat i \<noteq> tail" if "i < length w" for i
        using cbuf_unat [of head "length ys" i] h(1) that u(2) by (auto simp: cbuf_def ys)
      moreover have "0 \<notin> set w" "kread m head (length w) = w" using h(1) by (simp_all add: cbuf_def cstr_append ys)
      then have "w ! i \<noteq> 0" "m (head + of_nat i) = w ! i" if "i < length w" for i
        using that nth_kread [OF that, of m head] nth_mem [OF that] by auto
      ultimately show ?thesis using h(1) by (simp add: cbuf_def cstr_def tail_def ys)
    qed
    moreover have "rest_at ?m (tail + 1) zs'"
      using cbuf_write_low [OF next_at, of tail 0] ut by (simp add: rest_at_def)
    moreover have "tokens ?P zs' = ws" using tokens_drop [of ?P, OF z] Cons by (simp add: ws zs_def [symmetric])
    moreover have "unat (tail + 1) + length zs' = unat ctx + length xs" using u ut Cons by (simp add: xs ys)
    ultimately show ?thesis using run hn u ut Cons
      by (intro exI [of _ head] exI [of _ "tail + 1"] exI [of _ ?m] exI [of _ zs']) (simp add: xs ys)
  qed
qed

section \<open>Splitting a command line\<close>

text \<open>The words a run of \<^verbatim>\<open>menu_words\<close> has collected stand as terminated strings below what is
  left, so the separators it still overwrites do not touch them.\<close>

definition words_at :: "bytes \<Rightarrow> u32 \<Rightarrow> u32 list \<Rightarrow> u8 list list \<Rightarrow> bool" where
  "words_at m lim args ws \<longleftrightarrow>
     list_all2 (\<lambda>a w. cbuf m a w \<and> (lim \<noteq> 0 \<longrightarrow> unat a + length w < unat lim)) args ws"

lemma cbuf_frame:
  assumes "cbuf m p xs" "\<And>x. unat x \<le> unat p + length xs \<Longrightarrow> unat p \<le> unat x \<Longrightarrow> m' x = m x"
  shows "cbuf m' p xs"
proof -
  have "m' (p + of_nat i) = m (p + of_nat i)" if "i \<le> length xs" for i
    using cbuf_unat [of p "length xs" i] that assms by (simp add: cbuf_def)
  then show ?thesis using assms(1) cstr_frame [of xs m' p m] by (simp add: cbuf_def)
qed

lemma words_at_step:
  assumes "words_at m lim args ws" "lim \<noteq> 0"
    and "lim' \<noteq> 0 \<Longrightarrow> unat lim \<le> unat lim'"
    and "\<And>x. m' x \<noteq> m x \<Longrightarrow> unat lim \<le> unat x"
  shows "words_at m' lim' args ws"
proof -
  have "cbuf m' a w \<and> (lim' \<noteq> 0 \<longrightarrow> unat a + length w < unat lim')"
    if "cbuf m a w \<and> (lim \<noteq> 0 \<longrightarrow> unat a + length w < unat lim)" for a w
  proof -
    have "m' x = m x" if "unat x \<le> unat a + length w" for x
      using that assms(2,4) \<open>cbuf m a w \<and> _\<close> by (metis le_less_trans not_le)
    then have "cbuf m' a w" using cbuf_frame [of m a w m'] that by simp
    then show ?thesis using that assms(2,3) by (meson less_le_trans)
  qed
  with assms(1) show ?thesis unfolding words_at_def by (auto elim: list_all2_mono)
qed

lemma words_at_append:
  "words_at m lim args ws \<Longrightarrow> words_at m lim args' ws' \<Longrightarrow> words_at m lim (args @ args') (ws @ ws')"
  unfolding words_at_def by (rule list_all2_appendI)

lemma words_at_zero: "words_at m lim args ws \<Longrightarrow> words_at m 0 args ws"
  unfolding words_at_def by (auto elim: list_all2_mono)

definition apart :: "nat \<Rightarrow> nat \<Rightarrow> u32 \<Rightarrow> u8 list \<Rightarrow> bool" where
  "apart lo hi p xs \<longleftrightarrow> unat p + length xs < lo \<or> hi < unat p"

lemma cbuf_apart:
  assumes "cbuf m p xs" "apart lo hi p xs" "\<And>x. m' x \<noteq> m x \<Longrightarrow> lo \<le> unat x \<and> unat x \<le> hi"
  shows "cbuf m' p xs"
proof (rule cbuf_frame [OF assms(1)])
  fix x :: u32
  assume "unat x \<le> unat p + length xs" "unat p \<le> unat x"
  then have "\<not> (lo \<le> unat x \<and> unat x \<le> hi)" using assms(2) unfolding apart_def by linarith
  then show "m' x = m x" using assms(3) by blast
qed

lemma menu_words_split:
  assumes "rest_at m ctx xs" "ctx \<noteq> 0 \<longrightarrow> lo \<le> unat ctx \<and> unat ctx + length xs \<le> hi"
    and "cbuf m blanks ss" "apart lo hi blanks ss"
    and "words_at m ctx args vs" "words_at m ctx [word] [w]" "word \<noteq> 0"
    and "tokens (\<lambda>c. c \<in> set ss) xs = ws" "length args \<le> MAXMENUARGS"
  shows "\<exists>r m'. menu_words blanks word ctx args m = Some (r, m') \<and>
    (\<forall>x. m' x \<noteq> m x \<longrightarrow> lo \<le> unat x \<and> unat x \<le> hi) \<and>
    (if length args + Suc (length ws) \<le> MAXMENUARGS
     then \<exists>args'. r = Some args' \<and> words_at m' 0 args' (vs @ w # ws) else r = None)"
  using assms
proof (induct ws arbitrary: m ctx xs args vs word w)
  case Nil
  obtain c where run: "strtok_r 0 blanks ctx m = Some (0, c, m)"
    using strtok_r_none [OF Nil(1,3,8)] by blast
  have "menu_words blanks 0 c (args @ [word]) m = Some (Some (args @ [word]), m)"
    by (subst menu_words.simps) simp
  moreover have "words_at m 0 (args @ [word]) (vs @ [w])"
    using words_at_append [OF Nil(5,6)] by (rule words_at_zero)
  ultimately show ?case using Nil(7) run by (subst menu_words.simps) auto
next
  case (Cons v ws)
  show ?case
  proof (cases "length args < MAXMENUARGS")
    case False
    then show ?thesis using Cons(8) by (subst menu_words.simps) simp
  next
    case True
    obtain head c m1 xs1 where st: "strtok_r 0 blanks ctx m = Some (head, c, m1)" "head \<noteq> 0"
        "cbuf m1 head v" "rest_at m1 c xs1" "tokens (\<lambda>c. c \<in> set ss) xs1 = ws" "unat ctx \<le> unat head"
      and c: "c \<noteq> 0 \<Longrightarrow> unat head + length v < unat c" "c \<noteq> 0 \<Longrightarrow> unat c + length xs1 = unat ctx + length xs"
      and ch: "\<And>x. m1 x \<noteq> m x \<Longrightarrow> unat ctx \<le> unat x \<and> unat x < unat ctx + length xs"
      using strtok_r_word [OF Cons(2,4,9)] by blast
    have cn: "ctx \<noteq> 0" using Cons(2,9) by auto
    then have bd: "lo \<le> unat ctx" "unat ctx + length xs \<le> hi" using Cons(3) by simp_all
    have ch': "lo \<le> unat x \<and> unat x \<le> hi" if "m1 x \<noteq> m x" for x using ch [OF that] bd by linarith
    have b1: "c \<noteq> 0 \<longrightarrow> lo \<le> unat c \<and> unat c + length xs1 \<le> hi" using c st(6) bd by linarith
    have le: "unat ctx \<le> unat c" if "c \<noteq> 0" using c(1) [OF that] st(6) by linarith
    have sep: "cbuf m1 blanks ss" using cbuf_apart [OF Cons(4,5) ch'] .
    have old: "words_at m1 c (args @ [word]) (vs @ [w])"
      using words_at_step [OF words_at_append [OF Cons(6,7)] cn le] ch by blast
    have new: "words_at m1 c [head] [v]" using st(3) c(1) by (simp add: words_at_def)
    have len: "length (args @ [word]) \<le> MAXMENUARGS" using True by simp
    obtain r m2 where ih: "menu_words blanks head c (args @ [word]) m1 = Some (r, m2)"
        "\<forall>x. m2 x \<noteq> m1 x \<longrightarrow> lo \<le> unat x \<and> unat x \<le> hi"
        "if length (args @ [word]) + Suc (length ws) \<le> MAXMENUARGS
         then \<exists>args'. r = Some args' \<and> words_at m2 0 args' ((vs @ [w]) @ v # ws) else r = None"
      using Cons(1) [OF st(4) b1 sep Cons(5) old new st(2,5) len] by blast
    have "menu_words blanks word ctx args m = Some (r, m2)"
      using True Cons(8) st(1) ih(1) by (subst menu_words.simps) simp
    moreover have "\<forall>x. m2 x \<noteq> m x \<longrightarrow> lo \<le> unat x \<and> unat x \<le> hi" using ih(2) ch' by metis
    moreover have "if length args + Suc (length (v # ws)) \<le> MAXMENUARGS
        then \<exists>args'. r = Some args' \<and> words_at m2 0 args' (vs @ w # v # ws) else r = None"
      using ih(3) unfolding append_assoc append_Cons append_Nil by simp
    ultimately show ?thesis by (intro exI conjI)
  qed
qed

lemma strcmp_cstr:
  assumes "cstr m a xs" "cstr m b ys"
  shows "strcmp m a b = Some (if xs = ys then 0 else if byte_lex xs ys then - 1 else 1)"
proof -
  obtain k where k: "strcmp_loop m a b 0 = Some k"
    "m (a + k) = m (b + k) \<longleftrightarrow> xs = ys" "m (a + k) < m (b + k) \<longleftrightarrow> byte_lex xs ys"
    using strcmp_loop_cstr [of m a 0 xs b ys] assms by auto
  then show ?thesis by (auto simp: strcmp_def)
qed

text \<open>The command that the table gives for a word: the first whose non-empty name is the word.\<close>

fun command_for :: "(u8 list \<times> command) list \<Rightarrow> u8 list \<Rightarrow> command option" where
  "command_for [] w = None"
| "command_for ((n, f) # t) w = (if n \<noteq> [] \<and> n = w then Some f else command_for t w)"

definition table_at :: "bytes \<Rightarrow> (u32 \<times> command) list \<Rightarrow> (u8 list \<times> command) list \<Rightarrow> bool" where
  "table_at m table cmds \<longleftrightarrow> list_all2 (\<lambda>(p, f) (n, g). cbuf m p n \<and> f = g) table cmds"

lemma menu_lookup_command:
  assumes "cstr m a w" "table_at m table cmds"
  shows "menu_lookup table (a # as) m =
    (case command_for cmds w of None \<Rightarrow> Some (errno_code EINVAL, m) | Some f \<Rightarrow> f (a # as) m)"
  using assms(2)
proof (induct table arbitrary: cmds)
  case Nil
  then show ?case by (simp add: table_at_def)
next
  case (Cons e table)
  obtain p f where e: "e = (p, f)" by (cases e)
  then obtain n cmds' where cmds: "cmds = (n, f) # cmds'" and n: "cstr m p n" and t: "table_at m table cmds'"
    using Cons(2) by (auto simp: table_at_def list_all2_Cons1 cbuf_def)
  have "m p = 0 \<longleftrightarrow> n = []" using n by (cases n) auto
  moreover have "strcmp m a p = Some (if w = n then 0 else if byte_lex w n then - 1 else 1)"
    using strcmp_cstr [OF assms(1) n] .
  ultimately show ?case using Cons(1) [OF t] by (auto simp: e cmds)
qed

lemma dispatch_split:
  assumes line: "cbuf m cmd xs" and blanks: "cbuf m blanks ss" "apart (unat cmd) (unat cmd + length xs) blanks ss"
    and ws: "tokens (\<lambda>c. c \<in> set ss) xs = w # ws"
  shows "\<exists>args m'. cmd_dispatch blanks table cmd m =
      (if length (w # ws) \<le> MAXMENUARGS then menu_lookup table args m' else Some (errno_code E2BIG, m')) \<and>
    (\<forall>x. m' x \<noteq> m x \<longrightarrow> unat cmd \<le> unat x \<and> unat x \<le> unat cmd + length xs) \<and>
    (length (w # ws) \<le> MAXMENUARGS \<longrightarrow> words_at m' 0 args (w # ws))"
proof -
  let ?lo = "unat cmd" and ?hi = "unat cmd + length xs"
  have rest: "rest_at m cmd xs" and cn: "cmd \<noteq> 0" using line by (simp_all add: rest_at_def cbuf_def)
  obtain head c m1 xs1 where st: "strtok_r 0 blanks cmd m = Some (head, c, m1)" "head \<noteq> 0"
      "cbuf m1 head w" "rest_at m1 c xs1" "tokens (\<lambda>c. c \<in> set ss) xs1 = ws" "unat cmd \<le> unat head"
    and c: "c \<noteq> 0 \<Longrightarrow> unat head + length w < unat c" "c \<noteq> 0 \<Longrightarrow> unat c + length xs1 = unat cmd + length xs"
    and ch: "\<And>x. m1 x \<noteq> m x \<Longrightarrow> unat cmd \<le> unat x \<and> unat x < unat cmd + length xs"
    using strtok_r_word [OF rest blanks(1) ws] by blast
  have ch': "?lo \<le> unat x \<and> unat x \<le> ?hi" if "m1 x \<noteq> m x" for x using ch [OF that] by linarith
  have b1: "c \<noteq> 0 \<longrightarrow> ?lo \<le> unat c \<and> unat c + length xs1 \<le> ?hi" using c st(6) by linarith
  have sep: "cbuf m1 blanks ss" using cbuf_apart [OF blanks ch'] .
  have new: "words_at m1 c [head] [w]" "words_at m1 c [] []" using st(3) c(1) by (simp_all add: words_at_def)
  obtain r m2 where mw: "menu_words blanks head c [] m1 = Some (r, m2)"
      "\<forall>x. m2 x \<noteq> m1 x \<longrightarrow> ?lo \<le> unat x \<and> unat x \<le> ?hi"
      "if length ([] :: u32 list) + Suc (length ws) \<le> MAXMENUARGS
       then \<exists>args'. r = Some args' \<and> words_at m2 0 args' ([] @ w # ws) else r = None"
    using menu_words_split [OF st(4) b1 sep blanks(2) new(2,1) st(2,5)] by fastforce
  have fr: "\<forall>x. m2 x \<noteq> m x \<longrightarrow> ?lo \<le> unat x \<and> unat x \<le> ?hi" using mw(2) ch' by metis
  have pre: "cmd_dispatch blanks table cmd m = (case r of None \<Rightarrow> Some (errno_code E2BIG, m2)
      | Some [] \<Rightarrow> Some (0, m2) | Some args \<Rightarrow> menu_lookup table args m2)"
    using cn st(1) mw(1) by (simp add: cmd_dispatch_def strtok_r_def)
  show ?thesis
  proof (cases "length (w # ws) \<le> MAXMENUARGS")
    case True
    with mw(3) obtain args where r: "r = Some args" "words_at m2 0 args (w # ws)" by auto
    then obtain a as where "args = a # as" by (cases args) (auto simp: words_at_def)
    then show ?thesis using pre r fr True by (intro exI [of _ args] exI [of _ m2]) simp
  next
    case False
    with mw(3) have "r = None" by simp
    then show ?thesis using pre fr False by (intro exI [of _ "[]"] exI [of _ m2]) simp
  qed
qed

lemma table_at_apart:
  assumes "table_at m table cmds" "\<forall>(p, n) \<in> set (zip (map fst table) (map fst cmds)). apart lo hi p n"
    and "\<And>x. m' x \<noteq> m x \<Longrightarrow> lo \<le> unat x \<and> unat x \<le> hi"
  shows "table_at m' table cmds"
  using assms(1,2) unfolding table_at_def
proof (induct rule: list_all2_induct)
  case (Cons x xs y ys)
  then show ?case using cbuf_apart [OF _ _ assms(3)] by (cases x; cases y) auto
qed simp

section \<open>Decimal numbers\<close>

abbreviation digit_chars :: "u8 list" where
  "digit_chars \<equiv> [48, 49, 50, 51, 52, 53, 54, 55, 56, 57]"

definition decimal :: "nat \<Rightarrow> u8 list \<Rightarrow> nat" where
  "decimal n ds = foldl (\<lambda>v c. v * 10 + (unat c - 48)) n ds"

lemma digit_strchr:
  assumes "cbuf m digits digit_chars" "c \<in> set digit_chars"
  shows "\<exists>a. strchr m digits c = Some a \<and> a \<noteq> 0 \<and> a - digits = of_nat (unat c - 48)"
proof -
  let ?k = "length (takeWhile (\<lambda>d. d \<noteq> c) digit_chars)"
  have "?k \<le> length digit_chars" by (rule length_takeWhile_le)
  then have "digits + of_nat ?k \<noteq> 0" by (rule cbuf_nonnull [OF assms(1)])
  moreover have "strchr m digits c = Some (digits + of_nat ?k)"
    using strchr_cstr [of m digits digit_chars c] assms by (simp add: cbuf_def)
  moreover have "(of_nat ?k :: u32) = of_nat (unat c - 48)" using assms(2) by auto
  ultimately show ?thesis by simp
qed

lemma atoi_digits_cstr:
  assumes tab: "cbuf m digits digit_chars"
    and str: "cstr m s (ds @ rest)" "set ds \<subseteq> set digit_chars" "rest \<noteq> [] \<Longrightarrow> hd rest \<notin> set digit_chars"
  shows "atoi_digits m digits s (of_nat n) = Some (of_nat (decimal n ds))"
  using str
proof (induct ds arbitrary: s n)
  case Nil
  show ?case
  proof (cases rest)
    case Nil
    then show ?thesis using \<open>cstr m s ([] @ rest)\<close> by (subst atoi_digits.simps) (simp add: decimal_def)
  next
    case (Cons c rest')
    then have "m s = c" "c \<noteq> 0" "c \<notin> set digit_chars" using Nil by simp_all
    moreover have "strchr m digits c = Some 0"
      using strchr_cstr [of m digits digit_chars c] tab calculation by (simp add: cbuf_def)
    ultimately show ?thesis by (subst atoi_digits.simps) (simp add: decimal_def)
  qed
next
  case (Cons d ds)
  have d: "d \<in> set digit_chars" "m s = d" "d \<noteq> 0" using Cons(2,3) by auto
  obtain a where a: "strchr m digits d = Some a" "a \<noteq> 0" "a - digits = of_nat (unat d - 48)"
    using digit_strchr [OF tab d(1)] by blast
  have v: "of_nat n * 10 + (a - digits) = (of_nat (n * 10 + (unat d - 48)) :: u32)" using a(3) by simp
  have "atoi_digits m digits s (of_nat n) = atoi_digits m digits (s + 1) (of_nat (n * 10 + (unat d - 48)))"
    using d a(1,2) v by (subst atoi_digits.simps) (simp del: of_nat_add of_nat_mult)
  also have "\<dots> = Some (of_nat (decimal (n * 10 + (unat d - 48)) ds))"
    using Cons(2-4) by (intro Cons(1)) simp_all
  finally show ?case by (simp add: decimal_def)
qed

lemma atoi_blanks_cstr:
  assumes "cstr m s (bs @ ys)" "set bs \<subseteq> {32, 9}" "ys = [] \<or> hd ys \<notin> {32, 9}"
  shows "atoi_blanks m s = Some (s + of_nat (length bs))"
  using assms
proof (induct bs arbitrary: s)
  case Nil
  then show ?case by (subst atoi_blanks.simps) (cases ys; simp)
next
  case (Cons b bs)
  then show ?case using Cons(1) [of "s + 1"] by (subst atoi_blanks.simps) (auto simp: algebra_simps)
qed

lemma sint_small:
  assumes "n < 2147483648"
  shows "sint (of_nat n :: u32) = int n" "sint (- of_nat n :: u32) = - int n"
proof -
  show "sint (of_nat n :: u32) = int n" using assms by (simp add: sint_u32 unat_of_nat_u32)
  show "sint (- of_nat n :: u32) = - int n"
  proof (cases "n = 0")
    case False
    then have "unat (- of_nat n :: u32) = 4294967296 - n" using assms by (intro unat_neg_of_nat) simp_all
    then show ?thesis using assms False by (simp only: sint_u32) simp
  qed simp
qed

section \<open>Properties\<close>

text \<open>A machine with a command line, the menu's separators, the digits and a command name.\<close>

definition demo_strings :: bytes where
  "demo_strings = kwrite (kwrite (kwrite (kwrite (\<lambda>_. 0) 0x1000 [32, 112, 32, 9, 115, 104])
     0x2000 [32, 9]) 0x3000 digit_chars) 0x4000 [112]"

lemmas demo_string_simps = demo_strings_def cbuf_def kwrite_def

text \<open>C34. \<^verbatim>\<open>strcmp\<close> returns on terminated strings, and its result decides the lexicographic
  order of the bytes read as unsigned: 0 exactly for equal strings, negative exactly when the
  first is smaller.\<close>

theorem strcmp_lexicographic:
  assumes "cstr m a xs" "cstr m b ys"
  shows "\<exists>r. strcmp m a b = Some r \<and> (r = 0 \<longleftrightarrow> xs = ys) \<and> (r < 0 \<longleftrightarrow> byte_lex xs ys)"
proof -
  have "\<not> byte_lex xs xs" by (simp add: lexord_irreflexive)
  then show ?thesis using strcmp_cstr [OF assms] by auto
qed

theorem strcmp_lexicographic_witness:
  "cstr demo_strings 0x1004 [115, 104] \<and> cstr demo_strings 0x4000 [112] \<and>
   (\<exists>r. strcmp demo_strings 0x1004 0x4000 = Some r \<and> r > 0)"
proof -
  have c: "cstr demo_strings 0x1004 [115, 104]" "cstr demo_strings 0x4000 [112]"
    by (simp_all add: demo_string_simps)
  obtain r where "strcmp demo_strings 0x1004 0x4000 = Some r" "r = 0 \<longleftrightarrow> [115, 104 :: u8] = [112]"
    "r < 0 \<longleftrightarrow> byte_lex [115, 104] [112]"
    using strcmp_lexicographic [OF c] by blast
  then show ?thesis using c by auto
qed

text \<open>C35. \<^verbatim>\<open>strcat\<close> on terminated strings in disjoint storage: it returns, the destination is the
  concatenation, the source is unchanged, and only bytes from the old terminator of the
  destination to the new one are written.\<close>

theorem strcat_concatenates:
  assumes "cstr m dest xs" "cstr m src ys" "unat dest + length xs + length ys < 4294967296"
    and "unat src + length ys < 4294967296"
    and "unat src + length ys < unat dest \<or> unat dest + length xs + length ys < unat src"
  shows "\<exists>m'. strcat dest src m = Some m' \<and> cstr m' dest (xs @ ys) \<and> cstr m' src ys \<and>
    (\<forall>a. m' a \<noteq> m a \<longrightarrow> unat dest + length xs \<le> unat a \<and> unat a \<le> unat dest + length xs + length ys)"
proof -
  let ?e = "dest + of_nat (length xs)"
  let ?m = "kwrite m ?e (ys @ [0])"
  note run = strcat_write(1) [OF assms] and ch = strcat_write(2) [OF assms]
  have ud: "unat (dest + of_nat i) = unat dest + i" if "i \<le> length xs" for i
    using cbuf_unat [of dest "length xs" i] assms(3) that by simp
  have nz: "0 \<notin> set xs" "0 \<notin> set ys" using assms(1,2) by (simp_all add: cstr_kread)
  have "?m (dest + of_nat i) = m (dest + of_nat i)" if "i < length xs" for i
    using ch [of "dest + of_nat i"] ud [of i] that by force
  then have "kread ?m dest (length xs) = kread m dest (length xs)" by (intro nth_equalityI) simp_all
  moreover have "kread m dest (length xs) = xs" using assms(1) cstr_append [of m dest xs "[]"] by simp
  moreover have "cstr ?m ?e ys" using nz(2) ud [of "length xs"] assms(3) by (intro cstr_kwrite) simp_all
  ultimately have "cstr ?m dest (xs @ ys)" using nz(1) by (simp add: cstr_append)
  moreover have "?m (src + of_nat i) = m (src + of_nat i)" if "i \<le> length ys" for i
    using ch [of "src + of_nat i"] cbuf_unat [OF assms(4) that] that assms(5) by force
  then have "cstr ?m src ys" using cstr_frame [of ys ?m src m] assms(2) by simp
  ultimately show ?thesis using run ch by (intro exI [of _ ?m]) simp
qed

theorem strcat_concatenates_witness:
  "\<exists>m'. strcat 0x4000 0x1004 demo_strings = Some m' \<and> cstr m' 0x4000 [112, 115, 104]"
proof -
  have c: "cstr demo_strings 0x4000 [112]" "cstr demo_strings 0x1004 [115, 104]"
    by (simp_all add: demo_string_simps)
  then show ?thesis using strcat_concatenates [OF c] by auto
qed

text \<open>C17. \<^verbatim>\<open>cmd_dispatch\<close>: on a terminated command line whose storage is apart from the separators
  and the names of the command table it returns without fault what its words call for. No word
  is success, more than \<^verbatim>\<open>MAXMENUARGS\<close> words are refused with \<^verbatim>\<open>E2BIG\<close>, and otherwise the first
  command named by the first word runs on the vector of all words (each a terminated string in
  place), or \<^verbatim>\<open>EINVAL\<close> is returned; only the line itself is written.\<close>

theorem cmd_dispatch_words:
  assumes line: "cbuf m cmd xs" and blanks: "cbuf m blanks ss" "apart (unat cmd) (unat cmd + length xs) blanks ss"
    and table: "table_at m table cmds"
    and names: "\<forall>(p, n) \<in> set (zip (map fst table) (map fst cmds)). apart (unat cmd) (unat cmd + length xs) p n"
    and ws: "tokens (\<lambda>c. c \<in> set ss) xs = ws"
  shows "\<exists>args m'. (\<forall>x. m' x \<noteq> m x \<longrightarrow> unat cmd \<le> unat x \<and> unat x \<le> unat cmd + length xs) \<and>
    (length ws \<le> MAXMENUARGS \<longrightarrow> words_at m' 0 args ws) \<and>
    cmd_dispatch blanks table cmd m =
      (if ws = [] then Some (0, m')
       else if MAXMENUARGS < length ws then Some (errno_code E2BIG, m')
       else case command_for cmds (hd ws) of
              None \<Rightarrow> Some (errno_code EINVAL, m') | Some f \<Rightarrow> f args m')"
proof -
  let ?lo = "unat cmd" and ?hi = "unat cmd + length xs"
  have rest: "rest_at m cmd xs" and cn: "cmd \<noteq> 0" using line by (simp_all add: rest_at_def cbuf_def)
  have first: "strtok_r cmd blanks 0 m = strtok_r 0 blanks cmd m" using cn by (simp add: strtok_r_def)
  show ?thesis
  proof (cases ws)
    case Nil
    obtain c where "strtok_r 0 blanks cmd m = Some (0, c, m)" using strtok_r_none [OF rest blanks(1)] ws Nil by blast
    moreover have "menu_words blanks 0 c [] m = Some (Some [], m)" by (subst menu_words.simps) simp
    ultimately have "cmd_dispatch blanks table cmd m = Some (0, m)" by (simp add: cmd_dispatch_def first)
    then show ?thesis using Nil by (intro exI [of _ "[]"] exI [of _ m]) (simp add: words_at_def)
  next
    case (Cons w ws')
    obtain args m' where run: "cmd_dispatch blanks table cmd m =
          (if length ws \<le> MAXMENUARGS then menu_lookup table args m' else Some (errno_code E2BIG, m'))"
        and fr: "\<forall>x. m' x \<noteq> m x \<longrightarrow> ?lo \<le> unat x \<and> unat x \<le> ?hi"
        and wa: "length ws \<le> MAXMENUARGS \<longrightarrow> words_at m' 0 args ws"
      using dispatch_split [OF line blanks ws [unfolded Cons]] unfolding Cons by blast
    have tab: "table_at m' table cmds" using table_at_apart [OF table names] fr by blast
    show ?thesis
    proof (cases "length ws \<le> MAXMENUARGS")
      case True
      with wa Cons obtain a as where args: "args = a # as" "cstr m' a w"
        by (auto simp: words_at_def list_all2_Cons2 cbuf_def)
      then show ?thesis using run fr wa True Cons menu_lookup_command [OF args(2) tab]
        by (intro exI [of _ "a # as"] exI [of _ m']) simp
    next
      case False
      then show ?thesis using run fr Cons by (intro exI [of _ "[]"] exI [of _ m']) simp
    qed
  qed
qed

definition demo_table :: "(u32 \<times> command) list" where
  "demo_table = [(0x4000, \<lambda>args m. Some (of_nat (length args), m))]"

definition demo_cmds :: "(u8 list \<times> command) list" where
  "demo_cmds = [([112], \<lambda>args m. Some (of_nat (length args), m))]"

theorem cmd_dispatch_words_witness:
  "\<exists>m'. cmd_dispatch 0x2000 demo_table 0x1000 demo_strings = Some (2, m')"
proof -
  let ?xs = "[32, 112, 32, 9, 115, 104] :: u8 list" and ?ss = "[32, 9] :: u8 list"
  have c: "cbuf demo_strings 0x1000 ?xs" "cbuf demo_strings 0x2000 ?ss"
    by (simp_all add: demo_string_simps)
  have a: "apart (unat (0x1000 :: u32)) (unat (0x1000 :: u32) + length ?xs) 0x2000 ?ss" by (simp add: apart_def)
  have t: "table_at demo_strings demo_table demo_cmds"
    by (simp add: table_at_def demo_table_def demo_cmds_def demo_string_simps)
  have n: "\<forall>(p, n) \<in> set (zip (map fst demo_table) (map fst demo_cmds)).
      apart (unat (0x1000 :: u32)) (unat (0x1000 :: u32) + length ?xs) p n"
    by (simp add: apart_def demo_table_def demo_cmds_def)
  have w: "tokens (\<lambda>c. c \<in> set ?ss) ?xs = [[112], [115, 104]]"
    by (subst tokens.simps, simp add: Let_def, subst tokens.simps, simp add: Let_def)
  obtain args m' where "words_at m' 0 args [[112], [115, 104]]"
      "cmd_dispatch 0x2000 demo_table 0x1000 demo_strings =
        (case command_for demo_cmds [112] of None \<Rightarrow> Some (errno_code EINVAL, m') | Some f \<Rightarrow> f args m')"
    using cmd_dispatch_words [OF c a t n w] by auto
  then show ?thesis by (auto simp: demo_cmds_def words_at_def list_all2_Cons2)
qed

text \<open>C36. \<^verbatim>\<open>atoi\<close>: on blanks, an optional sign and decimal digits, with anything that is not a digit
  behind them, it returns the signed value of the digits as long as that is below 2^31. The
  hypothesis on \<open>digits\<close> is the content of the routine's static table.\<close>

theorem atoi_value:
  assumes "cbuf m digits digit_chars" "cstr m s (bs @ sg @ ds @ rest)"
    and "set bs \<subseteq> {32, 9}" "sg \<in> {[], [43], [45]}" "ds \<noteq> []" "set ds \<subseteq> set digit_chars"
    and "rest \<noteq> [] \<Longrightarrow> hd rest \<notin> set digit_chars" "decimal 0 ds < 2147483648"
  shows "\<exists>r. atoi m digits s = Some r \<and>
    sint r = (if sg = [45] then - int (decimal 0 ds) else int (decimal 0 ds))"
proof -
  let ?p = "s + of_nat (length bs)" and ?v = "of_nat (decimal 0 ds) :: u32"
  obtain d ds' where ds: "ds = d # ds'" "d \<in> set digit_chars" using assms(5,6) by (cases ds) auto
  have "hd (sg @ ds @ rest) \<notin> {32, 9}" using assms(4) ds by auto
  then have bl: "atoi_blanks m s = Some ?p" using atoi_blanks_cstr [OF assms(2,3)] by blast
  have p: "cstr m ?p (sg @ ds @ rest)" using assms(2) by (simp add: cstr_append)
  have dg: "atoi_digits m digits q 0 = Some ?v" if "cstr m q (ds @ rest)" for q
    using atoi_digits_cstr [OF assms(1) that assms(6,7), of 0] by simp
  consider "sg = []" | c where "sg = [c]" "c = 43 \<or> c = 45" using assms(4) by auto
  then have "atoi m digits s = Some (if sg = [45] then - ?v else ?v)"
  proof cases
    case 1
    then have "m ?p = d" using p ds(1) by simp
    then show ?thesis using bl dg p ds(2) 1 by (auto simp: atoi_def)
  next
    case 2
    then have "m ?p = c" "cstr m (?p + 1) (ds @ rest)" using p by simp_all
    then show ?thesis using bl dg [of "?p + 1"] 2 by (auto simp: atoi_def)
  qed
  then show ?thesis using sint_small [OF assms(8)] by auto
qed

theorem atoi_value_witness:
  "\<exists>r. atoi (kwrite demo_strings 0x5000 [32, 45, 52, 50, 120]) 0x3000 0x5000 = Some r \<and> sint r = - 42"
proof -
  let ?m = "kwrite demo_strings 0x5000 [32, 45, 52, 50, 120]"
  have "cbuf ?m 0x3000 digit_chars" "cstr ?m 0x5000 ([32] @ [45] @ [52, 50] @ [120])"
    by (simp_all add: demo_string_simps)
  then show ?thesis using atoi_value [of ?m "0x3000" "0x5000" "[32]" "[45]" "[52, 50]" "[120]"]
    by (simp add: decimal_def)
qed

end
