(* ===== verification/Qsort.thy ===== *)
theory Qsort
  imports Prelude "HOL-Library.Multiset"
begin

text \<open>
  \<^verbatim>\<open>userland/lib/libc/stdlib/qsort.c\<close>. The array is the list of its elements, the comparison
  function a parameter, as in C. \<open>None\<close> is the failed \<^verbatim>\<open>assert\<close> before the two recursive
  calls. For a comparison that orders its arguments the routine returns, and what it returns
  is the sorted permutation of its input.
\<close>

section \<open>Model\<close>

type_synonym 'a comparison = "'a \<Rightarrow> 'a \<Rightarrow> int"

definition COMPARE :: "'a comparison \<Rightarrow> 'a list \<Rightarrow> nat \<Rightarrow> nat \<Rightarrow> int" where
  "COMPARE f xs aa bb = (if aa = bb then 0 else f (xs ! aa) (xs ! bb))"

definition EXCHANGE :: "'a list \<Rightarrow> nat \<Rightarrow> nat \<Rightarrow> 'a list" where
  "EXCHANGE xs aa bb = xs[aa := xs ! bb, bb := xs ! aa]"

function qsort_partition ::
    "'a comparison \<Rightarrow> 'a list \<Rightarrow> nat \<Rightarrow> nat \<Rightarrow> nat \<Rightarrow> 'a list \<times> nat \<times> nat \<times> nat" where
  "qsort_partition f xs pivot head tail =
     (if head < tail then
        if COMPARE f xs head pivot \<le> 0 then qsort_partition f xs pivot (head + 1) tail
        else if COMPARE f xs tail pivot > 0 then qsort_partition f xs pivot head (tail - 1)
        else qsort_partition f (EXCHANGE xs head tail)
               (if pivot = head then tail else if pivot = tail then head else pivot)
               (head + 1) (tail - 1)
      else (xs, pivot, head, tail))"
  by pat_completeness auto

termination
  by (relation "measure (\<lambda>(f, xs, pivot, head, tail). tail - head)") auto

declare qsort_partition.simps [simp del]

fun qsort_lop :: "'a comparison \<Rightarrow> 'a list \<Rightarrow> nat \<Rightarrow> nat" where
  "qsort_lop f xs 0 = 0"
| "qsort_lop f xs (Suc t) = (if COMPARE f xs t (Suc t) = 0 then qsort_lop f xs t else Suc t)"

lemma length_EXCHANGE [simp]: "length (EXCHANGE xs a b) = length xs"
  by (simp add: EXCHANGE_def)

lemma qsort_partition_length:
  "qsort_partition f xs pivot head tail = (xs', pivot', head', tail') \<Longrightarrow> length xs' = length xs"
  by (induct f xs pivot head tail rule: qsort_partition.induct)
    (subst (asm) (4) qsort_partition.simps, auto split: if_splits)

lemma qsort_lop_le: "qsort_lop f xs t \<le> t"
  by (induct f xs t rule: qsort_lop.induct) auto

text \<open>Steps 1 to 3: the partitioned array, the index of the pivot, and the start of the back part.\<close>

definition qsort_split :: "'a comparison \<Rightarrow> 'a list \<Rightarrow> 'a list \<times> nat \<times> nat" where
  "qsort_split f xs = (
     let num = length xs;
         (ys, pivot, head, tail) = qsort_partition f xs (num div 2) 0 (num - 1)
     in (ys, pivot, if head > tail \<or> COMPARE f ys head pivot \<le> 0 then tail + 1 else tail))"

text \<open>Step 4: the pivot goes to the end, and all values equal to it are lopped off.\<close>

definition qsort_bad_pivot :: "'a comparison \<Rightarrow> 'a list \<Rightarrow> nat \<Rightarrow> 'a list \<times> nat" where
  "qsort_bad_pivot f ys pivot = (
     let num = length ys;
         zs = (if pivot < num - 1 \<and> COMPARE f ys pivot (num - 1) > 0
               then EXCHANGE ys pivot (num - 1) else ys)
     in (zs, qsort_lop f zs (num - 1)))"

lemma qsort_split_length [simp]: "length (fst (qsort_split f xs)) = length xs"
proof -
  obtain ys p h t where part: "qsort_partition f xs (length xs div 2) 0 (length xs - 1) = (ys, p, h, t)"
    by (metis prod_cases4)
  then show ?thesis using qsort_partition_length [OF part] by (simp add: qsort_split_def Let_def)
qed

lemma qsort_bad_pivot_length [simp]: "length (fst (qsort_bad_pivot f ys p)) = length ys"
  by (simp add: qsort_bad_pivot_def Let_def)

lemma qsort_bad_pivot_less: "ys \<noteq> [] \<Longrightarrow> snd (qsort_bad_pivot f ys p) < length ys"
  unfolding qsort_bad_pivot_def Let_def snd_conv
  by (rule le_less_trans [OF qsort_lop_le]) simp

function qsort :: "'a comparison \<Rightarrow> 'a list \<Rightarrow> 'a list option" where
  "qsort f xs =
     (if length xs \<le> 1 then Some xs
      else if length xs = 2 \<and> COMPARE f xs 0 1 > 0 then Some (EXCHANGE xs 0 1)
      else case qsort_split f xs of (ys, pivot, tail) \<Rightarrow>
        if tail = length xs then
          (case qsort_bad_pivot f ys pivot of (zs, t) \<Rightarrow>
             if t > 0 then (case qsort f (take t zs) of
                              None \<Rightarrow> None | Some front \<Rightarrow> Some (front @ drop t zs))
             else Some zs)
        else if 0 < tail \<and> tail < length xs then
          (case qsort f (take tail ys) of
             None \<Rightarrow> None
           | Some front \<Rightarrow> (case qsort f (drop tail ys) of
                              None \<Rightarrow> None | Some rest \<Rightarrow> Some (front @ rest)))
        else None)"
  by pat_completeness auto

termination
proof (relation "measure (\<lambda>(f, xs). length xs)", goal_cases)
  case 1
  show ?case by simp
next
  case (2 f xs ys y pivot tail zs t)
  have "length ys = length xs" using qsort_split_length [of f xs] unfolding 2(3) [symmetric] by simp
  moreover from this have "ys \<noteq> []" using 2(1) by auto
  from qsort_bad_pivot_less [OF this, of f pivot] have "t < length ys" unfolding 2(6) [symmetric] by simp
  ultimately show ?case by simp
next
  case (3 f xs ys y pivot tail)
  then show ?case by (simp add: min.strict_coboundedI2)
next
  case (4 f xs ys y pivot tail front)
  have "length ys = length xs" using qsort_split_length [of f xs] unfolding 4(3) [symmetric] by simp
  with 4(6) show ?case by (auto simp: diff_less)
qed

declare qsort.simps [simp del]

section \<open>Correctness\<close>

definition comparator :: "'a comparison \<Rightarrow> bool" where
  "comparator f \<longleftrightarrow> (\<forall>x y. f x y > 0 \<longleftrightarrow> f y x < 0) \<and>
     (\<forall>x y z. f x y \<le> 0 \<longrightarrow> f y z \<le> 0 \<longrightarrow> f x z \<le> 0)"

lemma comparatorD:
  assumes "comparator f"
  shows "f x x = 0" "f x y > 0 \<longleftrightarrow> f y x < 0" "f x y \<le> 0 \<Longrightarrow> f y z \<le> 0 \<Longrightarrow> f x z \<le> 0"
    "f x y = 0 \<Longrightarrow> f y x = 0"
proof -
  have s: "f x y > 0 \<longleftrightarrow> f y x < 0" for x y using assms by (simp add: comparator_def)
  show "f x x = 0" using s [of x x] by linarith
  show "f x y > 0 \<longleftrightarrow> f y x < 0" by (rule s)
  show "f x y = 0 \<Longrightarrow> f y x = 0" using s [of x y] s [of y x] by linarith
  show "f x y \<le> 0 \<Longrightarrow> f y z \<le> 0 \<Longrightarrow> f x z \<le> 0" using assms unfolding comparator_def by blast
qed

lemma COMPARE_eq: "comparator f \<Longrightarrow> COMPARE f xs a b = f (xs ! a) (xs ! b)"
  by (simp add: COMPARE_def comparatorD(1))

lemma mset_EXCHANGE: "a < length xs \<Longrightarrow> b < length xs \<Longrightarrow> mset (EXCHANGE xs a b) = mset xs"
  unfolding EXCHANGE_def by (rule mset_swap)

lemma nth_EXCHANGE:
  "a < length xs \<Longrightarrow> b < length xs \<Longrightarrow> i < length xs \<Longrightarrow>
   EXCHANGE xs a b ! i = (if i = a then xs ! b else if i = b then xs ! a else xs ! i)"
  by (auto simp: EXCHANGE_def nth_list_update)

text \<open>The loop of step 2 keeps: the pivot index points at the pivot value, everything before
  \<open>head\<close> is at most the pivot value and everything behind \<open>tail\<close> is above it.\<close>

definition part_inv :: "'a comparison \<Rightarrow> 'a \<Rightarrow> 'a list \<Rightarrow> nat \<Rightarrow> nat \<Rightarrow> nat \<Rightarrow> bool" where
  "part_inv f v xs pivot head tail \<longleftrightarrow>
     pivot < length xs \<and> xs ! pivot = v \<and> head \<le> Suc tail \<and> tail < length xs \<and>
     (\<forall>i<head. f (xs ! i) v \<le> 0) \<and> (\<forall>i. tail < i \<longrightarrow> i < length xs \<longrightarrow> f (xs ! i) v > 0)"

lemma part_inv_exchange:
  assumes "part_inv f v xs pivot head tail" "head < tail" "f (xs ! head) v > 0" "f (xs ! tail) v \<le> 0"
  shows "part_inv f v (EXCHANGE xs head tail)
    (if pivot = head then tail else if pivot = tail then head else pivot) (head + 1) (tail - 1)"
proof -
  have t: "tail < length xs" "head < length xs" using assms(1,2) by (auto simp: part_inv_def)
  have lo: "f (EXCHANGE xs head tail ! i) v \<le> 0" if "i < head + 1" for i
    using that t assms by (auto simp: nth_EXCHANGE part_inv_def less_Suc_eq)
  have hi: "f (EXCHANGE xs head tail ! i) v > 0" if "tail - 1 < i" "i < length xs" for i
    using that t assms by (cases "i = tail") (auto simp: nth_EXCHANGE part_inv_def)
  show ?thesis using assms(1,2) t lo hi by (auto simp: part_inv_def nth_EXCHANGE)
qed

lemma qsort_partition_inv:
  assumes "comparator f" "part_inv f v xs pivot head tail"
    and "qsort_partition f xs pivot head tail = (ys, p, h, t)"
  shows "mset ys = mset xs \<and> part_inv f v ys p h t \<and> t \<le> h"
  using assms
proof (induct f xs pivot head tail rule: qsort_partition.induct)
  case (1 f xs pivot head tail)
  note inv = 1(5) and cmp = COMPARE_eq [OF 1(4), of xs]
  have v: "xs ! pivot = v" using inv by (simp add: part_inv_def)
  consider "\<not> head < tail" | "head < tail" "f (xs ! head) v \<le> 0"
    | "head < tail" "f (xs ! head) v > 0" "f (xs ! tail) v > 0"
    | "head < tail" "f (xs ! head) v > 0" "f (xs ! tail) v \<le> 0" by linarith
  then show ?case
  proof cases
    case 1
    then show ?thesis using \<open>qsort_partition f xs pivot head tail = _\<close> inv by (simp add: qsort_partition.simps)
  next
    case c: 2
    then have "part_inv f v xs pivot (head + 1) tail" using inv by (auto simp: part_inv_def less_Suc_eq)
    then show ?thesis using 1(1) [OF c(1)] c cmp v 1(4,6) by (simp add: qsort_partition.simps [of f xs pivot head tail])
  next
    case c: 3
    then have "part_inv f v xs pivot head (tail - 1)"
      using inv by (auto simp: part_inv_def) (metis Suc_lessI Suc_pred less_nat_zero_code neq0_conv)
    then show ?thesis using 1(2) [OF c(1)] c cmp v 1(4,6) by (simp add: qsort_partition.simps [of f xs pivot head tail])
  next
    case c: 4
    have "head < length xs" "tail < length xs" using inv c by (auto simp: part_inv_def)
    then show ?thesis using 1(3) [OF c(1)] part_inv_exchange [OF inv c] c cmp v 1(4,6) mset_EXCHANGE [of head xs tail]
      by (simp add: qsort_partition.simps [of f xs pivot head tail])
  qed
qed

text \<open>After step 3 the front part is at most the pivot value, the back part above it.\<close>

lemma qsort_split_parts:
  assumes "comparator f" "1 < length xs" "qsort_split f xs = (ys, p, t)"
  shows "mset ys = mset xs" "length ys = length xs" "p < t" "t \<le> length xs"
    "\<And>i. i < t \<Longrightarrow> f (ys ! i) (ys ! p) \<le> 0" "\<And>i. t \<le> i \<Longrightarrow> i < length xs \<Longrightarrow> f (ys ! i) (ys ! p) > 0"
proof -
  let ?n = "length xs"
  obtain h t0 where part: "qsort_partition f xs (?n div 2) 0 (?n - 1) = (ys, p, h, t0)"
    and t: "t = (if h > t0 \<or> COMPARE f ys h p \<le> 0 then t0 + 1 else t0)"
    using assms(3) by (auto simp: qsort_split_def Let_def split: prod.splits)
  have "part_inv f (xs ! (?n div 2)) xs (?n div 2) 0 (?n - 1)" using assms(2) by (auto simp: part_inv_def)
  from qsort_partition_inv [OF assms(1) this part]
  have m: "mset ys = mset xs" and inv: "part_inv f (ys ! p) ys p h t0" and th: "t0 \<le> h"
    by (auto simp: part_inv_def)
  show "mset ys = mset xs" using m .
  show len: "length ys = length xs" using mset_eq_length [OF m] .
  note cmp = COMPARE_eq [OF assms(1), of ys]
  have h: "h \<le> Suc t0" "t0 < length ys" using inv by (auto simp: part_inv_def)
  show lo: "f (ys ! i) (ys ! p) \<le> 0" if "i < t" for i
  proof (cases "i < h")
    case True
    then show ?thesis using inv by (simp add: part_inv_def)
  next
    case False
    then have "i = h" "h = t0" "COMPARE f ys h p \<le> 0" using that t th by (auto split: if_splits)
    then show ?thesis by (simp add: cmp)
  qed
  show hi: "f (ys ! i) (ys ! p) > 0" if "t \<le> i" "i < length xs" for i
    using that t th inv len by (cases "i = t0") (auto simp: cmp part_inv_def split: if_splits)
  show "p < t" using hi [of p] comparatorD(1) [OF assms(1), of "ys ! p"] inv len by (force simp: part_inv_def not_le [symmetric])
  show "t \<le> length xs" using t h(2) len by auto
qed

lemma qsort_lop_equal:
  assumes "comparator f" "qsort_lop f zs n = t" "i \<le> n" "t \<le> i"
  shows "f (zs ! n) (zs ! i) = 0"
  using assms
proof (induct n)
  case 0
  then show ?case by (simp add: comparatorD(1))
next
  case (Suc n)
  note c = comparatorD [OF Suc(2)]
  show ?case
  proof (cases "i = Suc n")
    case False
    then have "f (zs ! n) (zs ! Suc n) = 0" "qsort_lop f zs n = t"
      using Suc(3-5) by (auto simp: COMPARE_eq [OF Suc(2)] split: if_splits)
    moreover have "f (zs ! n) (zs ! i) = 0" using Suc(1) [OF Suc(2)] calculation(2) Suc(4,5) False by simp
    ultimately show ?thesis using c(2) [of "zs ! Suc n" "zs ! i"] c(2) [of "zs ! i" "zs ! Suc n"]
        c(3) [of "zs ! Suc n" "zs ! n" "zs ! i"] c(3) [of "zs ! i" "zs ! n" "zs ! Suc n"] c(4) by fastforce
  qed (simp add: c(1))
qed

definition in_order :: "'a comparison \<Rightarrow> 'a list \<Rightarrow> bool" where
  "in_order f xs \<longleftrightarrow> sorted_wrt (\<lambda>x y. f x y \<le> 0) xs"

lemma in_order_append:
  "in_order f (xs @ ys) \<longleftrightarrow> in_order f xs \<and> in_order f ys \<and> (\<forall>x\<in>set xs. \<forall>y\<in>set ys. f x y \<le> 0)"
  by (simp add: in_order_def sorted_wrt_append)

text \<open>Step 4 leaves a greatest element last and, from \<open>t\<close> on, only elements equal to it.\<close>

lemma qsort_bad_pivot_parts:
  assumes "comparator f" "p < length ys" "\<And>i. i < length ys \<Longrightarrow> f (ys ! i) (ys ! p) \<le> 0"
    and "qsort_bad_pivot f ys p = (zs, t)"
  shows "mset zs = mset ys" "in_order f (drop t zs)" "\<forall>x\<in>set zs. \<forall>y\<in>set (drop t zs). f x y \<le> 0"
proof -
  note c = comparatorD [OF assms(1)]
  let ?n = "length ys - 1"
  have n: "?n < length ys" using assms(2) by simp
  have zs: "zs = (if p < ?n \<and> COMPARE f ys p ?n > 0 then EXCHANGE ys p ?n else ys)" "t = qsort_lop f zs ?n"
    using assms(4) by (auto simp: qsort_bad_pivot_def Let_def)
  show m: "mset zs = mset ys" using zs(1) mset_EXCHANGE [OF assms(2) n] by simp
  have len: "length zs = length ys" using mset_eq_length [OF m] .
  have "f (ys ! p) (zs ! ?n) \<le> 0"
  proof (cases "p < ?n")
    case True
    then show ?thesis using zs(1) n c(1) by (auto simp: nth_EXCHANGE COMPARE_eq [OF assms(1)])
  next
    case False
    then have "p = ?n" using assms(2) by linarith
    then show ?thesis using zs(1) c(1) by simp
  qed
  then have "f x (zs ! ?n) \<le> 0" if "x \<in> set ys" for x
    using that assms(3) c(3) by (metis in_set_conv_nth)
  moreover have "set zs = set ys" using m by (rule mset_eq_setD)
  ultimately have top: "f x (zs ! ?n) \<le> 0" if "x \<in> set zs" for x using that by simp
  have eq: "f (zs ! ?n) y = 0" if "y \<in> set (drop t zs)" for y
  proof -
    from that obtain k where k: "k < length zs - t" "y = zs ! (t + k)" by (auto simp: in_set_conv_nth)
    then show ?thesis using qsort_lop_equal [OF assms(1) zs(2) [symmetric], of "t + k"] len by simp
  qed
  show le: "\<forall>x\<in>set zs. \<forall>y\<in>set (drop t zs). f x y \<le> 0"
    using top eq c(3) by (metis order_refl)
  then have "f x y \<le> 0" if "x \<in> set (drop t zs)" "y \<in> set (drop t zs)" for x y
    using that in_set_dropD [OF that(1)] by blast
  then show "in_order f (drop t zs)" unfolding in_order_def sorted_wrt_iff_nth_less by (metis nth_mem less_trans)
qed

lemma qsort_one_part:
  assumes "comparator f" "1 < length xs" "\<not> (length xs = 2 \<and> COMPARE f xs 0 1 > 0)"
    and sp: "qsort_split f xs = (ys, p, length xs)"
    and ih: "\<And>zs. length zs < length xs \<Longrightarrow> \<exists>rs. qsort f zs = Some rs \<and> mset rs = mset zs \<and> in_order f rs"
  shows "\<exists>rs. qsort f xs = Some rs \<and> mset rs = mset xs \<and> in_order f rs"
proof -
  note parts = qsort_split_parts [OF assms(1,2) sp]
  obtain zs t where bp: "qsort_bad_pivot f ys p = (zs, t)" by (cases "qsort_bad_pivot f ys p")
  have "p < length ys" using parts(2,3) by simp
  note bad = qsort_bad_pivot_parts [OF assms(1) this parts(5) [folded parts(2)] bp]
  have "ys \<noteq> []" using parts(2) assms(2) by auto
  then have t: "t < length xs" using qsort_bad_pivot_less [of ys f p] bp parts(2) by simp
  have m: "mset zs = mset xs" using bad(1) parts(1) by simp
  have run: "qsort f xs = (if t > 0 then (case qsort f (take t zs) of
      None \<Rightarrow> None | Some front \<Rightarrow> Some (front @ drop t zs)) else Some zs)"
    using assms(2) sp bp by (subst qsort.simps) (simp only: assms(3) if_False, simp)
  show ?thesis
  proof (cases "t > 0")
    case True
    obtain front where fr: "qsort f (take t zs) = Some front" "mset front = mset (take t zs)" "in_order f front"
      using ih [of "take t zs"] t by (auto simp: min.strict_coboundedI2)
    have "set front \<subseteq> set zs" using mset_eq_setD [OF fr(2)] set_take_subset by metis
    then have "in_order f (front @ drop t zs)" using fr(3) bad(2,3) by (auto simp: in_order_append)
    moreover have "mset (front @ drop t zs) = mset xs"
      using fr(2) m by (metis append_take_drop_id mset_append)
    ultimately show ?thesis using run True fr(1) by simp
  next
    case False
    then show ?thesis using run m bad(2) by simp
  qed
qed

lemma qsort_two_parts:
  assumes "comparator f" "1 < length xs" "\<not> (length xs = 2 \<and> COMPARE f xs 0 1 > 0)"
    and sp: "qsort_split f xs = (ys, p, t)" "t \<noteq> length xs"
    and ih: "\<And>zs. length zs < length xs \<Longrightarrow> \<exists>rs. qsort f zs = Some rs \<and> mset rs = mset zs \<and> in_order f rs"
  shows "\<exists>rs. qsort f xs = Some rs \<and> mset rs = mset xs \<and> in_order f rs"
proof -
  note parts = qsort_split_parts [OF assms(1,2) sp(1)] and c = comparatorD [OF assms(1)]
  have t: "0 < t" "t < length xs" using parts(3,4) sp(2) by auto
  obtain front where fr: "qsort f (take t ys) = Some front" "mset front = mset (take t ys)" "in_order f front"
    using ih [of "take t ys"] t by (auto simp: min.strict_coboundedI2)
  have "length (drop t ys) < length xs" using t parts(2) by (simp add: diff_less)
  then obtain rest where re: "qsort f (drop t ys) = Some rest" "mset rest = mset (drop t ys)" "in_order f rest"
    using ih by blast
  have "qsort f xs = Some (front @ rest)"
    using assms(2) sp t fr(1) re(1) by (subst qsort.simps) (simp only: assms(3) if_False, simp)
  moreover have "mset (front @ rest) = mset xs"
    using fr(2) re(2) parts(1) by (metis append_take_drop_id mset_append)
  moreover have "f x y \<le> 0" if "x \<in> set front" "y \<in> set rest" for x y
  proof -
    have "x \<in> set (take t ys)" "y \<in> set (drop t ys)"
      using that mset_eq_setD [OF fr(2)] mset_eq_setD [OF re(2)] by simp_all
    then obtain i j where "i < t" "x = ys ! i" "t \<le> j" "j < length xs" "y = ys ! j"
      using parts(2) by (auto simp: in_set_conv_nth) (metis add_less_imp_less_left le_add1 less_diff_conv2 nat_less_le add.commute le_add_diff_inverse2 less_diff_conv order_less_imp_le t(2))
    then have "f x (ys ! p) \<le> 0" "f y (ys ! p) > 0" using parts(5,6) by blast+
    then show ?thesis using c(2) [of y "ys ! p"] c(3) [of x "ys ! p" y] by linarith
  qed
  ultimately show ?thesis using fr(3) re(3) by (auto simp: in_order_append)
qed

lemma qsort_correct:
  assumes "comparator f"
  shows "\<exists>ys. qsort f xs = Some ys \<and> mset ys = mset xs \<and> in_order f ys"
proof (induct xs rule: length_induct)
  case (1 xs)
  then have ih: "\<exists>rs. qsort f zs = Some rs \<and> mset rs = mset zs \<and> in_order f rs" if "length zs < length xs" for zs
    using that by blast
  obtain ys p t where sp: "qsort_split f xs = (ys, p, t)" by (cases "qsort_split f xs") auto
  consider "length xs \<le> 1" | "length xs = 2" "COMPARE f xs 0 1 > 0"
    | "1 < length xs" "\<not> (length xs = 2 \<and> COMPARE f xs 0 1 > 0)" by linarith
  then show ?case
  proof cases
    case 1
    then have "in_order f xs" by (cases xs) (auto simp: in_order_def)
    with 1 show ?thesis by (simp add: qsort.simps)
  next
    case 2
    then obtain a b where "xs = [a, b]" by (auto simp: length_Suc_conv numeral_2_eq_2)
    then show ?thesis using 2 comparatorD(2) [OF assms, of a b]
      by (auto simp: qsort.simps COMPARE_def EXCHANGE_def in_order_def add_mset_commute)
  next
    case 3
    then show ?thesis
      using qsort_one_part [OF assms 3 _ ih] qsort_two_parts [OF assms 3 sp _ ih] sp by (cases "t = length xs") auto
  qed
qed

section \<open>Properties\<close>

text \<open>C16. \<^verbatim>\<open>qsort\<close> returns for every array when the comparison orders its arguments (its sign is
  antisymmetric and \<open>\<le>\<close> is transitive): the assertion before the recursive calls never fails, and
  the result is a permutation of the array in ascending order.\<close>

theorem qsort_sorts:
  assumes "comparator f"
  shows "\<exists>ys. qsort f xs = Some ys \<and> mset ys = mset xs \<and> sorted_wrt (\<lambda>x y. f x y \<le> 0) ys"
  using qsort_correct [OF assms, of xs] by (simp add: in_order_def)

theorem qsort_sorts_witness:
  "qsort (\<lambda>x y. x - y) [3, 1, 2 :: int] = Some [1, 2, 3]"
proof -
  have "comparator (\<lambda>x y. x - y :: int)" by (auto simp: comparator_def)
  then obtain ys where ys: "qsort (\<lambda>x y. x - y) [3, 1, 2 :: int] = Some ys" "mset ys = mset [3, 1, 2]"
    "sorted_wrt (\<lambda>x y. x - y \<le> 0) ys"
    using qsort_sorts [of "\<lambda>x y. x - y" "[3, 1, 2 :: int]"] by blast
  have "sorted ys" using ys(3) by simp
  then have "ys = sort [3, 1, 2]" using ys(2) properties_for_sort by metis
  then show ?thesis using ys(1) by simp
qed

end
