(* ===== verification/Threadlist.thy ===== *)
theory Threadlist
  imports Prelude
begin

text \<open>
  The doubly linked thread lists of \<^verbatim>\<open>kern/thread/threadlist.c\<close>, on which run queues, wait
  channels and zombie lists are built, and the wait-channel wake-ups of
  \<^verbatim>\<open>kern/thread/thread.c\<close> that use them. The heap keeps the three fields of every
  \<^verbatim>\<open>struct threadlistnode\<close>; a node is one of the two bookends of a list or the \<^verbatim>\<open>t_listnode\<close>
  of a thread. A store through a null pointer is \<open>None\<close>. \<open>tl_rep s L T\<close> relates a heap to
  the sequences it holds; every operation is shown to be the sequence operation of its name.
  The assertions spelt \<^verbatim>\<open>DEBUGASSERT\<close> are compiled out in \<^verbatim>\<open>kern/include/lib.h\<close> and are not
  part of the model.
\<close>

section \<open>Model\<close>

datatype tln = Head nat | Tail nat | Node nat

record tlheap =
  tln_prev :: "tln \<Rightarrow> tln option"
  tln_next :: "tln \<Rightarrow> tln option"
  tln_self :: "tln \<Rightarrow> nat option"
  tl_count :: "nat \<Rightarrow> u32"

definition set_next :: "tln option \<Rightarrow> tln option \<Rightarrow> tlheap \<Rightarrow> tlheap option" where
  "set_next p v s = (case p of None \<Rightarrow> None | Some n \<Rightarrow> Some (s\<lparr>tln_next := (tln_next s)(n := v)\<rparr>))"

definition set_prev :: "tln option \<Rightarrow> tln option \<Rightarrow> tlheap \<Rightarrow> tlheap option" where
  "set_prev p v s = (case p of None \<Rightarrow> None | Some n \<Rightarrow> Some (s\<lparr>tln_prev := (tln_prev s)(n := v)\<rparr>))"

definition set_self :: "tln \<Rightarrow> nat option \<Rightarrow> tlheap \<Rightarrow> tlheap" where
  "set_self n v s = s\<lparr>tln_self := (tln_self s)(n := v)\<rparr>"

definition set_count :: "nat \<Rightarrow> u32 \<Rightarrow> tlheap \<Rightarrow> tlheap" where
  "set_count lst v s = s\<lparr>tl_count := (tl_count s)(lst := v)\<rparr>"

definition threadlistnode_init :: "tln \<Rightarrow> nat \<Rightarrow> tlheap \<Rightarrow> tlheap option" where
  "threadlistnode_init tln t s = do {
     s \<leftarrow> set_next (Some tln) None s;
     s \<leftarrow> set_prev (Some tln) None s;
     Some (set_self tln (Some t) s) }"

definition threadlistnode_cleanup :: "tln \<Rightarrow> tlheap \<Rightarrow> unit option" where
  "threadlistnode_cleanup tln s = do {
     _ \<leftarrow> kassert (tln_next s tln = None);
     _ \<leftarrow> kassert (tln_prev s tln = None);
     kassert (tln_self s tln \<noteq> None) }"

definition threadlist_init :: "nat \<Rightarrow> tlheap \<Rightarrow> tlheap option" where
  "threadlist_init lst s = do {
     s \<leftarrow> set_next (Some (Head lst)) (Some (Tail lst)) s;
     s \<leftarrow> set_prev (Some (Head lst)) None s;
     s \<leftarrow> set_next (Some (Tail lst)) None s;
     s \<leftarrow> set_prev (Some (Tail lst)) (Some (Head lst)) s;
     let s = set_self (Head lst) None s;
     let s = set_self (Tail lst) None s;
     Some (set_count lst 0 s) }"

definition threadlist_isempty :: "nat \<Rightarrow> tlheap \<Rightarrow> bool" where
  "threadlist_isempty lst s = (tl_count s lst = 0)"

definition threadlist_cleanup :: "nat \<Rightarrow> tlheap \<Rightarrow> unit option" where
  "threadlist_cleanup lst s = do {
     _ \<leftarrow> kassert (threadlist_isempty lst s);
     kassert (tl_count s lst = 0) }"

definition threadlist_insertafternode :: "tln \<Rightarrow> nat \<Rightarrow> tlheap \<Rightarrow> tlheap option" where
  "threadlist_insertafternode onlist t s = do {
     let addee = Node t;
     s \<leftarrow> set_prev (Some addee) (Some onlist) s;
     s \<leftarrow> set_next (Some addee) (tln_next s onlist) s;
     s \<leftarrow> set_next (tln_prev s addee) (Some addee) s;
     set_prev (tln_next s addee) (Some addee) s }"

definition threadlist_insertbeforenode :: "nat \<Rightarrow> tln \<Rightarrow> tlheap \<Rightarrow> tlheap option" where
  "threadlist_insertbeforenode t onlist s = do {
     let addee = Node t;
     s \<leftarrow> set_prev (Some addee) (tln_prev s onlist) s;
     s \<leftarrow> set_next (Some addee) (Some onlist) s;
     s \<leftarrow> set_next (tln_prev s addee) (Some addee) s;
     set_prev (tln_next s addee) (Some addee) s }"

definition threadlist_removenode :: "tln \<Rightarrow> tlheap \<Rightarrow> tlheap option" where
  "threadlist_removenode tln s = do {
     s \<leftarrow> set_next (tln_prev s tln) (tln_next s tln) s;
     s \<leftarrow> set_prev (tln_next s tln) (tln_prev s tln) s;
     s \<leftarrow> set_prev (Some tln) None s;
     set_next (Some tln) None s }"

definition threadlist_addhead :: "nat \<Rightarrow> nat \<Rightarrow> tlheap \<Rightarrow> tlheap option" where
  "threadlist_addhead lst t s = do {
     s \<leftarrow> threadlist_insertafternode (Head lst) t s;
     Some (set_count lst (tl_count s lst + 1) s) }"

definition threadlist_addtail :: "nat \<Rightarrow> nat \<Rightarrow> tlheap \<Rightarrow> tlheap option" where
  "threadlist_addtail lst t s = do {
     s \<leftarrow> threadlist_insertbeforenode t (Tail lst) s;
     Some (set_count lst (tl_count s lst + 1) s) }"

definition threadlist_remhead :: "nat \<Rightarrow> tlheap \<Rightarrow> (nat option \<times> tlheap) option" where
  "threadlist_remhead lst s = do {
     tln \<leftarrow> tln_next s (Head lst);
     if tln_next s tln = None then Some (None, s)
     else do {
       s \<leftarrow> threadlist_removenode tln s;
       let s = set_count lst (tl_count s lst - 1) s;
       Some (tln_self s tln, s) } }"

definition threadlist_remtail :: "nat \<Rightarrow> tlheap \<Rightarrow> (nat option \<times> tlheap) option" where
  "threadlist_remtail lst s = do {
     tln \<leftarrow> tln_prev s (Tail lst);
     if tln_prev s tln = None then Some (None, s)
     else do {
       s \<leftarrow> threadlist_removenode tln s;
       let s = set_count lst (tl_count s lst - 1) s;
       Some (tln_self s tln, s) } }"

definition threadlist_insertafter :: "nat \<Rightarrow> nat \<Rightarrow> nat \<Rightarrow> tlheap \<Rightarrow> tlheap option" where
  "threadlist_insertafter lst onlist addee s = do {
     s \<leftarrow> threadlist_insertafternode (Node onlist) addee s;
     Some (set_count lst (tl_count s lst + 1) s) }"

definition threadlist_insertbefore :: "nat \<Rightarrow> nat \<Rightarrow> nat \<Rightarrow> tlheap \<Rightarrow> tlheap option" where
  "threadlist_insertbefore lst addee onlist s = do {
     s \<leftarrow> threadlist_insertbeforenode addee (Node onlist) s;
     Some (set_count lst (tl_count s lst + 1) s) }"

definition threadlist_remove :: "nat \<Rightarrow> nat \<Rightarrow> tlheap \<Rightarrow> tlheap option" where
  "threadlist_remove lst t s = do {
     s \<leftarrow> threadlist_removenode (Node t) s;
     Some (set_count lst (tl_count s lst - 1) s) }"

text \<open>\<^verbatim>\<open>while ((target = get()) != NULL) put(target)\<close>.\<close>

partial_function (option) drain ::
    "('s \<Rightarrow> (nat option \<times> 's) option) \<Rightarrow> (nat \<Rightarrow> 's \<Rightarrow> 's option) \<Rightarrow> 's \<Rightarrow> 's option" where
  [code]: "drain get put s = do {
     (target, s) \<leftarrow> get s;
     (case target of None \<Rightarrow> Some s | Some t \<Rightarrow> do { s \<leftarrow> put t s; drain get put s }) }"

text \<open>The wake-ups of a wait channel. \<open>wc\<close> is the channel's thread list, \<open>rq t\<close> the run queue
  of the cpu of thread \<open>t\<close>, \<open>priv\<close> the list on the stack of \<^verbatim>\<open>wchan_wakeall\<close>. The wait
  channel's spinlock is held by the caller; the state and the unidling interrupt that
  \<^verbatim>\<open>thread_make_runnable\<close> also sets concern the scheduler.\<close>

definition thread_make_runnable :: "(nat \<Rightarrow> nat) \<Rightarrow> nat \<Rightarrow> tlheap \<Rightarrow> tlheap option" where
  "thread_make_runnable rq target s = threadlist_addtail (rq target) target s"

definition wchan_wakeone_list :: "nat \<Rightarrow> (nat \<Rightarrow> nat) \<Rightarrow> tlheap \<Rightarrow> tlheap option" where
  "wchan_wakeone_list wc rq s = do {
     (target, s) \<leftarrow> threadlist_remhead wc s;
     (case target of None \<Rightarrow> Some s | Some t \<Rightarrow> thread_make_runnable rq t s) }"

definition wchan_wakeall_list :: "nat \<Rightarrow> nat \<Rightarrow> (nat \<Rightarrow> nat) \<Rightarrow> tlheap \<Rightarrow> tlheap option" where
  "wchan_wakeall_list wc priv rq s = do {
     s \<leftarrow> threadlist_init priv s;
     s \<leftarrow> drain (threadlist_remhead wc) (threadlist_addtail priv) s;
     s \<leftarrow> drain (threadlist_remhead priv) (thread_make_runnable rq) s;
     _ \<leftarrow> threadlist_cleanup priv s;
     Some s }"

section \<open>Chains\<close>

fun chain :: "tlheap \<Rightarrow> tln list \<Rightarrow> bool" where
  "chain s (a # b # ns) \<longleftrightarrow> tln_next s a = Some b \<and> tln_prev s b = Some a \<and> chain s (b # ns)"
| "chain s _ \<longleftrightarrow> True"

lemma chain_split: "chain s (xs @ a # ys) \<longleftrightarrow> chain s (xs @ [a]) \<and> chain s (a # ys)"
proof (induct xs)
  case (Cons x xs)
  then show ?case by (cases xs) auto
qed simp

lemma chain_cong:
  assumes "\<And>x. x \<in> set (butlast ns) \<Longrightarrow> tln_next s' x = tln_next s x"
    and "\<And>x. x \<in> set (tl ns) \<Longrightarrow> tln_prev s' x = tln_prev s x"
  shows "chain s' ns \<longleftrightarrow> chain s ns"
  using assms
proof (induct s' ns rule: chain.induct)
  case (1 s' a b ns)
  have "chain s' (b # ns) \<longleftrightarrow> chain s (b # ns)" using 1(2,3) by (intro 1(1)) auto
  then show ?case using 1(2) [of a] 1(3) [of b] by simp
qed simp_all

definition link :: "tln \<Rightarrow> tln \<Rightarrow> tln \<Rightarrow> tlheap \<Rightarrow> tlheap" where
  "link a n b s = s\<lparr>tln_next := (tln_next s)(n := Some b, a := Some n),
     tln_prev := (tln_prev s)(n := Some a, b := Some n)\<rparr>"

definition unlink :: "tln \<Rightarrow> tln \<Rightarrow> tln \<Rightarrow> tlheap \<Rightarrow> tlheap" where
  "unlink a n b s = s\<lparr>tln_next := (tln_next s)(a := Some b, n := None),
     tln_prev := (tln_prev s)(b := Some a, n := None)\<rparr>"

lemma link_fields [simp]:
  "tln_next (link a n b s) = (tln_next s)(n := Some b, a := Some n)"
  "tln_prev (link a n b s) = (tln_prev s)(n := Some a, b := Some n)"
  "tln_self (link a n b s) = tln_self s" "tl_count (link a n b s) = tl_count s"
  by (simp_all add: link_def)

lemma unlink_fields [simp]:
  "tln_next (unlink a n b s) = (tln_next s)(a := Some b, n := None)"
  "tln_prev (unlink a n b s) = (tln_prev s)(b := Some a, n := None)"
  "tln_self (unlink a n b s) = tln_self s" "tl_count (unlink a n b s) = tl_count s"
  by (simp_all add: unlink_def)

lemma set_count_fields [simp]:
  "tln_next (set_count l v s) = tln_next s" "tln_prev (set_count l v s) = tln_prev s"
  "tln_self (set_count l v s) = tln_self s" "tl_count (set_count l v s) = (tl_count s)(l := v)"
  by (simp_all add: set_count_def)

lemma chain_set_count [simp]: "chain (set_count l v s) ns \<longleftrightarrow> chain s ns"
  by (rule chain_cong) simp_all

text \<open>A chain is not disturbed by the linking of nodes that are neither on it nor next to it.\<close>

lemma chain_link_other:
  assumes "n \<notin> set ns" "a \<notin> set (butlast ns)" "b \<notin> set (tl ns)"
  shows "chain (link a n b s) ns \<longleftrightarrow> chain s ns"
proof (rule chain_cong)
  fix x
  show "x \<in> set (butlast ns) \<Longrightarrow> tln_next (link a n b s) x = tln_next s x"
    using assms(1,2) in_set_butlastD [of x ns] by auto
  show "x \<in> set (tl ns) \<Longrightarrow> tln_prev (link a n b s) x = tln_prev s x"
    using assms(1,3) list.set_sel(2) [of ns x] by (cases ns) auto
qed

lemma chain_unlink_other:
  assumes "n \<notin> set ns" "a \<notin> set (butlast ns)" "b \<notin> set (tl ns)"
  shows "chain (unlink a n b s) ns \<longleftrightarrow> chain s ns"
proof (rule chain_cong)
  fix x
  show "x \<in> set (butlast ns) \<Longrightarrow> tln_next (unlink a n b s) x = tln_next s x"
    using assms(1,2) in_set_butlastD [of x ns] by auto
  show "x \<in> set (tl ns) \<Longrightarrow> tln_prev (unlink a n b s) x = tln_prev s x"
    using assms(1,3) by (cases ns) auto
qed

lemma chain_link:
  assumes "chain s (xs @ a # b # ys)" "distinct (xs @ a # b # ys)" "n \<notin> set (xs @ a # b # ys)"
  shows "chain (link a n b s) (xs @ a # n # b # ys)"
proof -
  have c: "chain s (xs @ [a])" "chain s (b # ys)" using chain_split [THEN iffD1, OF assms(1)] by simp_all
  have "chain (link a n b s) (xs @ [a])"
    using c(1) assms(2,3) by (subst chain_link_other) (cases xs; auto)+
  moreover have "chain (link a n b s) (b # ys)"
    using c(2) assms(2,3) in_set_butlastD [of a ys] by (subst chain_link_other) auto
  then have "chain (link a n b s) (a # n # b # ys)" using assms(2,3) by (auto simp: fun_upd_def)
  ultimately show ?thesis using chain_split [of _ xs a] by blast
qed

lemma chain_unlink:
  assumes "chain s (xs @ a # n # b # ys)" "distinct (xs @ a # n # b # ys)"
  shows "chain (unlink a n b s) (xs @ a # b # ys)"
proof -
  have c: "chain s (xs @ [a])" "chain s (b # ys)" using chain_split [THEN iffD1, OF assms(1)] by simp_all
  have "chain (unlink a n b s) (xs @ [a])"
    using c(1) assms(2) by (subst chain_unlink_other) (cases xs; auto)+
  moreover have "chain (unlink a n b s) (b # ys)"
    using c(2) assms(2) in_set_butlastD [of a ys] by (subst chain_unlink_other) auto
  then have "chain (unlink a n b s) (a # b # ys)" using assms(2) by auto
  ultimately show ?thesis using chain_split [of _ xs a] by blast
qed

lemma insertafternode_link:
  "tln_next s a = Some b \<Longrightarrow> a \<noteq> Node t \<Longrightarrow>
     threadlist_insertafternode a t s = Some (link a (Node t) b s)"
  by (simp add: threadlist_insertafternode_def set_prev_def set_next_def link_def Let_def)

lemma insertbeforenode_link:
  "tln_prev s b = Some a \<Longrightarrow> a \<noteq> Node t \<Longrightarrow>
     threadlist_insertbeforenode t b s = Some (link a (Node t) b s)"
  by (simp add: threadlist_insertbeforenode_def set_prev_def set_next_def link_def Let_def)

lemma removenode_unlink:
  "tln_prev s n = Some a \<Longrightarrow> tln_next s n = Some b \<Longrightarrow> a \<noteq> n \<Longrightarrow>
     threadlist_removenode n s = Some (unlink a n b s)"
  by (simp add: threadlist_removenode_def set_prev_def set_next_def unlink_def)

section \<open>Heaps that hold sequences\<close>

definition nodes :: "nat \<Rightarrow> nat list \<Rightarrow> tln list" where
  "nodes l ts = Head l # map Node ts @ [Tail l]"

definition list_ok :: "tlheap \<Rightarrow> nat set \<Rightarrow> nat \<Rightarrow> nat list \<Rightarrow> bool" where
  "list_ok s T l ts \<longleftrightarrow> chain s (nodes l ts) \<and> tln_prev s (Head l) = None \<and> tln_next s (Tail l) = None \<and>
     tln_self s (Head l) = None \<and> tln_self s (Tail l) = None \<and> distinct ts \<and> set ts \<subseteq> T \<and>
     tl_count s l = of_nat (length ts)"

definition off_lists :: "(nat \<rightharpoonup> nat list) \<Rightarrow> nat \<Rightarrow> bool" where
  "off_lists L t \<longleftrightarrow> (\<forall>l ts. L l = Some ts \<longrightarrow> t \<notin> set ts)"

definition tl_rep :: "nat set \<Rightarrow> tlheap \<Rightarrow> (nat \<rightharpoonup> nat list) \<Rightarrow> bool" where
  "tl_rep T s L \<longleftrightarrow> finite T \<and> card T < 4294967296 \<and>
     (\<forall>l ts. L l = Some ts \<longrightarrow> list_ok s T l ts) \<and>
     (\<forall>l l' ts ts'. L l = Some ts \<longrightarrow> L l' = Some ts' \<longrightarrow> l \<noteq> l' \<longrightarrow> set ts \<inter> set ts' = {}) \<and>
     (\<forall>t\<in>T. tln_self s (Node t) = Some t) \<and>
     (\<forall>t\<in>T. off_lists L t \<longrightarrow> tln_prev s (Node t) = None \<and> tln_next s (Node t) = None)"

definition node_before :: "nat \<Rightarrow> nat list \<Rightarrow> tln" where
  "node_before l xs = (if xs = [] then Head l else Node (last xs))"

definition node_after :: "nat \<Rightarrow> nat list \<Rightarrow> tln" where
  "node_after l ys = (if ys = [] then Tail l else Node (hd ys))"

lemma nodes_split:
  "\<exists>us vs. \<forall>zs. nodes l (xs @ zs @ ys) = us @ node_before l xs # map Node zs @ node_after l ys # vs"
proof (intro exI allI)
  fix zs
  show "nodes l (xs @ zs @ ys) = (if xs = [] then [] else Head l # map Node (butlast xs)) @
      node_before l xs # map Node zs @ node_after l ys # (if ys = [] then [] else map Node (tl ys) @ [Tail l])"
    by (cases xs rule: rev_cases; cases ys) (simp_all add: nodes_def node_before_def node_after_def)
qed

lemma nodes_mem: "set (nodes l ts) = insert (Head l) (insert (Tail l) (Node ` set ts))"
  by (auto simp: nodes_def)

lemma distinct_nodes: "distinct (nodes l ts) \<longleftrightarrow> distinct ts"
  by (auto simp: nodes_def distinct_map intro: inj_onI)

lemma node_before_mem: "node_before l xs \<in> insert (Head l) (Node ` set xs)"
  by (simp add: node_before_def)

lemma node_after_mem: "node_after l ys \<in> insert (Tail l) (Node ` set ys)"
  by (simp add: node_after_def)

lemma list_links:
  assumes "list_ok s T l (xs @ ys)"
  shows "tln_next s (node_before l xs) = Some (node_after l ys)"
    "tln_prev s (node_after l ys) = Some (node_before l xs)"
proof -
  obtain us vs where n: "\<And>zs. nodes l (xs @ zs @ ys) = us @ node_before l xs # map Node zs @ node_after l ys # vs"
    using nodes_split [of l xs ys] by blast
  have "chain s (us @ node_before l xs # node_after l ys # vs)"
    using assms n [of "[]"] by (simp add: list_ok_def)
  then have "chain s (node_before l xs # node_after l ys # vs)" by (rule chain_split [THEN iffD1, THEN conjunct2])
  then show "tln_next s (node_before l xs) = Some (node_after l ys)"
    "tln_prev s (node_after l ys) = Some (node_before l xs)" by simp_all
qed

lemma list_node_links:
  assumes "list_ok s T l (xs @ t # ys)"
  shows "tln_prev s (Node t) = Some (node_before l xs)" "tln_next s (Node t) = Some (node_after l ys)"
  using list_links [of s T l xs "t # ys"] list_links [of s T l "xs @ [t]" ys] assms
  by (simp_all add: node_before_def node_after_def)

lemma list_ok_link:
  assumes "list_ok s T l (xs @ ys)" "t \<in> T" "t \<notin> set (xs @ ys)"
  shows "list_ok (set_count l (tl_count s l + 1) (link (node_before l xs) (Node t) (node_after l ys) s)) T l (xs @ t # ys)"
proof -
  let ?a = "node_before l xs" and ?b = "node_after l ys"
  obtain us vs where n: "\<And>zs. nodes l (xs @ zs @ ys) = us @ ?a # map Node zs @ ?b # vs"
    using nodes_split [of l xs ys] by blast
  have "chain s (us @ ?a # ?b # vs)" "distinct (us @ ?a # ?b # vs)" "Node t \<notin> set (us @ ?a # ?b # vs)"
    using assms n [of "[]"] distinct_nodes [of l "xs @ ys"] nodes_mem [of l "xs @ ys"]
    by (auto simp: list_ok_def)
  then have "chain (link ?a (Node t) ?b s) (us @ ?a # Node t # ?b # vs)" by (rule chain_link)
  then have "chain (link ?a (Node t) ?b s) (nodes l (xs @ t # ys))" using n [of "[t]"] by simp
  moreover have "?b \<noteq> Head l" "?a \<noteq> Tail l" by (simp_all add: node_before_def node_after_def)
  ultimately show ?thesis using assms by (auto simp: list_ok_def)
qed

lemma list_ok_unlink:
  assumes "list_ok s T l (xs @ t # ys)"
  shows "list_ok (set_count l (tl_count s l - 1) (unlink (node_before l xs) (Node t) (node_after l ys) s)) T l (xs @ ys)"
proof -
  let ?a = "node_before l xs" and ?b = "node_after l ys"
  obtain us vs where n: "\<And>zs. nodes l (xs @ zs @ ys) = us @ ?a # map Node zs @ ?b # vs"
    using nodes_split [of l xs ys] by blast
  have "chain s (us @ ?a # Node t # ?b # vs)" "distinct (us @ ?a # Node t # ?b # vs)"
    using assms n [of "[t]"] distinct_nodes [of l "xs @ t # ys"] by (auto simp: list_ok_def)
  then have "chain (unlink ?a (Node t) ?b s) (us @ ?a # ?b # vs)" by (rule chain_unlink)
  then have "chain (unlink ?a (Node t) ?b s) (nodes l (xs @ ys))" using n [of "[]"] by simp
  moreover have "?b \<noteq> Head l" "?a \<noteq> Tail l" by (simp_all add: node_before_def node_after_def)
  ultimately show ?thesis using assms by (auto simp: list_ok_def)
qed

lemma list_ok_other:
  assumes "list_ok s T l' ts'" "l' \<noteq> l" "set ts' \<inter> insert t (set xs \<union> set ys) = {}"
  shows "list_ok (set_count l c (link (node_before l xs) (Node t) (node_after l ys) s)) T l' ts'"
    and "list_ok (set_count l c (unlink (node_before l xs) (Node t) (node_after l ys) s)) T l' ts'"
proof -
  let ?a = "node_before l xs" and ?b = "node_after l ys"
  have out: "Node t \<notin> set (nodes l' ts')" "?a \<notin> set (nodes l' ts')" "?b \<notin> set (nodes l' ts')"
    using assms(2,3) node_before_mem [of l xs] node_after_mem [of l ys] by (auto simp: nodes_mem)
  have ab: "?a \<notin> set (butlast (nodes l' ts'))" "?b \<notin> set (tl (nodes l' ts'))"
    using out in_set_butlastD list.set_sel(2) [of "nodes l' ts'" ?b] by (auto simp: nodes_def)
  note ch = chain_link_other [OF out(1) ab] chain_unlink_other [OF out(1) ab]
  have ne: "?a \<noteq> Head l'" "?a \<noteq> Tail l'" "?b \<noteq> Head l'" "?b \<noteq> Tail l'" using out by (auto simp: nodes_mem)
  show "list_ok (set_count l c (link ?a (Node t) ?b s)) T l' ts'"
    "list_ok (set_count l c (unlink ?a (Node t) ?b s)) T l' ts'"
    using assms ch ne by (auto simp: list_ok_def)
qed

lemma tl_repD:
  assumes "tl_rep T s L"
  shows "L l = Some ts \<Longrightarrow> list_ok s T l ts"
    "L l = Some ts \<Longrightarrow> L l' = Some ts' \<Longrightarrow> l \<noteq> l' \<Longrightarrow> set ts \<inter> set ts' = {}"
    "t \<in> T \<Longrightarrow> tln_self s (Node t) = Some t"
    "L l = Some ts \<Longrightarrow> length ts < 4294967296"
proof -
  show ok: "L l = Some ts \<Longrightarrow> list_ok s T l ts" for l ts using assms by (simp add: tl_rep_def)
  show "L l = Some ts \<Longrightarrow> L l' = Some ts' \<Longrightarrow> l \<noteq> l' \<Longrightarrow> set ts \<inter> set ts' = {}"
    using assms unfolding tl_rep_def by blast
  show "t \<in> T \<Longrightarrow> tln_self s (Node t) = Some t" using assms by (simp add: tl_rep_def)
  assume "L l = Some ts"
  then have "distinct ts" "set ts \<subseteq> T" using ok by (auto simp: list_ok_def)
  moreover have "finite T" "card T < 4294967296" using assms by (simp_all add: tl_rep_def)
  ultimately show "length ts < 4294967296" using card_mono [of T "set ts"] by (simp add: distinct_card)
qed

lemma off_lists_split:
  "L l = Some ts \<Longrightarrow>
     off_lists L t \<longleftrightarrow> t \<notin> set ts \<and> (\<forall>l' ts'. l' \<noteq> l \<longrightarrow> L l' = Some ts' \<longrightarrow> t \<notin> set ts')"
  "off_lists (L(l \<mapsto> ts)) t \<longleftrightarrow> t \<notin> set ts \<and> (\<forall>l' ts'. l' \<noteq> l \<longrightarrow> L l' = Some ts' \<longrightarrow> t \<notin> set ts')"
  unfolding off_lists_def by (metis option.inject, metis fun_upd_apply option.inject)

lemma off_lists_empty: "off_lists Map.empty t"
  by (simp add: off_lists_def)

lemma off_lists_updI: "t \<notin> set ts \<Longrightarrow> off_lists L t \<Longrightarrow> off_lists (L(l \<mapsto> ts)) t"
  by (simp add: off_lists_def)

lemma rep_disjoint_upd:
  assumes "tl_rep T s L" "\<And>l' ts'. l' \<noteq> l \<Longrightarrow> L l' = Some ts' \<Longrightarrow> set ts' \<inter> set new = {}"
    and "(L(l \<mapsto> new)) l1 = Some ts1" "(L(l \<mapsto> new)) l2 = Some ts2" "l1 \<noteq> l2"
  shows "set ts1 \<inter> set ts2 = {}"
proof -
  consider "l1 = l" "l2 \<noteq> l" | "l1 \<noteq> l" "l2 = l" | "l1 \<noteq> l" "l2 \<noteq> l" using assms(5) by blast
  then show ?thesis
  proof cases
    case 1
    then show ?thesis using assms(2) [of l2 ts2] assms(3,4) by (simp add: Int_commute)
  next
    case 2
    then show ?thesis using assms(2) [of l1 ts1] assms(3,4) by simp
  next
    case 3
    then show ?thesis using tl_repD(2) [OF assms(1) _ _ assms(5)] assms(3,4) by simp
  qed
qed

lemma rep_insert:
  assumes rep: "tl_rep T s L" and l: "L l = Some (xs @ ys)" and t: "t \<in> T" "off_lists L t"
  shows "tl_rep T (set_count l (tl_count s l + 1) (link (node_before l xs) (Node t) (node_after l ys) s))
    (L(l \<mapsto> xs @ t # ys))"
proof -
  let ?s = "set_count l (tl_count s l + 1) (link (node_before l xs) (Node t) (node_after l ys) s)"
  let ?L = "L(l \<mapsto> xs @ t # ys)"
  have tn: "t \<notin> set (xs @ ys)" "\<And>l' ts'. L l' = Some ts' \<Longrightarrow> t \<notin> set ts'" using t(2) l by (simp_all add: off_lists_def) (metis Un_iff set_append)+
  have "list_ok ?s T l' ts'" if "?L l' = Some ts'" for l' ts'
  proof (cases "l' = l")
    case True
    then show ?thesis using that list_ok_link [OF tl_repD(1) [OF rep l] t(1) tn(1)] by simp
  next
    case False
    then have "L l' = Some ts'" using that by simp
    moreover have "set ts' \<inter> insert t (set xs \<union> set ys) = {}"
      using tl_repD(2) [OF rep calculation l False] tn(2) [OF calculation] by auto
    ultimately show ?thesis using list_ok_other(1) [OF tl_repD(1) [OF rep] False] by blast
  qed
  moreover have "set ts1 \<inter> set ts2 = {}" if "?L l1 = Some ts1" "?L l2 = Some ts2" "l1 \<noteq> l2" for l1 l2 ts1 ts2
    using rep_disjoint_upd [OF rep _ that] tl_repD(2) [OF rep _ l] tn(2) by fastforce
  moreover have "tln_prev ?s (Node u) = None \<and> tln_next ?s (Node u) = None" if "u \<in> T" "off_lists ?L u" for u
  proof -
    have "u \<noteq> t" "u \<notin> set xs" "u \<notin> set ys" "off_lists L u"
      using that(2) by (simp_all add: off_lists_split(2) off_lists_split(1) [of L l, OF l])
    moreover have "tln_prev s (Node u) = None \<and> tln_next s (Node u) = None"
      using rep that(1) calculation(4) by (simp add: tl_rep_def)
    ultimately show ?thesis using node_before_mem [of l xs] node_after_mem [of l ys] by auto
  qed
  ultimately show ?thesis using rep unfolding tl_rep_def by auto
qed

lemma rep_remove:
  assumes rep: "tl_rep T s L" and l: "L l = Some (xs @ t # ys)"
  shows "tl_rep T (set_count l (tl_count s l - 1) (unlink (node_before l xs) (Node t) (node_after l ys) s))
    (L(l \<mapsto> xs @ ys))"
proof -
  let ?s = "set_count l (tl_count s l - 1) (unlink (node_before l xs) (Node t) (node_after l ys) s)"
  let ?L = "L(l \<mapsto> xs @ ys)"
  have "list_ok ?s T l' ts'" if "?L l' = Some ts'" for l' ts'
  proof (cases "l' = l")
    case True
    then show ?thesis using that list_ok_unlink [OF tl_repD(1) [OF rep l]] by simp
  next
    case False
    then have "L l' = Some ts'" using that by simp
    moreover have "set ts' \<inter> insert t (set xs \<union> set ys) = {}"
      using tl_repD(2) [OF rep calculation l False] by auto
    ultimately show ?thesis using list_ok_other(2) [OF tl_repD(1) [OF rep] False] by blast
  qed
  moreover have "set ts1 \<inter> set ts2 = {}" if "?L l1 = Some ts1" "?L l2 = Some ts2" "l1 \<noteq> l2" for l1 l2 ts1 ts2
    using rep_disjoint_upd [OF rep _ that] tl_repD(2) [OF rep _ l] by fastforce
  moreover have "tln_prev ?s (Node u) = None \<and> tln_next ?s (Node u) = None" if "u \<in> T" "off_lists ?L u" for u
  proof (cases "u = t")
    case True
    have "distinct (xs @ t # ys)" using tl_repD(1) [OF rep l] by (simp add: list_ok_def)
    then show ?thesis using True node_before_mem [of l xs] node_after_mem [of l ys] by auto
  next
    case False
    then have "u \<notin> set xs" "u \<notin> set ys" "off_lists L u"
      using that(2) by (simp_all add: off_lists_split(2) off_lists_split(1) [of L l, OF l])
    moreover have "tln_prev s (Node u) = None \<and> tln_next s (Node u) = None"
      using rep that(1) calculation(3) by (simp add: tl_rep_def)
    ultimately show ?thesis using False node_before_mem [of l xs] node_after_mem [of l ys] by auto
  qed
  ultimately show ?thesis using rep unfolding tl_rep_def by auto
qed

section \<open>The operations\<close>

lemma threadlist_isempty_rep: "tl_rep T s L \<Longrightarrow> L l = Some ts \<Longrightarrow> threadlist_isempty l s \<longleftrightarrow> ts = []"
proof -
  assume "tl_rep T s L" "L l = Some ts"
  then have "tl_count s l = of_nat (length ts)" "length ts < 4294967296"
    using tl_repD(1,4) by (auto simp: list_ok_def)
  then have "tl_count s l = 0 \<longleftrightarrow> length ts = 0"
    using unat_of_nat_u32 [of "length ts"] by (simp add: word_unat_eq_iff)
  then show ?thesis by (simp add: threadlist_isempty_def)
qed

lemma threadlist_addtail_rep:
  assumes "tl_rep T s L" "L l = Some ts" "t \<in> T" "off_lists L t"
  shows "\<exists>s'. threadlist_addtail l t s = Some s' \<and> tl_rep T s' (L(l \<mapsto> ts @ [t]))"
proof -
  have "tln_prev s (Tail l) = Some (node_before l ts)"
    using list_links(2) [of s T l ts "[]"] tl_repD(1) [OF assms(1,2)] by (simp add: node_after_def)
  moreover have "node_before l ts \<noteq> Node t"
    using node_before_mem [of l ts] assms(2,4) by (auto simp: off_lists_split(1) [of L l, OF assms(2)])
  ultimately show ?thesis using rep_insert [OF assms(1) _ assms(3,4), of l ts "[]"] assms(2)
    by (simp add: threadlist_addtail_def insertbeforenode_link node_after_def)
qed

lemma threadlist_addhead_rep:
  assumes "tl_rep T s L" "L l = Some ts" "t \<in> T" "off_lists L t"
  shows "\<exists>s'. threadlist_addhead l t s = Some s' \<and> tl_rep T s' (L(l \<mapsto> t # ts))"
proof -
  have "tln_next s (Head l) = Some (node_after l ts)"
    using list_links(1) [of s T l "[]" ts] tl_repD(1) [OF assms(1,2)] by (simp add: node_before_def)
  then show ?thesis using rep_insert [OF assms(1) _ assms(3,4), of l "[]" ts] assms(2)
    by (simp add: threadlist_addhead_def insertafternode_link node_before_def)
qed

lemma threadlist_insert_rep:
  assumes "tl_rep T s L" "L l = Some (xs @ u # ys)" "t \<in> T" "off_lists L t"
  shows "\<exists>s'. threadlist_insertafter l u t s = Some s' \<and> tl_rep T s' (L(l \<mapsto> xs @ u # t # ys))"
    and "\<exists>s'. threadlist_insertbefore l t u s = Some s' \<and> tl_rep T s' (L(l \<mapsto> xs @ t # u # ys))"
proof -
  note ln = list_node_links [OF tl_repD(1) [OF assms(1,2)]]
  have tn: "t \<notin> set xs" "u \<noteq> t" using assms(4) by (auto simp: off_lists_split(1) [of L l, OF assms(2)])
  show "\<exists>s'. threadlist_insertafter l u t s = Some s' \<and> tl_rep T s' (L(l \<mapsto> xs @ u # t # ys))"
    using rep_insert [OF assms(1) _ assms(3,4), of l "xs @ [u]" ys] assms(2) ln(2) tn(2)
    by (simp add: threadlist_insertafter_def insertafternode_link node_before_def)
  have "node_before l xs \<noteq> Node t" using node_before_mem [of l xs] tn(1) by auto
  then show "\<exists>s'. threadlist_insertbefore l t u s = Some s' \<and> tl_rep T s' (L(l \<mapsto> xs @ t # u # ys))"
    using rep_insert [OF assms(1) _ assms(3,4), of l xs "u # ys"] assms(2) ln(1)
    by (simp add: threadlist_insertbefore_def insertbeforenode_link node_after_def)
qed

lemma removenode_rep:
  assumes "tl_rep T s L" "L l = Some (xs @ t # ys)"
  shows "\<exists>s'. threadlist_removenode (Node t) s = Some s' \<and> tl_count s' = tl_count s \<and> tln_self s' = tln_self s \<and>
    tl_rep T (set_count l (tl_count s l - 1) s') (L(l \<mapsto> xs @ ys))"
proof -
  have ok: "list_ok s T l (xs @ t # ys)" using tl_repD(1) [OF assms] .
  then have "t \<notin> set xs" by (simp add: list_ok_def)
  then have "node_before l xs \<noteq> Node t" using node_before_mem [of l xs] by auto
  then show ?thesis using removenode_unlink [OF list_node_links [OF ok]] rep_remove [OF assms]
    by (intro exI [of _ "unlink (node_before l xs) (Node t) (node_after l ys) s"]) simp
qed

lemma threadlist_remove_rep:
  assumes "tl_rep T s L" "L l = Some (xs @ t # ys)"
  shows "\<exists>s'. threadlist_remove l t s = Some s' \<and> tl_rep T s' (L(l \<mapsto> xs @ ys))"
  using removenode_rep [OF assms] by (auto simp: threadlist_remove_def)

lemma threadlist_rem_empty:
  assumes "tl_rep T s L" "L l = Some []"
  shows "threadlist_remhead l s = Some (None, s)" "threadlist_remtail l s = Some (None, s)"
proof -
  have ok: "list_ok s T l ([] @ [])" using tl_repD(1) [OF assms] by simp
  show "threadlist_remhead l s = Some (None, s)" "threadlist_remtail l s = Some (None, s)"
    using list_links [OF ok] ok
    by (simp_all add: threadlist_remhead_def threadlist_remtail_def node_before_def node_after_def list_ok_def)
qed

lemma threadlist_remhead_rep:
  assumes "tl_rep T s L" "L l = Some (t # ts)"
  shows "\<exists>s'. threadlist_remhead l s = Some (Some t, s') \<and> tl_rep T s' (L(l \<mapsto> ts))"
proof -
  have ok: "list_ok s T l ([] @ t # ts)" using tl_repD(1) [OF assms] by simp
  have "t \<in> T" using ok by (simp add: list_ok_def)
  then have self: "tln_self s (Node t) = Some t" by (rule tl_repD(3) [OF assms(1)])
  obtain s' where "threadlist_removenode (Node t) s = Some s'" "tl_count s' = tl_count s" "tln_self s' = tln_self s"
    "tl_rep T (set_count l (tl_count s l - 1) s') (L(l \<mapsto> ts))"
    using removenode_rep [of T s L l "[]" t ts] assms by auto
  then show ?thesis using list_links(1) [OF ok] list_node_links(2) [OF ok] self
    by (simp add: threadlist_remhead_def node_before_def node_after_def)
qed

lemma threadlist_remtail_rep:
  assumes "tl_rep T s L" "L l = Some (ts @ [t])"
  shows "\<exists>s'. threadlist_remtail l s = Some (Some t, s') \<and> tl_rep T s' (L(l \<mapsto> ts))"
proof -
  have ok: "list_ok s T l (ts @ [t])" using tl_repD(1) [OF assms] by simp
  then have ok': "list_ok s T l ((ts @ [t]) @ [])" by simp
  have "t \<in> T" using ok by (simp add: list_ok_def)
  then have self: "tln_self s (Node t) = Some t" by (rule tl_repD(3) [OF assms(1)])
  obtain s' where "threadlist_removenode (Node t) s = Some s'" "tl_count s' = tl_count s" "tln_self s' = tln_self s"
    "tl_rep T (set_count l (tl_count s l - 1) s') (L(l \<mapsto> ts))"
    using removenode_rep [of T s L l ts t "[]"] assms by auto
  then show ?thesis using list_links(2) [OF ok'] list_node_links(1) [OF ok] self
    by (simp add: threadlist_remtail_def node_before_def node_after_def)
qed

lemma threadlist_init_rep:
  assumes "tl_rep T s L" "L l = None \<or> L l = Some []"
  shows "\<exists>s'. threadlist_init l s = Some s' \<and> tl_rep T s' (L(l \<mapsto> []))"
proof -
  define s' where "s' = the (threadlist_init l s)"
  have s': "threadlist_init l s = Some s'"
    and f: "tln_next s' = (tln_next s)(Head l := Some (Tail l), Tail l := None)"
      "tln_prev s' = (tln_prev s)(Head l := None, Tail l := Some (Head l))"
      "tln_self s' = (tln_self s)(Head l := None, Tail l := None)" "tl_count s' = (tl_count s)(l := 0)"
    by (simp_all add: s'_def threadlist_init_def set_next_def set_prev_def set_self_def set_count_def)
  have "list_ok s' T l' ts'" if "L l' = Some ts'" "l' \<noteq> l" for l' ts'
  proof -
    have "chain s' (nodes l' ts') \<longleftrightarrow> chain s (nodes l' ts')"
      using that(2) by (intro chain_cong) (auto simp: f nodes_def dest!: in_set_butlastD)
    then show ?thesis using tl_repD(1) [OF assms(1) that(1)] that(2) by (simp add: list_ok_def f)
  qed
  moreover have "list_ok s' T l []" by (simp add: list_ok_def nodes_def f)
  moreover have "off_lists (L(l \<mapsto> [])) t \<longleftrightarrow> off_lists L t" for t
  proof -
    have "t \<notin> set ts" if "L l = Some ts" for ts using assms(2) that by auto
    then show ?thesis unfolding off_lists_split(2) off_lists_def [of L] by (metis empty_iff empty_set)
  qed
  moreover have "set ts1 \<inter> set ts2 = {}"
    if "(L(l \<mapsto> [])) l1 = Some ts1" "(L(l \<mapsto> [])) l2 = Some ts2" "l1 \<noteq> l2" for l1 l2 ts1 ts2
    using rep_disjoint_upd [OF assms(1) _ that] by simp
  ultimately show ?thesis using s' assms(1) unfolding tl_rep_def
    by (intro exI [of _ s']) (auto simp: f split: if_splits)
qed

section \<open>First-in first-out queues of threads\<close>

text \<open>What the wake-ups rely on: queues of threads, each thread on at most one of them, with
  insertion at the tail and removal at the head.\<close>

locale thread_fifo =
  fixes rep :: "'s \<Rightarrow> (nat \<rightharpoonup> nat list) \<Rightarrow> bool"
    and known :: "nat \<Rightarrow> bool"
    and addtail :: "nat \<Rightarrow> nat \<Rightarrow> 's \<Rightarrow> 's option"
    and remhead :: "nat \<Rightarrow> 's \<Rightarrow> (nat option \<times> 's) option"
  assumes addtail: "rep s L \<Longrightarrow> L l = Some ts \<Longrightarrow> known t \<Longrightarrow> off_lists L t \<Longrightarrow>
      \<exists>s'. addtail l t s = Some s' \<and> rep s' (L(l \<mapsto> ts @ [t]))"
    and remhead_empty: "rep s L \<Longrightarrow> L l = Some [] \<Longrightarrow> remhead l s = Some (None, s)"
    and remhead: "rep s L \<Longrightarrow> L l = Some (t # ts) \<Longrightarrow>
      \<exists>s'. remhead l s = Some (Some t, s') \<and> rep s' (L(l \<mapsto> ts))"
    and member_known: "rep s L \<Longrightarrow> L l = Some ts \<Longrightarrow> t \<in> set ts \<Longrightarrow> known t"
    and member_once: "rep s L \<Longrightarrow> L l = Some (t # ts) \<Longrightarrow> off_lists (L(l \<mapsto> ts)) t"
begin

lemma drain_to:
  assumes "rep s L" "L l = Some ts" "\<forall>t\<in>set ts. q t \<noteq> l \<and> L (q t) \<noteq> None"
  shows "\<exists>s'. drain (remhead l) (\<lambda>t. addtail (q t) t) s = Some s' \<and>
    rep s' (\<lambda>k. if k = l then Some [] else map_option (\<lambda>us. us @ filter (\<lambda>t. q t = k) ts) (L k))"
  using assms
proof (induct ts arbitrary: s L)
  case Nil
  have "(\<lambda>k. if k = l then Some [] else map_option (\<lambda>us. us @ filter (\<lambda>t. q t = k) []) (L k)) = L"
    using Nil(2) by (auto simp: fun_eq_iff map_option.identity)
  then show ?case using Nil remhead_empty [OF Nil(1,2)] by (subst drain.simps) simp
next
  case (Cons t ts)
  obtain s1 where s1: "remhead l s = Some (Some t, s1)" "rep s1 (L(l \<mapsto> ts))"
    using remhead [OF Cons(2,3)] by blast
  obtain us where us: "L (q t) = Some us" "q t \<noteq> l" using Cons(4) by auto
  have "known t" using member_known [OF Cons(2,3)] by simp
  then obtain s2 where s2: "addtail (q t) t s1 = Some s2" "rep s2 (L(l \<mapsto> ts, q t \<mapsto> us @ [t]))"
    using addtail [OF s1(2), of "q t" us t] us member_once [OF Cons(2,3)] by auto
  let ?L = "L(l \<mapsto> ts, q t \<mapsto> us @ [t])"
  have "\<forall>u\<in>set ts. q u \<noteq> l \<and> ?L (q u) \<noteq> None" using Cons(4) by auto
  then obtain s3 where s3: "drain (remhead l) (\<lambda>t. addtail (q t) t) s2 = Some s3"
    "rep s3 (\<lambda>k. if k = l then Some [] else map_option (\<lambda>vs. vs @ filter (\<lambda>u. q u = k) ts) (?L k))"
    using Cons(1) [OF s2(2)] us(2) by auto
  have eq: "(\<lambda>k. if k = l then Some [] else map_option (\<lambda>vs. vs @ filter (\<lambda>u. q u = k) ts) (?L k)) =
      (\<lambda>k. if k = l then Some [] else map_option (\<lambda>us. us @ filter (\<lambda>u. q u = k) (t # ts)) (L k))"
    using us by (auto simp: fun_eq_iff)
  have "drain (remhead l) (\<lambda>t. addtail (q t) t) s = Some s3"
    using s1(1) s2(1) s3(1) by (subst drain.simps) simp
  then show ?case using s3(2) unfolding eq by blast
qed

end

interpretation tlq: thread_fifo "tl_rep T" "\<lambda>t. t \<in> T" threadlist_addtail threadlist_remhead for T
proof
  fix s L l ts t
  show "tl_rep T s L \<Longrightarrow> L l = Some ts \<Longrightarrow> t \<in> T \<Longrightarrow> off_lists L t \<Longrightarrow>
      \<exists>s'. threadlist_addtail l t s = Some s' \<and> tl_rep T s' (L(l \<mapsto> ts @ [t]))"
    by (rule threadlist_addtail_rep)
  show "tl_rep T s L \<Longrightarrow> L l = Some [] \<Longrightarrow> threadlist_remhead l s = Some (None, s)"
    by (rule threadlist_rem_empty)
  show "tl_rep T s L \<Longrightarrow> L l = Some (t # ts) \<Longrightarrow>
      \<exists>s'. threadlist_remhead l s = Some (Some t, s') \<and> tl_rep T s' (L(l \<mapsto> ts))"
    by (rule threadlist_remhead_rep)
  show "tl_rep T s L \<Longrightarrow> L l = Some ts \<Longrightarrow> t \<in> set ts \<Longrightarrow> t \<in> T"
    using tl_repD(1) [of T s L l ts] by (auto simp: list_ok_def)
  show "off_lists (L(l \<mapsto> ts)) t" if "tl_rep T s L" "L l = Some (t # ts)"
  proof -
    have "t \<notin> set ts" using tl_repD(1) [OF that] by (simp add: list_ok_def)
    moreover have "t \<notin> set ts'" if "l' \<noteq> l" "L l' = Some ts'" for l' ts'
      using tl_repD(2) [OF \<open>tl_rep T s L\<close> \<open>L l = Some (t # ts)\<close> that(2)] that(1) by auto
    ultimately show ?thesis by (simp add: off_lists_split(2))
  qed
qed

section \<open>Properties\<close>

text \<open>A heap of three threads on no list, for the examples.\<close>

definition demo_threads :: "nat set" where
  "demo_threads = {7, 8, 9}"

definition demo_heap :: tlheap where
  "demo_heap = \<lparr>tln_prev = \<lambda>_. None, tln_next = \<lambda>_. None,
     tln_self = \<lambda>n. case n of Node t \<Rightarrow> Some t | _ \<Rightarrow> None, tl_count = \<lambda>_. 0\<rparr>"

lemma demo_heap_rep: "tl_rep demo_threads demo_heap Map.empty"
  by (simp add: tl_rep_def demo_heap_def demo_threads_def)


lemma demo_list:
  "\<exists>s. tl_rep demo_threads s (Map.empty(0 \<mapsto> [7, 8], 1 \<mapsto> [], 2 \<mapsto> []))"
proof -
  let ?T = demo_threads
  obtain s0 where s0: "tl_rep ?T s0 (Map.empty(0 \<mapsto> []))"
    using threadlist_init_rep [OF demo_heap_rep, of 0] by auto
  obtain s1 where s1: "tl_rep ?T s1 (Map.empty(0 \<mapsto> [7]))"
    using threadlist_addtail_rep [OF s0, of 0 "[]" 7] by (auto simp: demo_threads_def off_lists_updI off_lists_empty)
  obtain s2 where s2: "tl_rep ?T s2 (Map.empty(0 \<mapsto> [7, 8]))"
    using threadlist_addtail_rep [OF s1, of 0 "[7]" 8] by (auto simp: demo_threads_def off_lists_updI off_lists_empty)
  obtain s3 where s3: "tl_rep ?T s3 (Map.empty(0 \<mapsto> [7, 8], 1 \<mapsto> []))"
    using threadlist_init_rep [OF s2, of 1] by auto
  show ?thesis using threadlist_init_rep [OF s3, of 2] by auto
qed


text \<open>C37. \<^verbatim>\<open>wchan_wakeall\<close> on a channel whose sleepers are \<open>ts\<close>: it returns, the assertions of the
  final \<^verbatim>\<open>threadlist_cleanup\<close> hold, nobody sleeps on the channel any more, and every run queue
  has received, behind what it held, exactly the sleepers of its cpu in the order in which they
  went to sleep; lists that are not run queues of sleepers are unchanged.\<close>

theorem wchan_wakeall_fifo:
  assumes "tl_rep T s L" "L wc = Some ts" "priv \<noteq> wc" "L priv = None"
    and "\<forall>t\<in>set ts. rq t \<noteq> wc \<and> rq t \<noteq> priv \<and> L (rq t) \<noteq> None"
  shows "\<exists>s'. wchan_wakeall_list wc priv rq s = Some s' \<and>
    tl_rep T s' (\<lambda>k. if k = wc \<or> k = priv then Some []
                     else map_option (\<lambda>us. us @ filter (\<lambda>t. rq t = k) ts) (L k))"
proof -
  obtain s0 where s0: "threadlist_init priv s = Some s0" "tl_rep T s0 (L(priv \<mapsto> []))"
    using threadlist_init_rep [OF assms(1), of priv] assms(4) by blast
  let ?L1 = "\<lambda>k. if k = wc then Some [] else map_option (\<lambda>us. us @ filter (\<lambda>t. priv = k) ts) ((L(priv \<mapsto> [])) k)"
  obtain s1 where s1: "drain (threadlist_remhead wc) (\<lambda>t. threadlist_addtail priv t) s0 = Some s1" "tl_rep T s1 ?L1"
    using tlq.drain_to [OF s0(2), of wc ts "\<lambda>_. priv"] assms(2,3) by auto
  have L1: "?L1 priv = Some ts" "\<forall>t\<in>set ts. rq t \<noteq> priv \<and> ?L1 (rq t) \<noteq> None"
    using assms(3,5) by auto
  let ?L2 = "\<lambda>k. if k = priv then Some [] else map_option (\<lambda>us. us @ filter (\<lambda>t. rq t = k) ts) (?L1 k)"
  obtain s2 where s2: "drain (threadlist_remhead priv) (\<lambda>t. threadlist_addtail (rq t) t) s1 = Some s2" "tl_rep T s2 ?L2"
    using tlq.drain_to [OF s1(2) L1] by blast
  have "threadlist_isempty priv s2" using threadlist_isempty_rep [OF s2(2), of priv] by simp
  then have "threadlist_cleanup priv s2 = Some ()"
    by (simp add: threadlist_cleanup_def threadlist_isempty_def)
  moreover have "drain (threadlist_remhead wc) (threadlist_addtail priv) s0 = Some s1" using s1(1) by simp
  moreover have "drain (threadlist_remhead priv) (thread_make_runnable rq) s1 = Some s2"
    using s2(1) by (simp add: thread_make_runnable_def [abs_def])
  ultimately have run: "wchan_wakeall_list wc priv rq s = Some s2" using s0(1) by (simp add: wchan_wakeall_list_def)
  have "?L2 = (\<lambda>k. if k = wc \<or> k = priv then Some []
      else map_option (\<lambda>us. us @ filter (\<lambda>t. rq t = k) ts) (L k))"
    using assms(5) by (auto simp: fun_eq_iff filter_empty_conv option.map_ident_strong)
  then show ?thesis using run s2(2) by (intro exI [of _ s2]) simp
qed

theorem wchan_wakeall_fifo_witness:
  "\<exists>s s'. wchan_wakeall_list 0 3 (\<lambda>t. if t = 8 then 2 else 1) s = Some s' \<and>
     tl_rep demo_threads s' (Map.empty(0 \<mapsto> [], 1 \<mapsto> [7], 2 \<mapsto> [8], 3 \<mapsto> []))"
proof -
  obtain s where s: "tl_rep demo_threads s (Map.empty(0 \<mapsto> [7, 8], 1 \<mapsto> [], 2 \<mapsto> []))" using demo_list by blast
  let ?rq = "\<lambda>t. if t = 8 then 2 else 1 :: nat"
  let ?L = "Map.empty(0 \<mapsto> [7, 8], 1 \<mapsto> [], 2 \<mapsto> []) :: nat \<rightharpoonup> nat list"
  obtain s' where s': "wchan_wakeall_list 0 3 ?rq s = Some s'"
    "tl_rep demo_threads s' (\<lambda>k. if k = 0 \<or> k = 3 then Some []
       else map_option (\<lambda>us. us @ filter (\<lambda>t. ?rq t = k) [7, 8]) (?L k))"
    using wchan_wakeall_fifo [OF s, of 0 "[7, 8]" 3 ?rq] by auto
  have "(\<lambda>k. if k = 0 \<or> k = 3 then Some []
      else map_option (\<lambda>us. us @ filter (\<lambda>t. ?rq t = k) [7, 8]) (?L k)) =
      Map.empty(0 \<mapsto> [], 1 \<mapsto> [7], 2 \<mapsto> [8], 3 \<mapsto> [])" by (auto simp: fun_eq_iff)
  with s' show ?thesis by (intro exI [of _ s] exI [of _ s']) simp
qed

end
