(* ===== verification/Synch.thy ===== *)
theory Synch
  imports Prelude
begin

text \<open>
  Semaphores, locks and condition variables of \<^verbatim>\<open>kern/thread/synch.c\<close> on the spinlocks of
  \<^verbatim>\<open>kern/thread/spinlock.c\<close> and the wait channels of \<^verbatim>\<open>kern/thread/thread.c\<close>, run by any number
  of threads. Each thread has a program point inside the primitive it is executing; one step of
  a thread is what it does from one spinlock operation to the next, and any thread that is
  neither asleep nor spinning in vain may take the next step, so every schedule is a sequence of
  steps. \<open>None\<close> is a failed \<^verbatim>\<open>KASSERT\<close> or the deadlock panic of \<^verbatim>\<open>spinlock_acquire\<close>.

  A cpu holds a spinlock with interrupts off, so the thread on it stays on it; the holder of a
  spinlock is identified with that thread, and the lock word is 1 exactly while there is a
  holder. A wait channel is the sequence of threads its thread list holds. \<open>history\<close> is not a
  variable of the program: it records the returns from the primitives in their order.
\<close>

section \<open>Model\<close>

type_synonym tid = nat

datatype obj = Sem nat | Lock nat | Cv nat

datatype pc =
    Client
  | P_spin nat | P_loop nat | P_asleep nat
  | V_spin nat | V_body nat
  | Acquire_spin nat | Acquire_loop nat | Acquire_asleep nat
  | Release_spin nat | Release_body nat
  | Wait_check nat nat | Wait_spin nat nat | Wait_release nat nat | Wait_body nat nat
  | Wait_sleep nat nat | Wait_asleep nat nat | Wait_wake nat nat | Wait_awake nat nat
  | Signal_check bool nat nat | Signal_spin bool nat | Signal_body bool nat

datatype event = Passed tid nat | Posted tid nat | Acquired tid nat | Released tid nat

record synch =
  splk_holder :: "obj \<Rightarrow> tid option"
  c_spinlocks :: "tid \<Rightarrow> nat"
  t_in_interrupt :: "tid \<Rightarrow> bool"
  wchan :: "obj \<Rightarrow> tid list"
  sem_count :: "nat \<Rightarrow> u32"
  lk_lock :: "nat \<Rightarrow> int"
  lk_holder :: "nat \<Rightarrow> tid option"
  point :: "tid \<Rightarrow> pc"
  history :: "event list"

definition goto :: "tid \<Rightarrow> pc \<Rightarrow> synch \<Rightarrow> synch" where
  "goto t p s = s\<lparr>point := (point s)(t := p)\<rparr>"

definition note_event :: "event \<Rightarrow> synch \<Rightarrow> synch" where
  "note_event e s = s\<lparr>history := history s @ [e]\<rparr>"

definition spinlock_do_i_hold :: "obj \<Rightarrow> tid \<Rightarrow> synch \<Rightarrow> bool" where
  "spinlock_do_i_hold x t s = (splk_holder s x = Some t)"

text \<open>A thread that finds the lock word set stays where it is and tries again.\<close>

definition spinlock_acquire :: "obj \<Rightarrow> pc \<Rightarrow> tid \<Rightarrow> synch \<Rightarrow> synch option" where
  "spinlock_acquire x p t s =
     (if splk_holder s x = Some t then None
      else if splk_holder s x \<noteq> None then Some s
      else Some (goto t p (s\<lparr>splk_holder := (splk_holder s)(x := Some t),
                             c_spinlocks := (c_spinlocks s)(t := c_spinlocks s t + 1)\<rparr>)))"

definition spinlock_release :: "obj \<Rightarrow> tid \<Rightarrow> synch \<Rightarrow> synch option" where
  "spinlock_release x t s = do {
     _ \<leftarrow> kassert (splk_holder s x = Some t);
     _ \<leftarrow> kassert (c_spinlocks s t > 0);
     Some (s\<lparr>splk_holder := (splk_holder s)(x := None),
             c_spinlocks := (c_spinlocks s)(t := c_spinlocks s t - 1)\<rparr>) }"

text \<open>\<^verbatim>\<open>wchan_sleep\<close> up to the switch; \<^verbatim>\<open>thread_switch\<close> queues the thread and then unlocks. What is
  left of it, the \<^verbatim>\<open>spinlock_acquire\<close> after the wake-up, is the program point the thread is sent
  to when it is woken.\<close>

definition wchan_sleep :: "obj \<Rightarrow> pc \<Rightarrow> tid \<Rightarrow> synch \<Rightarrow> synch option" where
  "wchan_sleep x p t s = do {
     _ \<leftarrow> kassert (\<not> t_in_interrupt s t);
     _ \<leftarrow> kassert (spinlock_do_i_hold x t s);
     _ \<leftarrow> kassert (c_spinlocks s t = 1);
     s \<leftarrow> spinlock_release x t (s\<lparr>wchan := (wchan s)(x := wchan s x @ [t])\<rparr>);
     Some (goto t p s) }"

fun awakened :: "pc \<Rightarrow> pc" where
  "awakened (P_asleep i) = P_spin i"
| "awakened (Acquire_asleep l) = Acquire_spin l"
| "awakened (Wait_asleep c l) = Wait_wake c l"
| "awakened p = p"

definition wchan_wakeone :: "obj \<Rightarrow> tid \<Rightarrow> synch \<Rightarrow> synch option" where
  "wchan_wakeone x t s = do {
     _ \<leftarrow> kassert (spinlock_do_i_hold x t s);
     (case wchan s x of
        [] \<Rightarrow> Some s
      | target # rest \<Rightarrow> Some (goto target (awakened (point s target)) (s\<lparr>wchan := (wchan s)(x := rest)\<rparr>))) }"

definition wchan_wakeall :: "obj \<Rightarrow> tid \<Rightarrow> synch \<Rightarrow> synch option" where
  "wchan_wakeall x t s = do {
     _ \<leftarrow> kassert (spinlock_do_i_hold x t s);
     Some (s\<lparr>wchan := (wchan s)(x := []),
             point := (\<lambda>u. if u \<in> set (wchan s x) then awakened (point s u) else point s u)\<rparr>) }"

definition P_decrement :: "nat \<Rightarrow> tid \<Rightarrow> synch \<Rightarrow> synch option" where
  "P_decrement i t s =
     (if sem_count s i = 0 then wchan_sleep (Sem i) (P_asleep i) t s
      else do {
        _ \<leftarrow> kassert (sem_count s i > 0);
        s \<leftarrow> spinlock_release (Sem i) t (s\<lparr>sem_count := (sem_count s)(i := sem_count s i - 1)\<rparr>);
        Some (goto t Client (note_event (Passed t i) s)) })"

definition V_increment :: "nat \<Rightarrow> tid \<Rightarrow> synch \<Rightarrow> synch option" where
  "V_increment i t s = do {
     let s = s\<lparr>sem_count := (sem_count s)(i := sem_count s i + 1)\<rparr>;
     _ \<leftarrow> kassert (sem_count s i > 0);
     s \<leftarrow> wchan_wakeone (Sem i) t s;
     s \<leftarrow> spinlock_release (Sem i) t s;
     Some (goto t Client (note_event (Posted t i) s)) }"

definition lock_acquire_body :: "nat \<Rightarrow> tid \<Rightarrow> synch \<Rightarrow> synch option" where
  "lock_acquire_body l t s =
     (if lk_lock s l = 1 then wchan_sleep (Lock l) (Acquire_asleep l) t s
      else do {
        s \<leftarrow> spinlock_release (Lock l) t
               (s\<lparr>lk_lock := (lk_lock s)(l := 1), lk_holder := (lk_holder s)(l := Some t)\<rparr>);
        Some (goto t Client (note_event (Acquired t l) s)) })"

definition lock_release_check :: "nat \<Rightarrow> tid \<Rightarrow> synch \<Rightarrow> unit option" where
  "lock_release_check l t s = do {
     _ \<leftarrow> kassert (lk_lock s l = 1);
     kassert (lk_holder s l = Some t) }"

definition lock_release_body :: "nat \<Rightarrow> tid \<Rightarrow> synch \<Rightarrow> synch option" where
  "lock_release_body l t s = do {
     let s = s\<lparr>lk_lock := (lk_lock s)(l := 0), lk_holder := (lk_holder s)(l := None)\<rparr>;
     s \<leftarrow> wchan_wakeone (Lock l) t s;
     s \<leftarrow> spinlock_release (Lock l) t s;
     Some (note_event (Released t l) s) }"

text \<open>\<^verbatim>\<open>KASSERT(lock_do_i_hold(lock))\<close>: the two fields are read under the spinlock, which is
  released again before the next step of any thread.\<close>

definition lock_do_i_hold :: "nat \<Rightarrow> tid \<Rightarrow> synch \<Rightarrow> bool" where
  "lock_do_i_hold l t s = (lk_lock s l = 1 \<and> lk_holder s l = Some t)"

definition assert_i_hold :: "nat \<Rightarrow> pc \<Rightarrow> tid \<Rightarrow> synch \<Rightarrow> synch option" where
  "assert_i_hold l p t s =
     (if splk_holder s (Lock l) = Some t then None
      else if splk_holder s (Lock l) \<noteq> None then Some s
      else do { _ \<leftarrow> kassert (lock_do_i_hold l t s); Some (goto t p s) })"

definition cv_signal_body :: "nat \<Rightarrow> tid \<Rightarrow> synch \<Rightarrow> synch option" where
  "cv_signal_body c t s = do {
     s \<leftarrow> wchan_wakeone (Cv c) t s;
     s \<leftarrow> spinlock_release (Cv c) t s;
     Some (goto t Client s) }"

definition cv_broadcast_body :: "nat \<Rightarrow> tid \<Rightarrow> synch \<Rightarrow> synch option" where
  "cv_broadcast_body c t s = do {
     s \<leftarrow> wchan_wakeall (Cv c) t s;
     s \<leftarrow> spinlock_release (Cv c) t s;
     Some (goto t Client s) }"

text \<open>One step of thread \<open>t\<close>. A thread in client code and a sleeping one do nothing here.\<close>

fun thread_step :: "tid \<Rightarrow> pc \<Rightarrow> synch \<Rightarrow> synch option" where
  "thread_step t (P_spin i) s = spinlock_acquire (Sem i) (P_loop i) t s"
| "thread_step t (P_loop i) s = P_decrement i t s"
| "thread_step t (V_spin i) s = spinlock_acquire (Sem i) (V_body i) t s"
| "thread_step t (V_body i) s = V_increment i t s"
| "thread_step t (Acquire_spin l) s = spinlock_acquire (Lock l) (Acquire_loop l) t s"
| "thread_step t (Acquire_loop l) s = lock_acquire_body l t s"
| "thread_step t (Release_spin l) s = spinlock_acquire (Lock l) (Release_body l) t s"
| "thread_step t (Release_body l) s = do { s \<leftarrow> lock_release_body l t s; Some (goto t Client s) }"
| "thread_step t (Wait_check c l) s = assert_i_hold l (Wait_spin c l) t s"
| "thread_step t (Wait_spin c l) s = spinlock_acquire (Cv c) (Wait_release c l) t s"
| "thread_step t (Wait_release c l) s = do {
     _ \<leftarrow> lock_release_check l t s;
     spinlock_acquire (Lock l) (Wait_body c l) t s }"
| "thread_step t (Wait_body c l) s = do { s \<leftarrow> lock_release_body l t s; Some (goto t (Wait_sleep c l) s) }"
| "thread_step t (Wait_sleep c l) s = wchan_sleep (Cv c) (Wait_asleep c l) t s"
| "thread_step t (Wait_wake c l) s = spinlock_acquire (Cv c) (Wait_awake c l) t s"
| "thread_step t (Wait_awake c l) s = do { s \<leftarrow> spinlock_release (Cv c) t s; Some (goto t (Acquire_spin l) s) }"
| "thread_step t (Signal_check b c l) s = assert_i_hold l (Signal_spin b c) t s"
| "thread_step t (Signal_spin b c) s = spinlock_acquire (Cv c) (Signal_body b c) t s"
| "thread_step t (Signal_body b c) s = (if b then cv_broadcast_body c t s else cv_signal_body c t s)"
| "thread_step t p s = Some s"

text \<open>The calls a thread in client code may make, with what they check before the first spinlock
  operation.\<close>

datatype call =
    Call_P nat | Call_V nat | Call_lock_acquire nat | Call_lock_release nat
  | Call_cv_wait nat nat | Call_cv_signal nat nat | Call_cv_broadcast nat nat

fun enter :: "tid \<Rightarrow> call \<Rightarrow> synch \<Rightarrow> synch option" where
  "enter t (Call_P i) s = do { _ \<leftarrow> kassert (\<not> t_in_interrupt s t); Some (goto t (P_spin i) s) }"
| "enter t (Call_V i) s = Some (goto t (V_spin i) s)"
| "enter t (Call_lock_acquire l) s = Some (goto t (Acquire_spin l) s)"
| "enter t (Call_lock_release l) s = do { _ \<leftarrow> lock_release_check l t s; Some (goto t (Release_spin l) s) }"
| "enter t (Call_cv_wait c l) s = Some (goto t (Wait_check c l) s)"
| "enter t (Call_cv_signal c l) s = Some (goto t (Signal_check False c l) s)"
| "enter t (Call_cv_broadcast c l) s = Some (goto t (Signal_check True c l) s)"

inductive synch_step :: "synch \<Rightarrow> synch \<Rightarrow> bool" where
  run: "thread_step t (point s t) s = Some s' \<Longrightarrow> synch_step s s'"
| enter: "point s t = Client \<Longrightarrow> enter t c s = Some s' \<Longrightarrow> synch_step s s'"

text \<open>The objects as \<^verbatim>\<open>sem_create\<close>, \<^verbatim>\<open>lock_create\<close> and \<^verbatim>\<open>cv_create\<close> leave them: counts given, locks
  free, nobody waiting. \<^verbatim>\<open>lock_create\<close> leaves \<^verbatim>\<open>lk_holder\<close> unset; it is read only behind a
  test of \<^verbatim>\<open>lk_lock\<close>, so its initial value does not matter.\<close>

definition synch_init :: "(nat \<Rightarrow> u32) \<Rightarrow> synch" where
  "synch_init counts = \<lparr>splk_holder = \<lambda>_. None, c_spinlocks = \<lambda>_. 0, t_in_interrupt = \<lambda>_. False,
     wchan = \<lambda>_. [], sem_count = counts, lk_lock = \<lambda>_. 0, lk_holder = \<lambda>_. None,
     point = \<lambda>_. Client, history = []\<rparr>"

abbreviation synch_reachable :: "(nat \<Rightarrow> u32) \<Rightarrow> synch \<Rightarrow> bool" where
  "synch_reachable counts s \<equiv> synch_step\<^sup>*\<^sup>* (synch_init counts) s"

section \<open>What holds in every state\<close>

fun held :: "pc \<Rightarrow> obj set" where
  "held (P_loop i) = {Sem i}"
| "held (V_body i) = {Sem i}"
| "held (Acquire_loop l) = {Lock l}"
| "held (Release_body l) = {Lock l}"
| "held (Wait_release c l) = {Cv c}"
| "held (Wait_body c l) = {Cv c, Lock l}"
| "held (Wait_sleep c l) = {Cv c}"
| "held (Wait_awake c l) = {Cv c}"
| "held (Signal_body b c) = {Cv c}"
| "held _ = {}"

fun sleeping_on :: "pc \<Rightarrow> obj option" where
  "sleeping_on (P_asleep i) = Some (Sem i)"
| "sleeping_on (Acquire_asleep l) = Some (Lock l)"
| "sleeping_on (Wait_asleep c l) = Some (Cv c)"
| "sleeping_on _ = None"

fun releasing :: "pc \<Rightarrow> nat option" where
  "releasing (Release_spin l) = Some l"
| "releasing (Release_body l) = Some l"
| "releasing (Wait_spin c l) = Some l"
| "releasing (Wait_release c l) = Some l"
| "releasing (Wait_body c l) = Some l"
| "releasing _ = None"

text \<open>The history of one lock, replayed on a mutex: \<open>None\<close> if a thread acquires it while it is
  taken or releases it without having it.\<close>

fun lock_replay :: "nat \<Rightarrow> tid option \<Rightarrow> event list \<Rightarrow> tid option option" where
  "lock_replay l h [] = Some h"
| "lock_replay l h (Acquired t k # es) =
     (if k \<noteq> l then lock_replay l h es else if h = None then lock_replay l (Some t) es else None)"
| "lock_replay l h (Released t k # es) =
     (if k \<noteq> l then lock_replay l h es else if h = Some t then lock_replay l None es else None)"
| "lock_replay l h (e # es) = lock_replay l h es"

definition passes :: "nat \<Rightarrow> event list \<Rightarrow> nat" where
  "passes i es = length (filter (\<lambda>e. \<exists>t. e = Passed t i) es)"

definition posts :: "nat \<Rightarrow> event list \<Rightarrow> nat" where
  "posts i es = length (filter (\<lambda>e. \<exists>t. e = Posted t i) es)"

text \<open>The invariants speak about the program points as a function of its own, so that they can be
  stated for a thread that is on its way from one point to another.\<close>

definition spin_inv :: "(tid \<Rightarrow> pc) \<Rightarrow> (obj \<Rightarrow> tid option) \<Rightarrow> (tid \<Rightarrow> nat) \<Rightarrow> bool" where
  "spin_inv pts h c \<longleftrightarrow> (\<forall>x t. h x = Some t \<longleftrightarrow> x \<in> held (pts t)) \<and> (\<forall>t. c t = card (held (pts t)))"

definition sleep_inv :: "(tid \<Rightarrow> pc) \<Rightarrow> (obj \<Rightarrow> tid list) \<Rightarrow> bool" where
  "sleep_inv pts w \<longleftrightarrow> (\<forall>x. distinct (w x)) \<and> (\<forall>x t. t \<in> set (w x) \<longleftrightarrow> sleeping_on (pts t) = Some x)"

definition lock_inv :: "(tid \<Rightarrow> pc) \<Rightarrow> (nat \<Rightarrow> int) \<Rightarrow> (nat \<Rightarrow> tid option) \<Rightarrow> bool" where
  "lock_inv pts lk h \<longleftrightarrow> (\<forall>l. lk l = (if h l = None then 0 else 1)) \<and>
     (\<forall>t l. releasing (pts t) = Some l \<longrightarrow> h l = Some t)"

definition base_at :: "tid \<Rightarrow> pc \<Rightarrow> synch \<Rightarrow> bool" where
  "base_at t p s \<longleftrightarrow>
     spin_inv ((point s)(t := p)) (splk_holder s) (c_spinlocks s) \<and>
     sleep_inv ((point s)(t := p)) (wchan s) \<and> (\<forall>u. \<not> t_in_interrupt s u)"

definition inv_at :: "tid \<Rightarrow> pc \<Rightarrow> synch \<Rightarrow> bool" where
  "inv_at t p s \<longleftrightarrow>
     spin_inv ((point s)(t := p)) (splk_holder s) (c_spinlocks s) \<and>
     sleep_inv ((point s)(t := p)) (wchan s) \<and>
     lock_inv ((point s)(t := p)) (lk_lock s) (lk_holder s) \<and> (\<forall>u. \<not> t_in_interrupt s u)"

definition synch_ok :: "synch \<Rightarrow> bool" where
  "synch_ok s \<longleftrightarrow> spin_inv (point s) (splk_holder s) (c_spinlocks s) \<and> sleep_inv (point s) (wchan s) \<and>
     lock_inv (point s) (lk_lock s) (lk_holder s) \<and> (\<forall>u. \<not> t_in_interrupt s u)"

lemma held_awakened [simp]: "held (awakened p) = held p"
  by (cases p) simp_all

lemma releasing_awakened [simp]: "releasing (awakened p) = releasing p"
  by (cases p) simp_all

lemma sleeping_awakened [simp]: "sleeping_on (awakened p) = None"
  by (cases p) simp_all

lemma finite_held [simp]: "finite (held p)"
  by (cases p) simp_all

lemma inv_at_base: "inv_at t p s \<longleftrightarrow> base_at t p s \<and> lock_inv ((point s)(t := p)) (lk_lock s) (lk_holder s)"
  by (auto simp: inv_at_def base_at_def)

lemma inv_at_goto: "synch_ok (goto t p s) \<longleftrightarrow> inv_at t p s"
  by (simp add: synch_ok_def inv_at_def goto_def)

lemma inv_at_here: "synch_ok s \<longleftrightarrow> inv_at t (point s t) s"
  by (simp add: synch_ok_def inv_at_def)

lemma inv_at_event [simp]: "inv_at t p (note_event e s) \<longleftrightarrow> inv_at t p s"
  by (simp add: inv_at_def note_event_def)

lemma inv_at_count [simp]: "inv_at t p (s\<lparr>sem_count := c\<rparr>) \<longleftrightarrow> inv_at t p s"
  by (simp add: inv_at_def)

lemma spin_inv_acquire:
  assumes "spin_inv (f(t := q)) h c" "h x = None" "held p = insert x (held q)"
  shows "spin_inv (f(t := p)) (h(x := Some t)) (c(t := c t + 1))"
proof -
  have q: "x \<notin> held q" using assms(1,2) unfolding spin_inv_def by (metis fun_upd_same option.distinct(1))
  have o: "x \<notin> held (f u)" if "u \<noteq> t" for u
    using assms(1,2) that unfolding spin_inv_def by (metis fun_upd_other option.distinct(1))
  show ?thesis using assms q o unfolding spin_inv_def by auto
qed

lemma spin_inv_release:
  assumes "spin_inv (f(t := q)) h c" "x \<in> held q" "held p = held q - {x}"
  shows "spin_inv (f(t := p)) (h(x := None)) (c(t := c t - 1))"
proof -
  have "h x = Some t" using assms(1,2) unfolding spin_inv_def by (metis fun_upd_same)
  then have o: "x \<notin> held (f u)" if "u \<noteq> t" for u
    using assms(1) that unfolding spin_inv_def by (metis fun_upd_other option.inject)
  show ?thesis using assms o unfolding spin_inv_def by (auto simp: card_Diff_singleton)
qed

lemma spin_inv_same: "spin_inv f h c \<Longrightarrow> (\<And>u. held (g u) = held (f u)) \<Longrightarrow> spin_inv g h c"
  by (simp add: spin_inv_def)

lemma sleep_inv_add:
  assumes "sleep_inv (f(t := q)) w" "sleeping_on q = None" "sleeping_on p = Some x"
  shows "sleep_inv (f(t := p)) (w(x := w x @ [t]))"
proof -
  have "t \<notin> set (w y)" for y using assms(1,2) unfolding sleep_inv_def by (metis fun_upd_same option.distinct(1))
  then show ?thesis using assms unfolding sleep_inv_def by auto
qed

lemma sleep_inv_remove:
  assumes "sleep_inv f w" "w x = u # rest"
  shows "sleep_inv (f(u := awakened (f u))) (w(x := rest))"
proof -
  have u: "sleeping_on (f u) = Some x" "u \<notin> set rest"
    using assms unfolding sleep_inv_def by (metis list.set_intros(1), metis distinct.simps(2))
  have d: "distinct rest" using assms unfolding sleep_inv_def by (metis distinct.simps(2))
  have "v \<in> set rest \<longleftrightarrow> v \<noteq> u \<and> sleeping_on (f v) = Some x" for v
    using assms u(2) unfolding sleep_inv_def by (metis set_ConsD list.set_intros(2))
  moreover have "u \<notin> set (w y)" if "y \<noteq> x" for y using assms(1) u(1) that unfolding sleep_inv_def by auto
  ultimately show ?thesis using assms(1) d unfolding sleep_inv_def by auto
qed

lemma sleep_inv_clear:
  assumes "sleep_inv f w"
  shows "sleep_inv (\<lambda>u. if u \<in> set (w x) then awakened (f u) else f u) (w(x := []))"
  using assms unfolding sleep_inv_def by auto

lemma sleep_inv_same: "sleep_inv f w \<Longrightarrow> (\<And>u. sleeping_on (g u) = sleeping_on (f u)) \<Longrightarrow> sleep_inv g w"
  by (simp add: sleep_inv_def)

lemma lock_inv_same:
  "lock_inv f lk h \<Longrightarrow> (\<And>u l. releasing (g u) = Some l \<Longrightarrow> releasing (f u) = Some l) \<Longrightarrow> lock_inv g lk h"
  by (simp add: lock_inv_def)

lemma awaken_inv:
  "spin_inv f h c \<Longrightarrow> spin_inv (\<lambda>u. if u \<in> A then awakened (f u) else f u) h c"
  "lock_inv f lk k \<Longrightarrow> lock_inv (\<lambda>u. if u \<in> A then awakened (f u) else f u) lk k"
  "spin_inv f h c \<Longrightarrow> spin_inv (f(v := awakened (f v))) h c"
  "lock_inv f lk k \<Longrightarrow> lock_inv (f(v := awakened (f v))) lk k"
proof -
  show "spin_inv f h c \<Longrightarrow> spin_inv (\<lambda>u. if u \<in> A then awakened (f u) else f u) h c"
    by (erule spin_inv_same) simp
  show "lock_inv f lk k \<Longrightarrow> lock_inv (\<lambda>u. if u \<in> A then awakened (f u) else f u) lk k"
    by (erule lock_inv_same) (simp split: if_splits)
  show "spin_inv f h c \<Longrightarrow> spin_inv (f(v := awakened (f v))) h c" by (erule spin_inv_same) simp
  show "lock_inv f lk k \<Longrightarrow> lock_inv (f(v := awakened (f v))) lk k"
    by (erule lock_inv_same) (simp split: if_splits)
qed

text \<open>Steps that touch no shared data but the spinlocks.\<close>

definition same_data :: "synch \<Rightarrow> synch \<Rightarrow> bool" where
  "same_data s s' \<longleftrightarrow> history s' = history s \<and> sem_count s' = sem_count s \<and> lk_holder s' = lk_holder s \<and>
     wchan s' = wchan s"

definition moved :: "tid \<Rightarrow> pc \<Rightarrow> synch \<Rightarrow> synch \<Rightarrow> bool" where
  "moved t p s s' \<longleftrightarrow> same_data s s' \<and> (point s' = point s \<or> point s' = (point s)(t := p))"

definition woken :: "obj \<Rightarrow> synch \<Rightarrow> (obj \<Rightarrow> tid list) \<times> (tid \<Rightarrow> pc)" where
  "woken x s = (case wchan s x of
     [] \<Rightarrow> (wchan s, point s)
   | u # rest \<Rightarrow> ((wchan s)(x := rest), (point s)(u := awakened (point s u))))"

lemma woken_cong: "wchan s' = wchan s \<Longrightarrow> point s' = point s \<Longrightarrow> woken x s' = woken x s"
  by (cases "wchan s x") (simp_all add: woken_def)

lemma lock_inv_take:
  assumes "lock_inv f lk h" "h l = None"
  shows "lock_inv f (lk(l := 1)) (h(l := Some t))"
proof -
  have "releasing (f u) \<noteq> Some l" for u using assms unfolding lock_inv_def by (metis option.distinct(1))
  then show ?thesis using assms(1) by (simp add: lock_inv_def)
qed

lemma lock_inv_drop:
  assumes "lock_inv (f(t := q)) lk h" "h l = Some t" "releasing p = None"
  shows "lock_inv (f(t := p)) (lk(l := 0)) (h(l := None))"
proof -
  have "releasing (f u) \<noteq> Some l" if "u \<noteq> t" for u
    using assms(1,2) that unfolding lock_inv_def by (metis fun_upd_other option.inject)
  then show ?thesis using assms(1,3) by (simp add: lock_inv_def)
qed

lemma at_goto:
  assumes "inv_at t q s" "held p = held q" "sleeping_on p = sleeping_on q"
    and "releasing p = None \<or> releasing p = releasing q"
  shows "inv_at t p s"
  using assms unfolding inv_at_def
  by (auto elim!: spin_inv_same sleep_inv_same lock_inv_same split: if_splits)

lemma at_acquire:
  assumes "inv_at t (point s t) s" "held p = insert x (held (point s t))" "x \<notin> held (point s t)"
    and "sleeping_on p = sleeping_on (point s t)" "releasing p = None \<or> releasing p = releasing (point s t)"
  shows "\<exists>s'. spinlock_acquire x p t s = Some s' \<and> synch_ok s' \<and> moved t p s s'"
proof -
  let ?q = "point s t"
  let ?s = "s\<lparr>splk_holder := (splk_holder s)(x := Some t), c_spinlocks := (c_spinlocks s)(t := c_spinlocks s t + 1)\<rparr>"
  have "splk_holder s x \<noteq> Some t" using assms(1,3) by (auto simp: inv_at_def spin_inv_def)
  moreover have "synch_ok (goto t p ?s)" if n: "splk_holder s x = None"
    using assms spin_inv_acquire [of "point s" t ?q "splk_holder s" "c_spinlocks s" x p] n unfolding inv_at_goto
    by (auto simp: inv_at_def elim!: sleep_inv_same lock_inv_same split: if_splits)
  ultimately show ?thesis using assms(1)
    by (auto simp: spinlock_acquire_def inv_at_here [of s t] moved_def same_data_def goto_def)
qed

lemma base_release:
  assumes "base_at t q s" "x \<in> held q" "held p = held q - {x}" "sleeping_on p = sleeping_on q"
  shows "\<exists>s'. spinlock_release x t s = Some s' \<and> base_at t p s' \<and> same_data s s' \<and>
    point s' = point s \<and> lk_lock s' = lk_lock s"
proof -
  have h: "splk_holder s x = Some t" "c_spinlocks s t = card (held q)"
    using assms(1,2) unfolding base_at_def spin_inv_def by (metis fun_upd_same)+
  moreover have "card (held q) > 0" using assms(2) by (auto simp: card_gt_0_iff)
  moreover have "base_at t p (s\<lparr>splk_holder := (splk_holder s)(x := None), c_spinlocks := (c_spinlocks s)(t := c_spinlocks s t - 1)\<rparr>)"
    using assms spin_inv_release [of "point s" t q "splk_holder s" "c_spinlocks s" x p]
    by (auto simp: base_at_def elim!: sleep_inv_same split: if_splits)
  ultimately show ?thesis by (simp add: spinlock_release_def same_data_def)
qed

lemma at_release:
  assumes "inv_at t q s" "x \<in> held q" "held p = held q - {x}" "sleeping_on p = sleeping_on q"
    and "releasing p = None \<or> releasing p = releasing q"
  shows "\<exists>s'. spinlock_release x t s = Some s' \<and> inv_at t p s' \<and> same_data s s' \<and> point s' = point s"
proof -
  obtain s' where s': "spinlock_release x t s = Some s'" "base_at t p s'" "same_data s s'" "point s' = point s"
      "lk_lock s' = lk_lock s"
    using base_release [of t q s x p] assms by (auto simp: inv_at_base)
  moreover have "lock_inv ((point s)(t := p)) (lk_lock s) (lk_holder s)"
    using assms(1,5) unfolding inv_at_base by (auto elim!: lock_inv_same split: if_splits)
  ultimately show ?thesis by (auto simp: inv_at_base same_data_def)
qed

lemma at_sleep:
  assumes "inv_at t q s" "held q = {x}" "sleeping_on q = None" "held p = {}" "sleeping_on p = Some x" "releasing p = None"
  shows "\<exists>s'. wchan_sleep x p t s = Some s' \<and> synch_ok s' \<and> history s' = history s \<and>
    sem_count s' = sem_count s \<and> lk_holder s' = lk_holder s \<and> point s' = (point s)(t := p) \<and>
    wchan s' = (wchan s)(x := wchan s x @ [t])"
proof -
  have h: "splk_holder s x = Some t" "c_spinlocks s t = 1" "\<not> t_in_interrupt s t"
    using assms(1,2) unfolding inv_at_def spin_inv_def by (auto simp: fun_upd_def)
  let ?s = "s\<lparr>wchan := (wchan s)(x := wchan s x @ [t]), splk_holder := (splk_holder s)(x := None),
    c_spinlocks := (c_spinlocks s)(t := c_spinlocks s t - 1)\<rparr>"
  have "synch_ok (goto t p ?s)"
    using assms spin_inv_release [of "point s" t q "splk_holder s" "c_spinlocks s" x p]
      sleep_inv_add [of "point s" t q "wchan s" p x]
    unfolding inv_at_goto by (auto simp: inv_at_def elim!: lock_inv_same split: if_splits)
  then show ?thesis using h
    by (simp add: wchan_sleep_def spinlock_release_def spinlock_do_i_hold_def goto_def)
qed

lemma base_wakeone:
  assumes "base_at t q s" "x \<in> held q" "sleeping_on q = None"
  shows "\<exists>s'. wchan_wakeone x t s = Some s' \<and> base_at t q s' \<and> history s' = history s \<and>
    sem_count s' = sem_count s \<and> lk_holder s' = lk_holder s \<and> lk_lock s' = lk_lock s \<and>
    (wchan s', point s') = woken x s"
    and "wchan s x = u # rest \<Longrightarrow> u \<noteq> t \<and> sleeping_on (point s u) = Some x"
proof -
  have h: "spinlock_do_i_hold x t s"
    using assms(1,2) unfolding base_at_def spin_inv_def spinlock_do_i_hold_def by (metis fun_upd_same)
  show first: "u \<noteq> t \<and> sleeping_on (point s u) = Some x" if "wchan s x = u # rest" for u rest
  proof -
    have "sleeping_on (((point s)(t := q)) u) = Some x"
      using assms(1) that unfolding base_at_def sleep_inv_def by (metis list.set_intros(1))
    then show ?thesis using assms(3) by (auto split: if_splits)
  qed
  show "\<exists>s'. wchan_wakeone x t s = Some s' \<and> base_at t q s' \<and> history s' = history s \<and>
      sem_count s' = sem_count s \<and> lk_holder s' = lk_holder s \<and> lk_lock s' = lk_lock s \<and>
      (wchan s', point s') = woken x s"
  proof (cases "wchan s x")
    case Nil
    then show ?thesis using h assms(1) by (simp add: wchan_wakeone_def woken_def)
  next
    case (Cons u rest)
    let ?s = "goto u (awakened (point s u)) (s\<lparr>wchan := (wchan s)(x := rest)\<rparr>)"
    have eq: "(point ?s)(t := q) = ((point s)(t := q))(u := awakened (((point s)(t := q)) u))"
      using first [OF Cons] by (auto simp: goto_def fun_eq_iff)
    have "sleep_inv ((point ?s)(t := q)) ((wchan s)(x := rest))"
      unfolding eq using assms(1) Cons by (intro sleep_inv_remove) (simp_all add: base_at_def)
    moreover have "spin_inv ((point ?s)(t := q)) (splk_holder s) (c_spinlocks s)"
      unfolding eq using assms(1) awaken_inv(3) unfolding base_at_def by blast
    ultimately have "base_at t q ?s" using assms(1) by (simp add: base_at_def goto_def)
    then show ?thesis using Cons h by (simp add: wchan_wakeone_def goto_def woken_def)
  qed
qed

lemma woken_point:
  assumes "(\<And>u rest. wchan s x = u # rest \<Longrightarrow> u \<noteq> t)" "lock_inv ((point s)(t := p)) lk h"
  shows "lock_inv ((snd (woken x s))(t := p)) lk h"
proof (cases "wchan s x")
  case Nil
  then show ?thesis using assms(2) by (simp add: woken_def)
next
  case (Cons u rest)
  have "(snd (woken x s))(t := p) = ((point s)(t := p))(u := awakened (((point s)(t := p)) u))"
    using assms(1) [OF Cons] Cons by (auto simp: woken_def fun_eq_iff)
  then show ?thesis using awaken_inv(4) [OF assms(2), of u] by simp
qed

lemma at_wakeone:
  assumes "inv_at t q s" "x \<in> held q" "sleeping_on q = None"
  shows "\<exists>s'. wchan_wakeone x t s = Some s' \<and> inv_at t q s' \<and> history s' = history s \<and>
    sem_count s' = sem_count s \<and> lk_holder s' = lk_holder s \<and> (wchan s', point s') = woken x s"
proof -
  have b: "base_at t q s" "lock_inv ((point s)(t := q)) (lk_lock s) (lk_holder s)" using assms(1) by (simp_all add: inv_at_base)
  obtain s' where s': "wchan_wakeone x t s = Some s'" "base_at t q s'" "history s' = history s"
      "sem_count s' = sem_count s" "lk_holder s' = lk_holder s" "lk_lock s' = lk_lock s" "(wchan s', point s') = woken x s"
    using base_wakeone(1) [OF b(1) assms(2,3)] by blast
  have "lock_inv ((snd (woken x s))(t := q)) (lk_lock s) (lk_holder s)"
    using woken_point [OF _ b(2)] base_wakeone(2) [OF b(1) assms(2,3)] by blast
  moreover have "point s' = snd (woken x s)" using arg_cong [OF s'(7), of snd] by simp
  ultimately have "inv_at t q s'" using s'(2,5,6) by (simp add: inv_at_base)
  then show ?thesis using s' by auto
qed

lemma at_wakeall:
  assumes "inv_at t q s" "x \<in> held q" "sleeping_on q = None"
  shows "\<exists>s'. wchan_wakeall x t s = Some s' \<and> inv_at t q s' \<and> history s' = history s \<and>
    sem_count s' = sem_count s \<and> lk_holder s' = lk_holder s \<and> wchan s' = (wchan s)(x := []) \<and>
    point s' = (\<lambda>u. if u \<in> set (wchan s x) then awakened (point s u) else point s u) \<and>
    (\<forall>u\<in>set (wchan s x). u \<noteq> t \<and> sleeping_on (point s u) = Some x)"
proof -
  let ?f = "(point s)(t := q)"
  let ?g = "\<lambda>u. if u \<in> set (wchan s x) then awakened (point s u) else point s u"
  have h: "spinlock_do_i_hold x t s"
    using assms(1,2) unfolding inv_at_def spin_inv_def spinlock_do_i_hold_def by (metis fun_upd_same)
  have in_q: "u \<noteq> t \<and> sleeping_on (point s u) = Some x" if "u \<in> set (wchan s x)" for u
  proof -
    have "sleeping_on (?f u) = Some x" using assms(1) that unfolding inv_at_def sleep_inv_def by blast
    then show ?thesis using assms(3) by (auto split: if_splits)
  qed
  have eq: "?g(t := q) = (\<lambda>u. if u \<in> set (wchan s x) then awakened (?f u) else ?f u)"
    using in_q by (auto simp: fun_eq_iff)
  have "sleep_inv (?g(t := q)) ((wchan s)(x := []))"
    unfolding eq using assms(1) by (rule sleep_inv_clear [OF inv_at_def [THEN iffD1, THEN conjunct2, THEN conjunct1]])
  moreover have "spin_inv (?g(t := q)) (splk_holder s) (c_spinlocks s)"
    unfolding eq using assms(1) awaken_inv(1) unfolding inv_at_def by blast
  moreover have "lock_inv (?g(t := q)) (lk_lock s) (lk_holder s)"
    unfolding eq using assms(1) awaken_inv(2) unfolding inv_at_def by blast
  ultimately have "inv_at t q (s\<lparr>wchan := (wchan s)(x := []), point := ?g\<rparr>)" using assms(1) by (simp add: inv_at_def)
  then show ?thesis using h in_q by (simp add: wchan_wakeall_def)
qed

lemma P_decrement_ok:
  assumes "synch_ok s" "point s t = P_loop i"
  shows "\<exists>s'. P_decrement i t s = Some s' \<and> synch_ok s' \<and> lk_holder s' = lk_holder s \<and>
    (if sem_count s i = 0
     then history s' = history s \<and> sem_count s' = sem_count s \<and> point s' = (point s)(t := P_asleep i) \<and>
       wchan s' = (wchan s)(Sem i := wchan s (Sem i) @ [t])
     else history s' = history s @ [Passed t i] \<and> sem_count s' = (sem_count s)(i := sem_count s i - 1) \<and>
       point s' = (point s)(t := Client) \<and> wchan s' = wchan s)"
proof (cases "sem_count s i = 0")
  case True
  then show ?thesis using assms at_sleep [of t "P_loop i" s "Sem i" "P_asleep i"] inv_at_here [of s t]
    by (auto simp: P_decrement_def)
next
  case False
  let ?s = "s\<lparr>sem_count := (sem_count s)(i := sem_count s i - 1)\<rparr>"
  have "inv_at t (P_loop i) ?s" using assms inv_at_here [of s t] by simp
  then obtain s' where s': "spinlock_release (Sem i) t ?s = Some s'" "inv_at t Client s'" "history s' = history s"
      "sem_count s' = (sem_count s)(i := sem_count s i - 1)" "lk_holder s' = lk_holder s" "wchan s' = wchan s" "point s' = point s"
    using at_release [of t "P_loop i" ?s "Sem i" Client] by (auto simp: same_data_def)
  have "synch_ok (goto t Client (note_event (Passed t i) s'))" using s'(2) by (simp add: inv_at_goto)
  moreover have "sem_count s i > 0" using False by (simp add: word_gt_0)
  ultimately show ?thesis using False s' by (simp add: P_decrement_def) (simp add: goto_def note_event_def)
qed

lemma V_increment_ok:
  assumes "synch_ok s" "point s t = V_body i" "sem_count s i + 1 \<noteq> 0"
  shows "\<exists>s'. V_increment i t s = Some s' \<and> synch_ok s' \<and> lk_holder s' = lk_holder s \<and>
    history s' = history s @ [Posted t i] \<and> sem_count s' = (sem_count s)(i := sem_count s i + 1) \<and>
    wchan s' = fst (woken (Sem i) s) \<and> point s' = (snd (woken (Sem i) s))(t := Client)"
proof -
  let ?s = "s\<lparr>sem_count := (sem_count s)(i := sem_count s i + 1)\<rparr>"
  have "inv_at t (V_body i) ?s" using assms inv_at_here [of s t] by simp
  then obtain s1 where s1: "wchan_wakeone (Sem i) t ?s = Some s1" "inv_at t (V_body i) s1" "history s1 = history s"
      "sem_count s1 = (sem_count s)(i := sem_count s i + 1)" "lk_holder s1 = lk_holder s"
      "(wchan s1, point s1) = woken (Sem i) s"
    using at_wakeone [of t "V_body i" ?s "Sem i"] woken_cong [of ?s s "Sem i"] by auto
  then obtain s2 where s2: "spinlock_release (Sem i) t s1 = Some s2" "inv_at t Client s2" "history s2 = history s1"
      "sem_count s2 = sem_count s1" "lk_holder s2 = lk_holder s1" "wchan s2 = wchan s1" "point s2 = point s1"
    using at_release [of t "V_body i" s1 "Sem i" Client] by (auto simp: same_data_def)
  have "synch_ok (goto t Client (note_event (Posted t i) s2))" using s2(2) by (simp add: inv_at_goto)
  moreover have "sem_count s i + 1 > 0" using assms(3) by (simp add: word_gt_0)
  ultimately show ?thesis using s1 s2
    by (cases "woken (Sem i) s") (simp add: V_increment_def Let_def, simp add: goto_def note_event_def)
qed

lemma lock_acquire_ok:
  assumes "synch_ok s" "point s t = Acquire_loop l"
  shows "\<exists>s'. lock_acquire_body l t s = Some s' \<and> synch_ok s' \<and> sem_count s' = sem_count s \<and>
    (if lk_holder s l \<noteq> None
     then history s' = history s \<and> lk_holder s' = lk_holder s \<and> point s' = (point s)(t := Acquire_asleep l) \<and>
       wchan s' = (wchan s)(Lock l := wchan s (Lock l) @ [t])
     else history s' = history s @ [Acquired t l] \<and> lk_holder s' = (lk_holder s)(l := Some t) \<and>
       point s' = (point s)(t := Client) \<and> wchan s' = wchan s)"
proof -
  have at: "inv_at t (Acquire_loop l) s" using assms inv_at_here [of s t] by simp
  then have lk: "lk_lock s l = (if lk_holder s l = None then 0 else 1)" by (simp add: inv_at_def lock_inv_def)
  show ?thesis
  proof (cases "lk_holder s l = None")
    case False
    then show ?thesis using at lk at_sleep [of t "Acquire_loop l" s "Lock l" "Acquire_asleep l"]
      by (auto simp: lock_acquire_body_def)
  next
    case True
    let ?s = "s\<lparr>lk_lock := (lk_lock s)(l := 1), lk_holder := (lk_holder s)(l := Some t)\<rparr>"
    have "inv_at t (Acquire_loop l) ?s" using at True by (simp add: inv_at_def lock_inv_take)
    then obtain s' where s': "spinlock_release (Lock l) t ?s = Some s'" "inv_at t Client s'" "history s' = history s"
        "sem_count s' = sem_count s" "lk_holder s' = (lk_holder s)(l := Some t)" "wchan s' = wchan s" "point s' = point s"
      using at_release [of t "Acquire_loop l" ?s "Lock l" Client] by (auto simp: same_data_def)
    have "synch_ok (goto t Client (note_event (Acquired t l) s'))" using s'(2) by (simp add: inv_at_goto)
    then show ?thesis using True lk s' by (simp add: lock_acquire_body_def) (simp add: goto_def note_event_def)
  qed
qed

lemma lock_release_ok:
  assumes "synch_ok s" "point s t = q" "releasing q = Some l" "Lock l \<in> held q" "sleeping_on q = None"
    and p: "held p = held q - {Lock l}" "sleeping_on p = None" "releasing p = None"
  shows "\<exists>s'. lock_release_body l t s = Some s' \<and> synch_ok (goto t p s') \<and> lk_holder s l = Some t \<and>
    history s' = history s @ [Released t l] \<and> sem_count s' = sem_count s \<and> lk_holder s' = (lk_holder s)(l := None) \<and>
    wchan s' = fst (woken (Lock l) s) \<and> point s' = snd (woken (Lock l) s)"
proof -
  have at: "inv_at t q s" using assms inv_at_here [of s t] by simp
  have h: "lk_holder s l = Some t" using assms(1-3) by (auto simp: synch_ok_def lock_inv_def)
  let ?s = "s\<lparr>lk_lock := (lk_lock s)(l := 0), lk_holder := (lk_holder s)(l := None)\<rparr>"
  have b: "base_at t q ?s" using at by (simp add: inv_at_base base_at_def)
  have w: "woken (Lock l) ?s = woken (Lock l) s" by (rule woken_cong) simp_all
  obtain s1 where s1: "wchan_wakeone (Lock l) t ?s = Some s1" "base_at t q s1" "history s1 = history s"
      "sem_count s1 = sem_count s" "lk_holder s1 = (lk_holder s)(l := None)" "lk_lock s1 = (lk_lock s)(l := 0)"
      "(wchan s1, point s1) = woken (Lock l) s"
    using base_wakeone(1) [OF b assms(4,5)] unfolding w by auto
  obtain s2 where s2: "spinlock_release (Lock l) t s1 = Some s2" "base_at t p s2" "same_data s1 s2" "point s2 = point s1"
      "lk_lock s2 = lk_lock s1"
    using base_release [OF s1(2) assms(4) p(1)] p(2) assms(5) by auto
  have "lock_inv ((point s)(t := p)) ((lk_lock s)(l := 0)) ((lk_holder s)(l := None))"
    using at h p(3) lock_inv_drop unfolding inv_at_base by blast
  then have "lock_inv ((snd (woken (Lock l) s))(t := p)) ((lk_lock s)(l := 0)) ((lk_holder s)(l := None))"
    using woken_point [of s "Lock l" t p] base_wakeone(2) [OF b assms(4,5)] by simp
  moreover have pt: "point s2 = snd (woken (Lock l) s)" "wchan s1 = fst (woken (Lock l) s)"
    using arg_cong [OF s1(7), of snd] arg_cong [OF s1(7), of fst] s2(4) by simp_all
  ultimately have "inv_at t p s2" using s1(5,6) s2(2,3,5) by (simp add: inv_at_base same_data_def)
  moreover have "lock_release_body l t s = Some (note_event (Released t l) s2)"
    using s1(1) s2(1) by (simp add: lock_release_body_def Let_def)
  ultimately show ?thesis using s1(3-5) s2(3) h pt
    by (simp add: inv_at_goto same_data_def) (simp add: note_event_def)
qed

text \<open>Threads inside \<^verbatim>\<open>P\<close> on semaphore \<open>i\<close>, or inside \<^verbatim>\<open>lock_acquire\<close> on lock \<open>l\<close>, and not asleep.\<close>

definition passing :: "nat \<Rightarrow> pc \<Rightarrow> bool" where
  "passing i p \<longleftrightarrow> p = P_spin i \<or> p = P_loop i"

definition taking :: "nat \<Rightarrow> pc \<Rightarrow> bool" where
  "taking l p \<longleftrightarrow> p = Acquire_spin l \<or> p = Acquire_loop l"

text \<open>What a step may do to the data that clients see. \<open>quiet\<close> collects the steps that only move
  threads between program points, or put them to sleep on condition variables and wake them.\<close>

definition quiet :: "synch \<Rightarrow> synch \<Rightarrow> bool" where
  "quiet s s' \<longleftrightarrow> history s' = history s \<and> sem_count s' = sem_count s \<and> lk_holder s' = lk_holder s \<and>
     (\<forall>i. wchan s' (Sem i) = wchan s (Sem i)) \<and> (\<forall>l. wchan s' (Lock l) = wchan s (Lock l)) \<and>
     (\<forall>i u. passing i (point s u) \<longrightarrow> passing i (point s' u)) \<and>
     (\<forall>l u. taking l (point s u) \<longrightarrow> taking l (point s' u)) \<and>
     (finite {u. point s u \<noteq> Client} \<longrightarrow> finite {u. point s' u \<noteq> Client})"

inductive effect :: "tid \<Rightarrow> synch \<Rightarrow> synch \<Rightarrow> bool" for t s s' where
  quiet: "quiet s s' \<Longrightarrow> effect t s s'"
| P_sleeps: "point s t = P_loop i \<Longrightarrow> sem_count s i = 0 \<Longrightarrow> lk_holder s' = lk_holder s \<Longrightarrow> history s' = history s \<Longrightarrow>
    sem_count s' = sem_count s \<Longrightarrow> point s' = (point s)(t := P_asleep i) \<Longrightarrow>
    wchan s' = (wchan s)(Sem i := wchan s (Sem i) @ [t]) \<Longrightarrow> effect t s s'"
| P_passes: "point s t = P_loop i \<Longrightarrow> sem_count s i \<noteq> 0 \<Longrightarrow> lk_holder s' = lk_holder s \<Longrightarrow>
    history s' = history s @ [Passed t i] \<Longrightarrow> sem_count s' = (sem_count s)(i := sem_count s i - 1) \<Longrightarrow>
    point s' = (point s)(t := Client) \<Longrightarrow> wchan s' = wchan s \<Longrightarrow> effect t s s'"
| V_posts: "point s t = V_body i \<Longrightarrow> sem_count s i + 1 \<noteq> 0 \<Longrightarrow> lk_holder s' = lk_holder s \<Longrightarrow>
    history s' = history s @ [Posted t i] \<Longrightarrow> sem_count s' = (sem_count s)(i := sem_count s i + 1) \<Longrightarrow>
    wchan s' = fst (woken (Sem i) s) \<Longrightarrow> point s' = (snd (woken (Sem i) s))(t := Client) \<Longrightarrow> effect t s s'"
| acquire_sleeps: "point s t = Acquire_loop l \<Longrightarrow> lk_holder s l \<noteq> None \<Longrightarrow> lk_holder s' = lk_holder s \<Longrightarrow>
    history s' = history s \<Longrightarrow> sem_count s' = sem_count s \<Longrightarrow> point s' = (point s)(t := Acquire_asleep l) \<Longrightarrow>
    wchan s' = (wchan s)(Lock l := wchan s (Lock l) @ [t]) \<Longrightarrow> effect t s s'"
| acquires: "point s t = Acquire_loop l \<Longrightarrow> lk_holder s l = None \<Longrightarrow> lk_holder s' = (lk_holder s)(l := Some t) \<Longrightarrow>
    history s' = history s @ [Acquired t l] \<Longrightarrow> sem_count s' = sem_count s \<Longrightarrow>
    point s' = (point s)(t := Client) \<Longrightarrow> wchan s' = wchan s \<Longrightarrow> effect t s s'"
| releases: "releasing (point s t) = Some l \<Longrightarrow> lk_holder s l = Some t \<Longrightarrow>
    lk_holder s' = (lk_holder s)(l := None) \<Longrightarrow> history s' = history s @ [Released t l] \<Longrightarrow>
    sem_count s' = sem_count s \<Longrightarrow> wchan s' = fst (woken (Lock l) s) \<Longrightarrow>
    point s' = (snd (woken (Lock l) s))(t := p) \<Longrightarrow> effect t s s'"

lemma moved_quiet:
  assumes "moved t p s s'" "\<And>i. passing i (point s t) \<Longrightarrow> passing i p" "\<And>l. taking l (point s t) \<Longrightarrow> taking l p"
  shows "quiet s s'"
proof -
  have "finite {u. ((point s)(t := p)) u \<noteq> Client}" if "finite {u. point s u \<noteq> Client}"
    using that by (rule finite_subset [rotated, OF finite.insertI [of _ t]]) auto
  then show ?thesis using assms by (auto simp: quiet_def moved_def same_data_def)
qed

lemma sleeping_cases:
  "sleeping_on p = Some (Sem i) \<longleftrightarrow> p = P_asleep i"
  "sleeping_on p = Some (Lock l) \<longleftrightarrow> p = Acquire_asleep l"
  "sleeping_on p = Some (Cv c) \<Longrightarrow> \<exists>l. p = Wait_asleep c l"
  by (cases p; auto)+

lemma releasing_cases: "releasing p = Some l \<Longrightarrow> \<not> passing i p \<and> \<not> taking k p \<and> p \<noteq> Client"
  by (cases p) (auto simp: passing_def taking_def)

text \<open>The only ways to halt: \<^verbatim>\<open>V\<close> on a semaphore whose count is at its maximum, and a wait or a
  signal by a thread that does not hold the lock it names.\<close>

definition client_fault :: "tid \<Rightarrow> synch \<Rightarrow> bool" where
  "client_fault t s \<longleftrightarrow> (case point s t of
     V_body i \<Rightarrow> sem_count s i + 1 = 0
   | Wait_check c l \<Rightarrow> splk_holder s (Lock l) = None \<and> lk_holder s l \<noteq> Some t
   | Signal_check b c l \<Rightarrow> splk_holder s (Lock l) = None \<and> lk_holder s l \<noteq> Some t
   | _ \<Rightarrow> False)"

definition step_ok :: "tid \<Rightarrow> synch \<Rightarrow> bool" where
  "step_ok t s \<longleftrightarrow> (\<exists>s'. thread_step t (point s t) s = Some s' \<and> synch_ok s' \<and> effect t s s')"

lemma quiet_refl: "quiet s s"
  by (simp add: quiet_def)

lemma step_idle: "synch_ok s \<Longrightarrow> thread_step t (point s t) s = Some s \<Longrightarrow> step_ok t s"
  by (auto simp: step_ok_def intro: effect.quiet quiet_refl)

lemma step_acquire:
  assumes ok: "synch_ok s" and run: "thread_step t (point s t) s = spinlock_acquire x p t s"
    and p: "held p = insert x (held (point s t))" "x \<notin> held (point s t)" "sleeping_on p = sleeping_on (point s t)"
      "releasing p = None \<or> releasing p = releasing (point s t)"
      "\<And>i. passing i (point s t) \<Longrightarrow> passing i p" "\<And>l. taking l (point s t) \<Longrightarrow> taking l p"
  shows "step_ok t s"
proof -
  have "inv_at t (point s t) s" using ok inv_at_here by blast
  then obtain s' where s': "spinlock_acquire x p t s = Some s'" "synch_ok s'" "moved t p s s'"
    using at_acquire [of t s p x] p(1-4) by blast
  have "quiet s s'" by (rule moved_quiet [of t p]) (rule s'(3), erule p(5), erule p(6))
  then have "effect t s s'" by (rule effect.quiet)
  then show ?thesis using s' run by (auto simp: step_ok_def)
qed

lemma step_check:
  assumes ok: "synch_ok s" and run: "thread_step t (point s t) s = assert_i_hold l p t s"
    and fine: "splk_holder s (Lock l) = None \<Longrightarrow> lk_holder s l = Some t"
    and q: "held (point s t) = {}" "sleeping_on (point s t) = None" "\<And>i. \<not> passing i (point s t)" "\<And>l. \<not> taking l (point s t)"
    and p: "held p = {}" "sleeping_on p = None" "releasing p = None \<or> releasing p = Some l"
  shows "step_ok t s"
proof -
  have at: "inv_at t (point s t) s" using ok inv_at_here by blast
  have free: "splk_holder s (Lock l) \<noteq> Some t" using ok q(1) by (auto simp: synch_ok_def spin_inv_def)
  show ?thesis
  proof (cases "splk_holder s (Lock l)")
    case (Some u)
    then show ?thesis using free run ok by (intro step_idle) (simp_all add: assert_i_hold_def)
  next
    case None
    have h: "lk_holder s l = Some t" "lk_lock s l = 1" using fine [OF None] ok by (simp_all add: synch_ok_def lock_inv_def)
    have "lock_inv ((point s)(t := p)) (lk_lock s) (lk_holder s)"
      using ok h(1) p(3) unfolding synch_ok_def lock_inv_def by auto
    moreover have "base_at t p s"
      using at q p unfolding inv_at_base base_at_def by (auto elim!: spin_inv_same sleep_inv_same split: if_splits)
    ultimately have "synch_ok (goto t p s)" unfolding inv_at_goto inv_at_base by blast
    moreover have "moved t p s (goto t p s)" by (simp add: moved_def same_data_def goto_def)
    then have "quiet s (goto t p s)" by (rule moved_quiet [of t p]) (simp_all add: q(3,4))
    moreover have "thread_step t (point s t) s = Some (goto t p s)"
      using run None h by (simp add: assert_i_hold_def lock_do_i_hold_def)
    ultimately show ?thesis unfolding step_ok_def by (blast intro: effect.quiet)
  qed
qed

lemma quiet_awaken:
  assumes "\<And>u. u \<in> A \<Longrightarrow> \<exists>c l. point s u = Wait_asleep c l" "\<And>i. \<not> passing i (point s t)" "\<And>l. \<not> taking l (point s t)"
    and "point s' = (\<lambda>u. if u \<in> A then awakened (point s u) else point s u)(t := p)"
    and "history s' = history s" "sem_count s' = sem_count s" "lk_holder s' = lk_holder s"
    and "wchan s' = (wchan s)(Cv c := ws)"
  shows "quiet s s'"
proof -
  have aw: "point s u = Wait_asleep c l \<Longrightarrow> \<not> passing i (point s u) \<and> \<not> taking k (point s u)" for u c l i k
    by (simp add: passing_def taking_def)
  have "{u. point s' u \<noteq> Client} \<subseteq> insert t {u. point s u \<noteq> Client}" using assms(1,4) by auto
  then have "finite {u. point s' u \<noteq> Client}" if "finite {u. point s u \<noteq> Client}" using that by (simp add: finite_subset)
  moreover have "passing i (point s' u)" if "passing i (point s u)" for i u
  proof -
    have "u \<noteq> t" using that assms(2) by blast
    moreover have "u \<notin> A" using assms(1) [of u] aw that by blast
    ultimately show ?thesis using that by (simp add: assms(4))
  qed
  moreover have "taking l (point s' u)" if "taking l (point s u)" for l u
  proof -
    have "u \<noteq> t" using that assms(3) by blast
    moreover have "u \<notin> A" using assms(1) [of u] aw that by blast
    ultimately show ?thesis using that by (simp add: assms(4))
  qed
  ultimately show ?thesis using assms(5-8) by (simp add: quiet_def)
qed

lemma step_release:
  assumes ok: "synch_ok s" and q: "point s t = q" "releasing q = Some l" "Lock l \<in> held q" "sleeping_on q = None"
    and p: "held p = held q - {Lock l}" "sleeping_on p = None" "releasing p = None"
    and run: "thread_step t q s = do { s \<leftarrow> lock_release_body l t s; Some (goto t p s) }"
  shows "step_ok t s"
proof -
  obtain s' where s': "lock_release_body l t s = Some s'" "synch_ok (goto t p s')" "lk_holder s l = Some t"
      "history s' = history s @ [Released t l]" "sem_count s' = sem_count s" "lk_holder s' = (lk_holder s)(l := None)"
      "wchan s' = fst (woken (Lock l) s)" "point s' = snd (woken (Lock l) s)"
    using lock_release_ok [OF ok q p] by blast
  have "effect t s (goto t p s')"
    by (rule effect.releases [of s t l "goto t p s'" p]) (use q s' in \<open>simp_all add: goto_def\<close>)
  then show ?thesis using run s'(1,2) q(1) by (auto simp: step_ok_def)
qed

lemma step_signal:
  assumes ok: "synch_ok s" and q: "point s t = Signal_body b c"
  shows "step_ok t s"
proof -
  have at: "inv_at t (Signal_body b c) s" using ok q inv_at_here [of s t] by simp
  have n: "\<not> passing i (point s t)" "\<not> taking l (point s t)" for i l by (simp_all add: q passing_def taking_def)
  let ?A = "if b then set (wchan s (Cv c)) else set (take 1 (wchan s (Cv c)))"
  let ?g = "\<lambda>u. if u \<in> ?A then awakened (point s u) else point s u"
  obtain s1 ws where s1: "(if b then wchan_wakeall (Cv c) t s else wchan_wakeone (Cv c) t s) = Some s1"
      "inv_at t (Signal_body b c) s1" "history s1 = history s" "sem_count s1 = sem_count s" "lk_holder s1 = lk_holder s"
      "wchan s1 = (wchan s)(Cv c := ws)" "point s1 = ?g"
  proof (cases b)
    case True
    then show ?thesis using that [of _ "[]"] at_wakeall [OF at, of "Cv c"] by auto
  next
    case False
    then obtain s1 where "wchan_wakeone (Cv c) t s = Some s1" "inv_at t (Signal_body b c) s1" "history s1 = history s"
        "sem_count s1 = sem_count s" "lk_holder s1 = lk_holder s" "(wchan s1, point s1) = woken (Cv c) s"
      using at_wakeone [OF at, of "Cv c"] by auto
    then show ?thesis using that [of s1 "drop 1 (wchan s (Cv c))"] False
      by (cases "wchan s (Cv c)") (auto simp: woken_def fun_eq_iff)
  qed
  obtain s2 where s2: "spinlock_release (Cv c) t s1 = Some s2" "inv_at t Client s2" "same_data s1 s2" "point s2 = point s1"
    using at_release [OF s1(2), of "Cv c" Client] by auto
  have mem: "\<exists>d l. point s u = Wait_asleep d l" if "u \<in> ?A" for u
  proof -
    have "u \<in> set (wchan s (Cv c))" using that in_set_takeD [of u 1 "wchan s (Cv c)"] by (auto split: if_splits)
    then have "sleeping_on (point s u) = Some (Cv c)" using ok by (simp add: synch_ok_def sleep_inv_def)
    then show ?thesis using sleeping_cases(3) by blast
  qed
  have "quiet s (goto t Client s2)"
  proof (rule quiet_awaken [of ?A s t "goto t Client s2" Client c ws])
    show "point (goto t Client s2) = ?g(t := Client)" using s1(7) s2(4) by (simp add: goto_def)
  qed (use s1(3-6) s2(3) n mem in \<open>simp_all add: goto_def same_data_def\<close>)
  moreover have "synch_ok (goto t Client s2)" using s2(2) by (simp add: inv_at_goto)
  moreover have "thread_step t (point s t) s = Some (goto t Client s2)"
    using s1(1) s2(1) q by (auto simp: cv_signal_body_def cv_broadcast_body_def split: if_splits)
  ultimately show ?thesis unfolding step_ok_def by (blast intro: effect.quiet)
qed

lemma step_wait:
  assumes ok: "synch_ok s" and q: "point s t = Wait_sleep c l \<or> point s t = Wait_awake c l"
  shows "step_ok t s"
proof -
  have n: "\<not> passing i (point s t)" "\<not> taking k (point s t)" for i k using q by (auto simp: passing_def taking_def)
  from q show ?thesis
  proof
    assume q: "point s t = Wait_sleep c l"
    then have "inv_at t (Wait_sleep c l) s" using ok inv_at_here [of s t] by simp
    then obtain s' where s': "wchan_sleep (Cv c) (Wait_asleep c l) t s = Some s'" "synch_ok s'" "history s' = history s"
        "sem_count s' = sem_count s" "lk_holder s' = lk_holder s" "point s' = (point s)(t := Wait_asleep c l)"
        "wchan s' = (wchan s)(Cv c := wchan s (Cv c) @ [t])"
      using at_sleep [of t "Wait_sleep c l" s "Cv c" "Wait_asleep c l"] by auto
    have "quiet s s'"
      by (rule quiet_awaken [of "{}" s t s' "Wait_asleep c l" c "wchan s (Cv c) @ [t]"]) (use s' n in simp_all)
    then show ?thesis using s'(1,2) q by (auto simp: step_ok_def intro: effect.quiet)
  next
    assume q: "point s t = Wait_awake c l"
    then have "inv_at t (Wait_awake c l) s" using ok inv_at_here [of s t] by simp
    then obtain s' where s': "spinlock_release (Cv c) t s = Some s'" "inv_at t (Acquire_spin l) s'" "same_data s s'" "point s' = point s"
      using at_release [of t "Wait_awake c l" s "Cv c" "Acquire_spin l"] by auto
    have "moved t (Acquire_spin l) s (goto t (Acquire_spin l) s')"
      using s'(3,4) by (simp add: moved_def same_data_def goto_def)
    then have "quiet s (goto t (Acquire_spin l) s')" by (rule moved_quiet [of t]) (simp_all add: n)
    then show ?thesis using s'(1,2) q by (auto simp: step_ok_def inv_at_goto intro: effect.quiet)
  qed
qed

lemma step_wait_release:
  assumes ok: "synch_ok s" and q: "point s t = Wait_release c l"
  shows "step_ok t s"
proof (rule step_acquire [OF ok, of t "Lock l" "Wait_body c l"])
  have h: "lk_holder s l = Some t" using ok q by (auto simp: synch_ok_def lock_inv_def)
  then have "lk_lock s l = 1" using ok by (simp add: synch_ok_def lock_inv_def)
  with h show "thread_step t (point s t) s = spinlock_acquire (Lock l) (Wait_body c l) t s"
    by (simp add: q lock_release_check_def)
qed (auto simp: q passing_def taking_def)

lemma thread_step_ok:
  assumes ok: "synch_ok s" and fine: "\<not> client_fault t s"
  shows "step_ok t s"
proof (cases "point s t")
  case (P_loop i)
  then show ?thesis using P_decrement_ok [OF ok P_loop]
    by (cases "sem_count s i = 0") (auto simp: step_ok_def intro: effect.P_sleeps effect.P_passes)
next
  case (V_body i)
  then have "sem_count s i + 1 \<noteq> 0" using fine by (simp add: client_fault_def)
  then show ?thesis using V_increment_ok [OF ok V_body] V_body by (auto simp: step_ok_def intro: effect.V_posts)
next
  case (Acquire_loop l)
  then show ?thesis using lock_acquire_ok [OF ok Acquire_loop]
    by (cases "lk_holder s l = None") (auto simp: step_ok_def intro: effect.acquire_sleeps effect.acquires)
next
  case (Release_body l)
  then show ?thesis using step_release [OF ok Release_body, of l Client] by simp
next
  case (Wait_body c l)
  then show ?thesis using step_release [OF ok Wait_body, of l "Wait_sleep c l"] by auto
next
  case (Wait_check c l)
  show ?thesis
    by (rule step_check [OF ok, of t l "Wait_spin c l"])
      (use fine in \<open>auto simp: Wait_check client_fault_def passing_def taking_def\<close>)
next
  case (Signal_check b c l)
  show ?thesis
    by (rule step_check [OF ok, of t l "Signal_spin b c"])
      (use fine in \<open>auto simp: Signal_check client_fault_def passing_def taking_def\<close>)
next
  case (P_spin i)
  show ?thesis by (rule step_acquire [OF ok, of t "Sem i" "P_loop i"]) (auto simp: P_spin passing_def taking_def)
next
  case (V_spin i)
  show ?thesis by (rule step_acquire [OF ok, of t "Sem i" "V_body i"]) (auto simp: V_spin passing_def taking_def)
next
  case (Acquire_spin l)
  show ?thesis
    by (rule step_acquire [OF ok, of t "Lock l" "Acquire_loop l"]) (auto simp: Acquire_spin passing_def taking_def)
next
  case (Release_spin l)
  show ?thesis
    by (rule step_acquire [OF ok, of t "Lock l" "Release_body l"]) (auto simp: Release_spin passing_def taking_def)
next
  case (Wait_spin c l)
  show ?thesis
    by (rule step_acquire [OF ok, of t "Cv c" "Wait_release c l"]) (auto simp: Wait_spin passing_def taking_def)
next
  case (Wait_wake c l)
  show ?thesis
    by (rule step_acquire [OF ok, of t "Cv c" "Wait_awake c l"]) (auto simp: Wait_wake passing_def taking_def)
next
  case (Signal_spin b c)
  show ?thesis
    by (rule step_acquire [OF ok, of t "Cv c" "Signal_body b c"]) (auto simp: Signal_spin passing_def taking_def)
qed (use ok in \<open>auto intro: step_signal step_wait step_wait_release step_idle\<close>)

section \<open>Histories and wake-ups\<close>

definition hist_ok :: "(nat \<Rightarrow> u32) \<Rightarrow> synch \<Rightarrow> bool" where
  "hist_ok counts s \<longleftrightarrow> (\<forall>l. lock_replay l None (history s) = Some (lk_holder s l)) \<and>
     (\<forall>i. unat (sem_count s i) + passes i (history s) = unat (counts i) + posts i (history s))"

definition wake_ok :: "synch \<Rightarrow> bool" where
  "wake_ok s \<longleftrightarrow> finite {u. point s u \<noteq> Client} \<and>
     (\<forall>i. wchan s (Sem i) \<noteq> [] \<longrightarrow> unat (sem_count s i) \<le> card {u. passing i (point s u)}) \<and>
     (\<forall>l. wchan s (Lock l) \<noteq> [] \<longrightarrow> lk_holder s l = None \<longrightarrow> (\<exists>u. taking l (point s u)))"

lemma lock_replay_append:
  "lock_replay l h (xs @ ys) = (case lock_replay l h xs of None \<Rightarrow> None | Some h' \<Rightarrow> lock_replay l h' ys)"
  by (induct l h xs rule: lock_replay.induct) auto

lemma count_append [simp]:
  "passes i (xs @ ys) = passes i xs + passes i ys" "posts i (xs @ ys) = posts i xs + posts i ys"
  by (simp_all add: passes_def posts_def)

lemma count_one [simp]:
  "passes i [Passed t j] = (if j = i then 1 else 0)" "posts i [Passed t j] = 0"
  "posts i [Posted t j] = (if j = i then 1 else 0)" "passes i [Posted t j] = 0"
  "passes i [Acquired t l] = 0" "posts i [Acquired t l] = 0" "passes i [Released t l] = 0" "posts i [Released t l] = 0"
  by (simp_all add: passes_def posts_def)

lemma unat_Suc_u32: "(w :: u32) + 1 \<noteq> 0 \<Longrightarrow> unat (w + 1) = unat w + 1"
  using unatSuc [of w] by (simp add: add.commute)

lemma effect_hist:
  assumes "effect t s s'" "hist_ok counts s"
  shows "hist_ok counts s'"
  using assms
proof (cases rule: effect.cases)
  case (P_passes i)
  have "unat (sem_count s i) = unat (sem_count s i - 1) + 1"
    using P_passes(2) unat_gt_0 [of "sem_count s i"] by (simp add: unat_minus_one)
  then show ?thesis using assms(2) P_passes unfolding hist_ok_def
    by (auto simp: lock_replay_append) (metis Suc_eq_plus1 add_Suc add_Suc_right)
next
  case (V_posts i)
  have "unat (sem_count s i + 1) = unat (sem_count s i) + 1" using V_posts(2) by (rule unat_Suc_u32)
  then show ?thesis using assms(2) V_posts by (auto simp: hist_ok_def lock_replay_append)
qed (auto simp: hist_ok_def lock_replay_append quiet_def)

lemma finite_passing: "finite {u. point s u \<noteq> Client} \<Longrightarrow> finite {u. passing i (point s u)}"
  by (erule finite_subset [rotated]) (auto simp: passing_def)

lemma finite_point_upd: "finite {u. f u \<noteq> Client} \<Longrightarrow> finite {u. (f(t := p)) u \<noteq> Client}"
  by (rule finite_subset [of _ "insert t {u. f u \<noteq> Client}"]) auto

lemma woken_wake:
  assumes "synch_ok s" "finite {u. point s u \<noteq> Client}" "\<And>i. \<not> passing i (point s t)" "\<And>l. \<not> taking l (point s t)"
    and f_def: "f = (snd (woken x s))(t := p)"
  shows "finite {u. f u \<noteq> Client}"
    and "{u. passing i (point s u)} \<subseteq> {u. passing i (f u)}" "{u. taking l (point s u)} \<subseteq> {u. taking l (f u)}"
    and "x = Sem i \<Longrightarrow> wchan s x \<noteq> [] \<Longrightarrow> sleeping_on (point s t) = None \<Longrightarrow>
      \<exists>u. u \<notin> {u. passing i (point s u)} \<and> passing i (f u)"
    and "x = Lock l \<Longrightarrow> wchan s x \<noteq> [] \<Longrightarrow> sleeping_on (point s t) = None \<Longrightarrow> \<exists>u. taking l (f u)"
proof -
  have fin: "finite {u. snd (woken x s) u \<noteq> Client}"
  proof (cases "wchan s x")
    case Nil
    then show ?thesis using assms(2) by (simp add: woken_def)
  next
    case (Cons v rest)
    then show ?thesis using finite_point_upd [OF assms(2), of v "awakened (point s v)"] by (simp add: woken_def)
  qed
  show "finite {u. f u \<noteq> Client}" unfolding f_def by (rule finite_point_upd [OF fin])
  have sl: "sleeping_on (point s u) = Some x" if "wchan s x = u # rest" for u rest
    using assms(1) that unfolding synch_ok_def sleep_inv_def by (metis list.set_intros(1))
  have keep: "f u = point s u" if "u \<noteq> t" "sleeping_on (point s u) = None" for u
    using that sl by (cases "wchan s x") (auto simp: f_def woken_def)
  have awake: "sleeping_on q = None" if "passing i q \<or> taking l q" for q i l using that by (auto simp: passing_def taking_def)
  show "{u. passing i (point s u)} \<subseteq> {u. passing i (f u)}" "{u. taking l (point s u)} \<subseteq> {u. taking l (f u)}"
    using keep awake assms(3,4) by (auto, metis+)
  have first: "u \<noteq> t \<and> f u = awakened (point s u)" if "wchan s x = u # rest" "sleeping_on (point s t) = None" for u rest
    using sl [OF that(1)] that by (auto simp: f_def woken_def)
  show "\<exists>u. u \<notin> {u. passing i (point s u)} \<and> passing i (f u)" if "x = Sem i" and ne: "wchan s x \<noteq> []" and "sleeping_on (point s t) = None"
  proof -
    obtain u rest where u: "wchan s x = u # rest" using ne by (cases "wchan s x") auto
    have "point s u = P_asleep i" using sl [OF u] that(1) sleeping_cases(1) by simp
    then show ?thesis using first [OF u that(3)] by (intro exI [of _ u]) (simp add: passing_def)
  qed
  show "\<exists>u. taking l (f u)" if "x = Lock l" and ne: "wchan s x \<noteq> []" and "sleeping_on (point s t) = None"
  proof -
    obtain u rest where u: "wchan s x = u # rest" using ne by (cases "wchan s x") auto
    have "point s u = Acquire_asleep l" using sl [OF u] that(1) sleeping_cases(2) by simp
    then show ?thesis using first [OF u that(3)] by (intro exI [of _ u]) (simp add: taking_def)
  qed
qed

lemma wake_okI:
  assumes "finite {u. point s u \<noteq> Client}"
    and "\<And>i. wchan s (Sem i) \<noteq> [] \<Longrightarrow> unat (sem_count s i) \<le> card {u. passing i (point s u)}"
    and "\<And>l. wchan s (Lock l) \<noteq> [] \<Longrightarrow> lk_holder s l = None \<Longrightarrow> \<exists>u. taking l (point s u)"
  shows "wake_ok s"
  using assms by (simp add: wake_ok_def)

lemma wake_okD:
  assumes "wake_ok s"
  shows "finite {u. point s u \<noteq> Client}"
    and "wchan s (Sem i) \<noteq> [] \<Longrightarrow> unat (sem_count s i) \<le> card {u. passing i (point s u)}"
    and "wchan s (Lock l) \<noteq> [] \<Longrightarrow> lk_holder s l = None \<Longrightarrow> \<exists>u. taking l (point s u)"
  using assms by (simp_all add: wake_ok_def)

text \<open>Semaphores and locks that a step does not change keep their wake-ups when the step takes no
  thread away from them.\<close>

lemma wake_sem_same:
  assumes "wake_ok s" "finite {u. point s' u \<noteq> Client}" "wchan s' (Sem i) = wchan s (Sem i)"
    and "sem_count s' i = sem_count s i" "{u. passing i (point s u)} \<subseteq> {u. passing i (point s' u)}" "wchan s' (Sem i) \<noteq> []"
  shows "unat (sem_count s' i) \<le> card {u. passing i (point s' u)}"
proof -
  have "unat (sem_count s i) \<le> card {u. passing i (point s u)}" using wake_okD(2) [OF assms(1)] assms(3,6) by simp
  also have "\<dots> \<le> card {u. passing i (point s' u)}" by (rule card_mono [OF finite_passing [OF assms(2)] assms(5)])
  finally show ?thesis using assms(4) by simp
qed

lemma wake_lock_same:
  assumes "wake_ok s" "wchan s' (Lock l) = wchan s (Lock l)" "lk_holder s' l = lk_holder s l"
    and "{u. taking l (point s u)} \<subseteq> {u. taking l (point s' u)}" "wchan s' (Lock l) \<noteq> []" "lk_holder s' l = None"
  shows "\<exists>u. taking l (point s' u)"
  using wake_okD(3) [OF assms(1), of l] assms(2-6) by auto

lemma wake_point_upd:
  assumes "wake_ok s" "point s' = (point s)(t := p)"
  shows "finite {u. point s' u \<noteq> Client}"
    and "\<not> passing i (point s t) \<Longrightarrow> {u. passing i (point s u)} \<subseteq> {u. passing i (point s' u)}"
    and "\<not> taking l (point s t) \<Longrightarrow> {u. taking l (point s u)} \<subseteq> {u. taking l (point s' u)}"
  using finite_point_upd [OF wake_okD(1) [OF assms(1)]] unfolding assms(2) by auto

lemma wake_P:
  assumes ok: "wake_ok s" and q: "point s t = P_loop i" and same: "lk_holder s' = lk_holder s" "\<And>l. wchan s' (Lock l) = wchan s (Lock l)"
      "\<And>j. j \<noteq> i \<Longrightarrow> wchan s' (Sem j) = wchan s (Sem j) \<and> sem_count s' j = sem_count s j"
    and p: "point s' = (point s)(t := p)"
    and own: "wchan s' (Sem i) \<noteq> [] \<Longrightarrow> unat (sem_count s' i) \<le> card {u. passing i (point s' u)}"
  shows "wake_ok s'"
proof (rule wake_okI)
  note up = wake_point_upd [OF ok p]
  show "finite {u. point s' u \<noteq> Client}" by (rule up(1))
  show "unat (sem_count s' j) \<le> card {u. passing j (point s' u)}" if "wchan s' (Sem j) \<noteq> []" for j
  proof (cases "j = i")
    case False
    then show ?thesis using wake_sem_same [OF ok up(1), of j] up(2) [of j] same(3) that by (simp add: q passing_def)
  qed (use own that in blast)
  show "\<exists>u. taking l (point s' u)" if "wchan s' (Lock l) \<noteq> []" "lk_holder s' l = None" for l
    using wake_lock_same [OF ok, of s' l] up(3) [of l] same(1,2) that by (simp add: q taking_def)
qed

lemma wake_acquire:
  assumes ok: "wake_ok s" and q: "point s t = Acquire_loop l" and same: "sem_count s' = sem_count s" "\<And>i. wchan s' (Sem i) = wchan s (Sem i)"
      "\<And>k. k \<noteq> l \<Longrightarrow> wchan s' (Lock k) = wchan s (Lock k) \<and> lk_holder s' k = lk_holder s k"
    and p: "point s' = (point s)(t := p)" and own: "lk_holder s' l \<noteq> None"
  shows "wake_ok s'"
proof (rule wake_okI)
  note up = wake_point_upd [OF ok p]
  show "finite {u. point s' u \<noteq> Client}" by (rule up(1))
  show "unat (sem_count s' j) \<le> card {u. passing j (point s' u)}" if "wchan s' (Sem j) \<noteq> []" for j
    using wake_sem_same [OF ok up(1), of j] up(2) [of j] same(1,2) that by (simp add: q passing_def)
  show "\<exists>u. taking k (point s' u)" if "wchan s' (Lock k) \<noteq> []" "lk_holder s' k = None" for k
  proof (cases "k = l")
    case False
    then show ?thesis using wake_lock_same [OF ok, of s' k] up(3) [of k] same(3) that by (simp add: q taking_def)
  qed (use own that in blast)
qed

lemma wake_V:
  assumes ok: "wake_ok s" "synch_ok s" and q: "point s t = V_body i" "sem_count s i + 1 \<noteq> 0" "lk_holder s' = lk_holder s"
    and s': "sem_count s' = (sem_count s)(i := sem_count s i + 1)" "wchan s' = fst (woken (Sem i) s)"
      "point s' = (snd (woken (Sem i) s))(t := Client)"
  shows "wake_ok s'"
proof (rule wake_okI)
  have n: "\<not> passing j (point s t)" "\<not> taking l (point s t)" "sleeping_on (point s t) = None" for j l
    using q(1) by (simp_all add: passing_def taking_def)
  note fin = wake_okD(1) [OF ok(1)] and w = woken_wake [OF ok(2) wake_okD(1) [OF ok(1)] n(1,2) s'(3)]
  have wc: "wchan s' (Sem i) \<noteq> [] \<Longrightarrow> wchan s (Sem i) \<noteq> []" "j \<noteq> i \<Longrightarrow> wchan s' (Sem j) = wchan s (Sem j)"
    "wchan s' (Lock l) = wchan s (Lock l)" for j l
    using s'(2) by (cases "wchan s (Sem i)"; simp add: woken_def)+
  show "finite {u. point s' u \<noteq> Client}" by (rule w(1))
  show "unat (sem_count s' j) \<le> card {u. passing j (point s' u)}" if "wchan s' (Sem j) \<noteq> []" for j
  proof (cases "j = i")
    case True
    then have ne: "wchan s (Sem i) \<noteq> []" using wc(1) that by simp
    then obtain u where u: "u \<notin> {u. passing i (point s u)}" "passing i (point s' u)" using w(4) [of i] n(3) by blast
    then have "insert u {u. passing i (point s u)} \<subseteq> {u. passing i (point s' u)}" using w(2) [of i] by blast
    from card_mono [OF finite_passing [OF w(1)] this]
    have "card {u. passing i (point s u)} + 1 \<le> card {u. passing i (point s' u)}"
      using u(1) finite_passing [OF fin, of i] by simp
    then show ?thesis using wake_okD(2) [OF ok(1) ne] unat_Suc_u32 [OF q(2)] True s'(1) by simp
  next
    case False
    then show ?thesis using wake_sem_same [OF ok(1) w(1) wc(2) [OF False] _ w(2) that] s'(1) by simp
  qed
  show "\<exists>u. taking l (point s' u)" if "wchan s' (Lock l) \<noteq> []" "lk_holder s' l = None" for l
    using wake_lock_same [OF ok(1) wc(3) _ w(3) that] q(3) by simp
qed

lemma wake_release:
  assumes ok: "wake_ok s" "synch_ok s" and q: "releasing (point s t) = Some l"
    and s': "lk_holder s' = (lk_holder s)(l := None)" "sem_count s' = sem_count s" "wchan s' = fst (woken (Lock l) s)"
      "point s' = (snd (woken (Lock l) s))(t := p)"
  shows "wake_ok s'"
proof (rule wake_okI)
  have n: "\<not> passing j (point s t)" "\<not> taking k (point s t)" "sleeping_on (point s t) = None" for j k
    using releasing_cases [OF q, of j k] q by (simp_all, cases "point s t") simp_all
  note w = woken_wake [OF ok(2) wake_okD(1) [OF ok(1)] n(1,2) s'(4)]
  have wc: "wchan s' (Lock l) \<noteq> [] \<Longrightarrow> wchan s (Lock l) \<noteq> []" "k \<noteq> l \<Longrightarrow> wchan s' (Lock k) = wchan s (Lock k)"
    "wchan s' (Sem j) = wchan s (Sem j)" for j k
    using s'(3) by (cases "wchan s (Lock l)"; simp add: woken_def)+
  show "finite {u. point s' u \<noteq> Client}" by (rule w(1))
  show "unat (sem_count s' j) \<le> card {u. passing j (point s' u)}" if "wchan s' (Sem j) \<noteq> []" for j
    using wake_sem_same [OF ok(1) w(1) wc(3) _ w(2) that] s'(2) by simp
  show "\<exists>u. taking k (point s' u)" if "wchan s' (Lock k) \<noteq> []" "lk_holder s' k = None" for k
  proof (cases "k = l")
    case True
    then show ?thesis using w(5) [of l] wc(1) that(1) n(3) by blast
  next
    case False
    then show ?thesis using wake_lock_same [OF ok(1) wc(2) [OF False] _ w(3) that] s'(1) by simp
  qed
qed

lemma wake_quiet:
  assumes "wake_ok s" "quiet s s'"
  shows "wake_ok s'"
proof (rule wake_okI)
  show fin: "finite {u. point s' u \<noteq> Client}" using wake_okD(1) [OF assms(1)] assms(2) by (simp add: quiet_def)
  show "unat (sem_count s' j) \<le> card {u. passing j (point s' u)}" if "wchan s' (Sem j) \<noteq> []" for j
    using assms(2) that by (intro wake_sem_same [OF assms(1) fin]) (auto simp: quiet_def)
  show "\<exists>u. taking k (point s' u)" if "wchan s' (Lock k) \<noteq> []" "lk_holder s' k = None" for k
    using assms(2) that by (intro wake_lock_same [OF assms(1)]) (auto simp: quiet_def)
qed

lemma effect_wake:
  assumes "effect t s s'" "synch_ok s" "wake_ok s"
  shows "wake_ok s'"
  using assms(1)
proof (cases rule: effect.cases)
  case quiet
  then show ?thesis by (rule wake_quiet [OF assms(3)])
next
  case (P_sleeps i)
  then show ?thesis by (intro wake_P [OF assms(3), of t i s']) simp_all
next
  case (P_passes i)
  have "{u. passing i (point s' u)} = {u. passing i (point s u)} - {t}" using P_passes(6) by (auto simp: passing_def)
  moreover have "card ({u. passing i (point s u)} - {t}) = card {u. passing i (point s u)} - 1"
    using P_passes(1) by (intro card_Diff_singleton) (simp add: passing_def)
  moreover have "unat (sem_count s' i) = unat (sem_count s i) - 1" using P_passes(2,5) by (simp add: unat_minus_one)
  ultimately have "wchan s' (Sem i) \<noteq> [] \<Longrightarrow> unat (sem_count s' i) \<le> card {u. passing i (point s' u)}"
    using wake_okD(2) [OF assms(3), of i] P_passes(7) by (simp add: diff_le_mono)
  then show ?thesis using P_passes by (intro wake_P [OF assms(3), of t i s']) simp_all
next
  case (V_posts i)
  then show ?thesis by (intro wake_V [OF assms(3,2), of t i s'])
next
  case (acquire_sleeps l)
  then show ?thesis by (intro wake_acquire [OF assms(3), of t l s']) simp_all
next
  case (acquires l)
  then show ?thesis by (intro wake_acquire [OF assms(3), of t l s']) simp_all
next
  case (releases l p)
  then show ?thesis by (intro wake_release [OF assms(3,2), of t l s' p])
qed

section \<open>All schedules\<close>

fun first_point :: "call \<Rightarrow> pc" where
  "first_point (Call_P i) = P_spin i"
| "first_point (Call_V i) = V_spin i"
| "first_point (Call_lock_acquire l) = Acquire_spin l"
| "first_point (Call_lock_release l) = Release_spin l"
| "first_point (Call_cv_wait c l) = Wait_check c l"
| "first_point (Call_cv_signal c l) = Signal_check False c l"
| "first_point (Call_cv_broadcast c l) = Signal_check True c l"

lemma enter_goto:
  "enter t c s = Some s' \<Longrightarrow> s' = goto t (first_point c) s"
  "enter t c s = Some s' \<Longrightarrow> releasing (first_point c) = Some l \<Longrightarrow> lk_holder s l = Some t"
  by (cases c; simp add: kassert_bind lock_release_check_def split: if_splits)+

lemma enter_ok:
  assumes ok: "synch_ok s" and q: "point s t = Client" and run: "enter t c s = Some s'"
  shows "synch_ok s' \<and> effect t s s'"
proof -
  define p where "p = first_point c"
  have s': "s' = goto t p s" and p: "held p = {}" "sleeping_on p = None"
      "\<And>l. releasing p = Some l \<Longrightarrow> lk_holder s l = Some t"
    using enter_goto [OF run] by (auto simp: p_def) (cases c; simp)+
  have "inv_at t Client s" using ok q inv_at_here [of s t] by simp
  then have "base_at t p s"
    using p unfolding inv_at_base base_at_def by (auto elim!: spin_inv_same sleep_inv_same split: if_splits)
  moreover have "lock_inv ((point s)(t := p)) (lk_lock s) (lk_holder s)"
    using ok p(3) unfolding synch_ok_def lock_inv_def by auto
  ultimately have "synch_ok s'" unfolding s' inv_at_goto inv_at_base by blast
  moreover have "moved t p s s'" by (simp add: s' moved_def same_data_def goto_def)
  then have "quiet s s'" by (rule moved_quiet [of t p]) (simp_all add: q passing_def taking_def)
  ultimately show ?thesis by (blast intro: effect.quiet)
qed

definition all_ok :: "(nat \<Rightarrow> u32) \<Rightarrow> synch \<Rightarrow> bool" where
  "all_ok counts s \<longleftrightarrow> synch_ok s \<and> hist_ok counts s \<and> wake_ok s"

lemma synch_init_ok: "all_ok counts (synch_init counts)"
  by (simp add: all_ok_def synch_init_def synch_ok_def spin_inv_def sleep_inv_def lock_inv_def hist_ok_def
      wake_ok_def passes_def posts_def)

lemma fault_halts: "client_fault t s \<Longrightarrow> thread_step t (point s t) s = None"
  by (cases "point s t") (auto simp: client_fault_def V_increment_def assert_i_hold_def lock_do_i_hold_def)

lemma synch_step_ok:
  assumes "synch_step s s'" "all_ok counts s"
  shows "all_ok counts s'"
proof -
  have "synch_ok s" using assms(2) by (simp add: all_ok_def)
  have "\<exists>t. synch_ok s' \<and> effect t s s'"
    using assms(1)
  proof (cases rule: synch_step.cases)
    case (run t)
    then have "\<not> client_fault t s" using fault_halts by fastforce
    then have "step_ok t s" using thread_step_ok [OF \<open>synch_ok s\<close>] by blast
    then show ?thesis using run by (auto simp: step_ok_def)
  next
    case (enter t c)
    then show ?thesis using enter_ok [OF \<open>synch_ok s\<close>] by blast
  qed
  then show ?thesis using effect_hist effect_wake assms(2) unfolding all_ok_def by blast
qed

lemma synch_reachable_ok: "synch_reachable counts s \<Longrightarrow> all_ok counts s"
  by (induct rule: rtranclp_induct) (simp_all add: synch_init_ok synch_step_ok)

section \<open>Properties\<close>

text \<open>A run in which thread 1 takes lock 0 and thread 2 goes to sleep on it.\<close>

primrec run_threads :: "tid list \<Rightarrow> synch \<Rightarrow> synch option" where
  "run_threads [] s = Some s"
| "run_threads (t # ts) s = do { s \<leftarrow> thread_step t (point s t) s; run_threads ts s }"

lemma run_threads_steps: "run_threads ts s = Some s' \<Longrightarrow> synch_step\<^sup>*\<^sup>* s s'"
proof (induct ts arbitrary: s)
  case (Cons t ts)
  then obtain s1 where "thread_step t (point s t) s = Some s1" "run_threads ts s1 = Some s'"
    by (auto split: bind_splits)
  then show ?case using Cons(1) by (meson converse_rtranclp_into_rtranclp synch_step.run)
qed simp

definition demo_calls :: "synch \<Rightarrow> synch option" where
  "demo_calls s = do {
     s \<leftarrow> enter 1 (Call_lock_acquire 0) s;
     s \<leftarrow> enter 2 (Call_lock_acquire 0) s;
     s \<leftarrow> enter 3 (Call_P 0) s;
     run_threads [1, 1, 2, 2, 3, 3] s }"

lemma demo_calls_reachable:
  assumes "demo_calls (synch_init counts) = Some s"
  shows "synch_reachable counts s"
proof -
  let ?s0 = "synch_init counts"
  let ?s1 = "goto 1 (Acquire_spin 0) ?s0" let ?s2 = "goto 2 (Acquire_spin 0) ?s1" let ?s3 = "goto 3 (P_spin 0) ?s2"
  have "synch_step ?s0 ?s1" by (rule synch_step.enter [of _ 1 "Call_lock_acquire 0"]) (simp_all add: synch_init_def)
  moreover have "synch_step ?s1 ?s2"
    by (rule synch_step.enter [of _ 2 "Call_lock_acquire 0"]) (simp_all add: synch_init_def goto_def)
  moreover have "synch_step ?s2 ?s3"
    by (rule synch_step.enter [of _ 3 "Call_P 0"]) (simp_all add: synch_init_def goto_def)
  moreover have "run_threads [1, 1, 2, 2, 3, 3] ?s3 = Some s"
    using assms by (simp add: demo_calls_def synch_init_def goto_def)
  ultimately show ?thesis using run_threads_steps by (meson converse_rtranclp_into_rtranclp)
qed

lemma demo_run:
  "\<exists>s. synch_reachable (\<lambda>_. 0) s \<and> history s = [Acquired 1 0] \<and> lk_holder s 0 = Some 1 \<and>
     wchan s (Lock 0) = [2] \<and> wchan s (Sem 0) = [3] \<and> point s 4 = Client"
proof -
  have "\<exists>s. demo_calls (synch_init (\<lambda>_. 0)) = Some s \<and> history s = [Acquired 1 0] \<and> lk_holder s 0 = Some 1 \<and>
      wchan s (Lock 0) = [2] \<and> wchan s (Sem 0) = [3] \<and> point s 4 = Client"
    by (simp add: demo_calls_def synch_init_def goto_def note_event_def spinlock_acquire_def spinlock_release_def
        spinlock_do_i_hold_def wchan_sleep_def P_decrement_def lock_acquire_body_def)
  then show ?thesis using demo_calls_reachable by blast
qed

text \<open>C4. Locks exclude each other's holders. Under every schedule of any number of threads, the
  returns from \<^verbatim>\<open>lock_acquire\<close> and the releases of a lock (those inside \<^verbatim>\<open>cv_wait\<close> included)
  replay on a mutex: no thread acquires the lock while another has it, only the thread that has
  it releases it, and \<^verbatim>\<open>lk_holder\<close> names that thread.\<close>

theorem lock_mutual_exclusion:
  assumes "synch_reachable counts s"
  shows "lock_replay l None (history s) = Some (lk_holder s l)"
  using synch_reachable_ok [OF assms] by (simp add: all_ok_def hist_ok_def)

theorem lock_mutual_exclusion_witness:
  "\<exists>s. synch_reachable (\<lambda>_. 0) s \<and> history s = [Acquired 1 0] \<and> lock_replay 0 None (history s) = Some (Some 1)"
proof -
  obtain s where s: "synch_reachable (\<lambda>_. 0) s" "history s = [Acquired 1 0]" "lk_holder s 0 = Some 1" using demo_run by blast
  then show ?thesis using lock_mutual_exclusion [OF s(1), of 0] by (intro exI [of _ s]) simp
qed

text \<open>C13. Semaphores count. Under every schedule the count of a semaphore is its initial count plus
  the completed \<^verbatim>\<open>V\<close> minus the completed \<^verbatim>\<open>P\<close>; in particular at most that many \<^verbatim>\<open>P\<close> have
  returned as the initial count and the \<^verbatim>\<open>V\<close> allow, whatever the width of the counter.\<close>

theorem sem_accounts:
  assumes "synch_reachable counts s"
  shows "unat (sem_count s i) + passes i (history s) = unat (counts i) + posts i (history s)"
  using synch_reachable_ok [OF assms] by (simp add: all_ok_def hist_ok_def)

theorem sem_accounts_witness:
  "\<exists>s. synch_reachable (\<lambda>_. 0) s \<and> wchan s (Sem 0) = [3] \<and> unat (sem_count s 0) + passes 0 (history s) = 0"
proof -
  obtain s where s: "synch_reachable (\<lambda>_. 0) s" "history s = [Acquired 1 0]" "wchan s (Sem 0) = [3]" using demo_run by blast
  then show ?thesis using sem_accounts [OF s(1), of 0] by (intro exI [of _ s]) (simp add: posts_def)
qed

text \<open>C7. No wake-up is lost. Under every schedule, when threads sleep in \<^verbatim>\<open>P\<close>, at least as many
  threads as the count allows are awake inside \<^verbatim>\<open>P\<close> on their way to it; and when threads sleep in
  \<^verbatim>\<open>lock_acquire\<close> on a free lock, some thread is awake inside \<^verbatim>\<open>lock_acquire\<close> to take it.\<close>

theorem no_lost_wakeup:
  assumes "synch_reachable counts s"
  shows "(wchan s (Sem i) \<noteq> [] \<longrightarrow>
       unat (sem_count s i) \<le> card {u. point s u = P_spin i \<or> point s u = P_loop i}) \<and>
    (wchan s (Lock l) \<noteq> [] \<longrightarrow> lk_holder s l = None \<longrightarrow>
       (\<exists>u. point s u = Acquire_spin l \<or> point s u = Acquire_loop l))"
  using synch_reachable_ok [OF assms] by (simp add: all_ok_def wake_ok_def passing_def taking_def)

theorem no_lost_wakeup_witness:
  "\<exists>s. synch_reachable (\<lambda>_. 0) s \<and> wchan s (Sem 0) = [3] \<and> unat (sem_count s 0) \<le> card {u. point s u = P_spin 0 \<or> point s u = P_loop 0}"
proof -
  obtain s where s: "synch_reachable (\<lambda>_. 0) s" "wchan s (Sem 0) = [3]" using demo_run by blast
  then show ?thesis using no_lost_wakeup [OF s(1), of 0 0] by (intro exI [of _ s]) simp
qed



end
