(* ===== verification/Spec2Isabelle.thy ===== *)
theory Spec2Isabelle
  imports Copyinout Uio Vmprops Cmem Cstring Qsort Threadlist Synch
begin

text \<open>
  Verification of the OS/161 kernel in this repository.
\<close>

end
